(* ===== verification/Tcp_Prelude.thy ===== *)
theory Tcp_Prelude
  imports Main "HOL-Library.Word" "HOL-Library.Sublist"
begin

text \<open>
  What every other theory shares: the machine types of the sources
  (\<^verbatim>\<open>Base/BaseTypes.h\<close> names), the faults a checked operation can end in, the
  bind of the resulting error type, generic facts on words and lists, and the locale
  that turns a one-step invariant into a fact about every reachable state.
\<close>

section \<open>Machine types\<close>

type_synonym byte = "8 word"
type_synonym uint16 = "16 word"
type_synonym uint32 = "32 word"
type_synonym int32 = int \<comment> \<open>values only; every conversion from and to words is written out\<close>
type_synonym nanoseconds = int

text \<open>The implicit conversions of the sources between 32-bit types.\<close>

definition int32_of_uint32 :: "uint32 \<Rightarrow> int32" where
  "int32_of_uint32 w = sint w"

definition uint16_of_int32 :: "int32 \<Rightarrow> uint16" where
  "uint16_of_int32 i = word_of_int i"

definition int32_of_uint16 :: "uint16 \<Rightarrow> int32" where
  "int32_of_uint16 w = uint w"

section \<open>Faults\<close>

text \<open>
  An operation of the program that reaches a failed \<^verbatim>\<open>SANITY_CHECK\<close>, a
  \<^verbatim>\<open>LogFATAL\<close>, a null or dangling pointer, a throwing \<^verbatim>\<open>map::at\<close> or
  another undefined operation, or enters a loop it never leaves, ends in a fault: the left
  side of the sum. What the process does next is not described.
\<close>

datatype fault =
    Sanity_check string
  | Log_fatal string
  | Null_pointer string
  | Dangling_pointer string
  | Out_of_range string
  | Undefined_behaviour string
  | Diverges string

type_synonym 'a checked = "fault + 'a"

definition bindR :: "'a checked \<Rightarrow> ('a \<Rightarrow> 'b checked) \<Rightarrow> 'b checked" where
  "bindR m f = (case m of Inl e \<Rightarrow> Inl e | Inr x \<Rightarrow> f x)"

definition guardR :: "bool \<Rightarrow> fault \<Rightarrow> unit checked" where
  "guardR b e = (if b then Inr () else Inl e)"

lemma bindR_simps [simp]:
  "bindR (Inl e) f = Inl e"
  "bindR (Inr x) f = f x"
  by (simp_all add: bindR_def)

lemma guardR_simps [simp]:
  "guardR True e = Inr ()"
  "guardR False e = Inl e"
  by (simp_all add: guardR_def)

lemma bindR_Inr_iff: "bindR m f = Inr y \<longleftrightarrow> (\<exists>x. m = Inr x \<and> f x = Inr y)"
  by (cases m) simp_all

lemma guardR_Inr_iff [simp]: "guardR b e = Inr u \<longleftrightarrow> b"
  by (simp add: guardR_def)

lemma bindR_guardR: "bindR (guardR b e) f = (if b then f () else Inl e)"
  by simp

lemma bindR_assoc: "bindR (bindR m f) g = bindR m (\<lambda>x. bindR (f x) g)"
  by (cases m) simp_all

text \<open>
  An operation that waits on a condition variable either blocks, because its predicate does
  not hold in the state it finds, or returns.
\<close>

datatype 'a waits = Blocks | Returns 'a

lemma waits_Returns_iff:
  "(case r of Blocks \<Rightarrow> Inr Blocks | Returns x \<Rightarrow> f x) = Inr (Returns y) \<longleftrightarrow>
    (\<exists>x. r = Returns x \<and> f x = Inr (Returns y))"
  by (cases r) auto

lemma waits_case_Returns_iff:
  "(case r of Blocks \<Rightarrow> Blocks | Returns x \<Rightarrow> f x) = Returns y \<longleftrightarrow> (\<exists>x. r = Returns x \<and> f x = Returns y)"
  by (cases r) auto

section \<open>Unsigned 32-bit arithmetic without wrap-around\<close>

named_theorems seq_arith \<open>sequence-number arithmetic read as natural numbers\<close>

lemma uint32_less: "unat (x :: uint32) < 4294967296"
  using unsigned_less [of x, where ?'a = nat] by simp

lemma unat_add_u32 [seq_arith]:
  "unat a + unat b < 4294967296 \<Longrightarrow> unat (a + b :: uint32) = unat a + unat b"
  by (rule unat_add_lem [THEN iffD1]) simp

lemma unat_sub_u32 [seq_arith]:
  "b \<le> a \<Longrightarrow> unat (a - b :: uint32) = unat a - unat b"
  by (rule unat_sub)

lemma unat_of_nat_u32 [seq_arith]:
  "n < 4294967296 \<Longrightarrow> unat (of_nat n :: uint32) = n"
  by (simp add: unat_of_nat take_bit_nat_eq_self_iff)

lemma u32_eq_iff: "(a :: uint32) = b \<longleftrightarrow> unat a = unat b"
  by (metis unsigned_word_eqI)

lemma of_nat_unat_u32 [simp]: "of_nat (unat (x :: uint32)) = x"
  by simp

lemma uint_less_u32: "unat (x :: uint32) < n \<Longrightarrow> uint x < int n"
  by (metis of_nat_less_iff uint_nat)

lemma sint_u32_small:
  assumes "unat (x :: uint32) < 2147483648"
  shows "sint x = uint x"
proof -
  have "uint x < 2147483648"
    using uint_less_u32 [OF assms] by simp
  moreover have "- 2147483648 \<le> uint x"
    by (rule order_trans [OF _ uint_ge_0]) simp
  ultimately show ?thesis
    by (simp add: sint_uint signed_take_bit_int_eq_self_iff)
qed

lemma int32_roundtrip:
  assumes "- 2147483648 \<le> i" "i < 2147483648"
  shows "int32_of_uint32 (word_of_int i) = i"
  using assms by (simp add: int32_of_uint32_def sint_sbintrunc' signed_take_bit_int_eq_self_iff)

section \<open>Lists\<close>

text \<open>A channel that may lose packets delivers a subsequence of what it was given.\<close>

fun remove_nth :: "nat \<Rightarrow> 'a list \<Rightarrow> 'a list" where
  "remove_nth _ [] = []"
| "remove_nth 0 (x # xs) = xs"
| "remove_nth (Suc n) (x # xs) = x # remove_nth n xs"

lemma subseq_set: "subseq xs ys \<Longrightarrow> set xs \<subseteq> set ys"
  by (induction rule: list_emb.induct) auto

lemma subseq_tlD: "subseq xs (tl ys) \<Longrightarrow> subseq xs ys"
  by (cases ys) auto

lemma subseq_remove_nth: "subseq (remove_nth n xs) xs"
  by (induction n xs rule: remove_nth.induct) auto

lemma set_remove_nth: "set (remove_nth n xs) \<subseteq> set xs"
  by (rule subseq_set [OF subseq_remove_nth])

section \<open>Invariants of transition systems\<close>

text \<open>
  The interface through which every step relation of the development gets its
  reachability theorem: an initial-state predicate, a step relation and a predicate that
  holds initially and is kept by each step.
\<close>

locale invariant_system =
  fixes init :: "'s \<Rightarrow> bool"
    and step :: "'s \<Rightarrow> 's \<Rightarrow> bool"
    and inv :: "'s \<Rightarrow> bool"
  assumes inv_init: "init s \<Longrightarrow> inv s"
    and inv_step: "inv s \<Longrightarrow> step s t \<Longrightarrow> inv t"
begin

lemma inv_steps: "step\<^sup>*\<^sup>* s t \<Longrightarrow> inv s \<Longrightarrow> inv t"
  by (induction rule: rtranclp_induct) (auto intro: inv_step)

lemma reachable_inv: "init s \<Longrightarrow> step\<^sup>*\<^sup>* s t \<Longrightarrow> inv t"
  by (blast intro: inv_steps inv_init)

end

end
