(* ===== verification/Packets.thy ===== *)
theory Packets
  imports Tcp_Prelude
begin

text \<open>
  \<^verbatim>\<open>IPHeader.h\<close>, \<^verbatim>\<open>TcpHeader.h\<close> and \<^verbatim>\<open>Packet.h\<close>/\<^verbatim>\<open>Packet.cc\<close>. A packet keeps its
  payload pointer and its payload size apart, as the class does: a SYN or FIN segment has
  no payload buffer but a payload size of one. \<^verbatim>\<open>payload_ = nullptr\<close> is \<open>None\<close>;
  \<open>Some bs\<close> is a heap buffer holding the bytes \<open>bs\<close>.
\<close>

section \<open>Headers and packets\<close>

record IPHeader =
  source_ip :: string
  dest_ip :: string
  protocol :: uint16

definition IPHeader_default :: IPHeader where
  "IPHeader_default = \<lparr>source_ip = [], dest_ip = [], protocol = 6\<rparr>"

record TcpHeader =
  source_port :: uint16
  dest_port :: uint16
  seq_num :: uint32
  ack_num :: uint32
  data_offset :: uint16
  ack :: bool
  window_size :: uint16
  check_sum :: uint16
  sync :: bool
  fin :: bool
  rst :: bool

definition TcpHeader_default :: TcpHeader where
  "TcpHeader_default = \<lparr>source_port = 0, dest_port = 0, seq_num = 0, ack_num = 0,
     data_offset = 0, ack = False, window_size = 0, check_sum = 0, sync = False,
     fin = False, rst = False\<rparr>"

record Packet =
  ip_header :: IPHeader
  tcp_header :: TcpHeader
  payload :: "byte list option"
  payload_size :: uint32
  corrupted :: bool

text \<open>The sequence number a packet carries, and the bytes its payload stands for.\<close>

abbreviation pkt_seq :: "Packet \<Rightarrow> uint32" where
  "pkt_seq p \<equiv> seq_num (tcp_header p)"

abbreviation pkt_len :: "Packet \<Rightarrow> nat" where
  "pkt_len p \<equiv> unat (payload_size p)"

definition pkt_bytes :: "Packet \<Rightarrow> byte list" where
  "pkt_bytes p = (case payload p of None \<Rightarrow> [] | Some bs \<Rightarrow> take (pkt_len p) bs)"

section \<open>Construction and payload\<close>

definition Packet_headers :: "IPHeader \<Rightarrow> TcpHeader \<Rightarrow> Packet" where
  "Packet_headers ih th = \<lparr>ip_header = ih, tcp_header = th, payload = None,
     payload_size = 0, corrupted = False\<rparr>"

definition Packet_string :: "IPHeader \<Rightarrow> TcpHeader \<Rightarrow> byte list \<Rightarrow> Packet" where
  "Packet_string ih th data = (Packet_headers ih th)
     \<lparr>payload := Some data, payload_size := of_nat (length data)\<rparr>"

definition set_payload_size :: "uint32 \<Rightarrow> Packet \<Rightarrow> Packet" where
  "set_payload_size n p = p\<lparr>payload_size := n\<rparr>"

text \<open>\<^verbatim>\<open>memcpy(payload_, data, size)\<close> reads \<open>size\<close> bytes of the source buffer.\<close>

definition memcpy_from :: "byte list \<Rightarrow> nat \<Rightarrow> byte list checked" where
  "memcpy_from src n =
     (if n \<le> length src then Inr (take n src)
      else Inl (Undefined_behaviour ''memcpy past the end of the source''))"

definition InjectPayload ::
  "Packet \<Rightarrow> byte list option \<Rightarrow> int32 \<Rightarrow> (uint32 \<times> Packet) checked" where
  "InjectPayload p data sz =
     (case data of
        None \<Rightarrow> Inr (0, p)
      | Some bs \<Rightarrow>
          if sz \<le> 0 then Inr (0, p)
          else bindR (memcpy_from bs (nat sz)) (\<lambda>copied.
                 Inr (word_of_int sz, p\<lparr>payload := Some copied, payload_size := word_of_int sz\<rparr>)))"

definition Packet_bytes ::
  "IPHeader \<Rightarrow> TcpHeader \<Rightarrow> byte list option \<Rightarrow> int32 \<Rightarrow> Packet checked" where
  "Packet_bytes ih th data sz =
     bindR (InjectPayload (Packet_headers ih th) data sz) (\<lambda>(_, p). Inr p)"

text \<open>
  \<^verbatim>\<open>InjectPayloadFromBuffer\<close> fills a fresh buffer from a \<^verbatim>\<open>BufferInterface\<close>, a
  library class: its \<^verbatim>\<open>Read(ptr, size)\<close> is the parameter \<open>read\<close>, which gives the bytes
  it stored and the buffer left behind. Only these bytes are kept: the rest of the fresh
  buffer is uninitialised, and \<^verbatim>\<open>payload_size_\<close> excludes it.
\<close>

definition InjectPayloadFromBuffer ::
  "('b \<Rightarrow> uint32 \<Rightarrow> byte list \<times> 'b) \<Rightarrow> Packet \<Rightarrow> 'b \<Rightarrow> uint32 \<Rightarrow> uint32 \<times> Packet \<times> 'b" where
  "InjectPayloadFromBuffer read p src n =
     (if n = 0 then (0, p\<lparr>payload_size := 0\<rparr>, src)
      else let (bs, src') = read src n; m = of_nat (length bs)
           in (m, p\<lparr>payload := Some bs, payload_size := m\<rparr>, src'))"

text \<open>\<^verbatim>\<open>Copy\<close>; the size argument of \<^verbatim>\<open>InjectPayload\<close> is a signed \<^verbatim>\<open>int\<close>.\<close>

definition Copy :: "Packet \<Rightarrow> Packet checked" where
  "Copy p =
     (let copy = (Packet_headers (ip_header p) (tcp_header p))\<lparr>payload_size := payload_size p\<rparr>
      in bindR (InjectPayload copy (payload p) (int32_of_uint32 (payload_size p)))
           (\<lambda>(_, c). Inr c))"

section \<open>DebugString\<close>

text \<open>\<^verbatim>\<open>std::to_string\<close> on an unsigned number: its decimal digits.\<close>

fun to_string_nat :: "nat \<Rightarrow> string" where
  "to_string_nat n =
     (if n < 10 then [char_of (48 + n)]
      else to_string_nat (n div 10) @ [char_of (48 + n mod 10)])"

declare to_string_nat.simps [simp del]

text \<open>\<^verbatim>\<open>Strings::Join\<close> belongs to the library: it is the parameter \<open>join\<close>.\<close>

definition debug_flags :: "Packet \<Rightarrow> string list" where
  "debug_flags p =
     (let h = tcp_header p in
        (if rst h then [''Rst''] else []) @
        (if sync h then [''Syn*''] else []) @
        (if fin h then [''Fin*''] else []) @
        (if payload_size p > 0 then [''Seq '' @ to_string_nat (unat (seq_num h))]
         else if \<not> ack h \<and> \<not> rst h then [''probing window size''] else []) @
        (if ack h then [''Ack '' @ to_string_nat (unat (ack_num h))] else []))"

definition Packet_DebugString ::
  "(string list \<Rightarrow> string \<Rightarrow> string) \<Rightarrow> Packet \<Rightarrow> string" where
  "Packet_DebugString join p = join (debug_flags p) '', ''"

section \<open>Well-formed packets and copying\<close>

text \<open>
  A packet is well formed when its payload buffer, if it has one, holds at least
  \<^verbatim>\<open>payload_size_\<close> bytes, and it is in normal form when the buffer has exactly that
  many, at least one, and the packet is not marked corrupted. All packets the controller
  makes are in normal form.
\<close>

definition pkt_wf :: "Packet \<Rightarrow> bool" where
  "pkt_wf p \<longleftrightarrow> pkt_len p < 2147483648 \<and>
     (case payload p of None \<Rightarrow> True | Some bs \<Rightarrow> pkt_len p \<le> length bs)"

definition pkt_normal :: "Packet \<Rightarrow> bool" where
  "pkt_normal p \<longleftrightarrow> pkt_len p < 2147483648 \<and> \<not> corrupted p \<and>
     (case payload p of None \<Rightarrow> True | Some bs \<Rightarrow> bs \<noteq> [] \<and> length bs = pkt_len p)"

lemma pkt_normal_wf: "pkt_normal p \<Longrightarrow> pkt_wf p"
  by (auto simp: pkt_normal_def pkt_wf_def split: option.splits)

lemma Packet_headers_simps [simp]:
  "ip_header (Packet_headers ih th) = ih"
  "tcp_header (Packet_headers ih th) = th"
  "payload (Packet_headers ih th) = None"
  "payload_size (Packet_headers ih th) = 0"
  "corrupted (Packet_headers ih th) = False"
  by (simp_all add: Packet_headers_def)

lemma set_payload_size_simps [simp]:
  "payload_size (set_payload_size n p) = n"
  "tcp_header (set_payload_size n p) = tcp_header p"
  "ip_header (set_payload_size n p) = ip_header p"
  "payload (set_payload_size n p) = payload p"
  "corrupted (set_payload_size n p) = corrupted p"
  by (simp_all add: set_payload_size_def)

lemma InjectPayload_ok:
  assumes "data = Some bs" "0 < unat n" "unat n \<le> length bs"
  shows "InjectPayload p data (uint n) =
    Inr (n, p\<lparr>payload := Some (take (unat n) bs), payload_size := n\<rparr>)"
proof -
  have "\<not> uint n \<le> 0"
    using assms(2) by (metis not_le of_nat_0_less_iff uint_nat)
  moreover have "nat (uint n) = unat n"
    by (rule unat_eq_nat_uint [symmetric])
  ultimately show ?thesis
    using assms by (simp add: InjectPayload_def memcpy_from_def)
qed

lemma Copy_small:
  assumes "pkt_len p < 2147483648"
  shows "Copy p =
    bindR (InjectPayload ((Packet_headers (ip_header p) (tcp_header p))
             \<lparr>payload_size := payload_size p\<rparr>) (payload p) (uint (payload_size p)))
      (\<lambda>(_, c). Inr c)"
  using assms by (simp add: Copy_def int32_of_uint32_def sint_u32_small Let_def)

lemma Copy_normal:
  assumes "pkt_normal p"
  shows "Copy p = Inr p"
proof (cases "payload p")
  case None
  with assms show ?thesis
    by (simp add: pkt_normal_def Copy_small InjectPayload_def Packet_headers_def)
next
  case (Some bs)
  with assms have len: "length bs = pkt_len p" and "bs \<noteq> []"
    by (auto simp: pkt_normal_def)
  then have "0 < pkt_len p"
    by (metis length_greater_0_conv)
  with len assms Some show ?thesis
    by (simp add: pkt_normal_def Copy_small InjectPayload_ok Packet_headers_def)
qed

end
