(* ===== verification/Send_Window.thy ===== *)
theory Send_Window
  imports Packets
begin

text \<open>
  \<^verbatim>\<open>TcpWindow\<close> and \<^verbatim>\<open>SendWindow.h\<close>/\<^verbatim>\<open>SendWindow.cc\<close>: the sender's half of the sliding
  window. Sequence numbers and sizes are 32-bit words and wrap around as the code's
  \<^verbatim>\<open>uint32\<close> does. \<^verbatim>\<open>max_duplicated_acks\<close> is a variable of the file, shared by all
  windows of the process, so it is passed and returned beside the window. What
  \<^verbatim>\<open>rtt_watch_.elapsed_time()\<close> gives for a node is the parameter \<open>elapsed\<close>: the stop
  watch is a library class.
\<close>

section \<open>State\<close>

definition TcpWindow_kDefaultWindowSize :: uint32 where
  "TcpWindow_kDefaultWindowSize = 65536"

record SendWindowNode =
  node_pkt :: Packet
  re_transmit_count :: uint32

definition SendWindowNode_new :: "Packet \<Rightarrow> SendWindowNode" where
  "SendWindowNode_new p = \<lparr>node_pkt = p, re_transmit_count = 0\<rparr>"

record SendWindow =
  send_base :: uint32
  capacity :: uint32
  sw_size :: uint32
  pkts_to_ack :: "SendWindowNode list"
  last_acked_num :: uint32
  duplicated_acks :: uint32
  has_retransmitted_pkt :: bool

record AckResult =
  ack_refreshed :: bool
  dup_ack :: bool
  re_transmit :: bool
  rtt :: "nanoseconds option" \<comment> \<open>\<open>None\<close>: the uninitialised local variable\<close>

definition kMaxDuplicatedAcksOrigin :: uint32 where
  "kMaxDuplicatedAcksOrigin = 3"

definition SendWindow_new :: "uint32 \<Rightarrow> uint32 \<Rightarrow> SendWindow" where
  "SendWindow_new base cap = \<lparr>send_base = base, capacity = cap, sw_size = 0,
     pkts_to_ack = [], last_acked_num = 0, duplicated_acks = 0,
     has_retransmitted_pkt = False\<rparr>"

definition SendWindow_new_default :: "uint32 \<Rightarrow> SendWindow" where
  "SendWindow_new_default base = SendWindow_new base TcpWindow_kDefaultWindowSize"

section \<open>Operations\<close>

definition free_space :: "SendWindow \<Rightarrow> uint32" where
  "free_space w = (if capacity w > sw_size w then capacity w - sw_size w else 0)"

definition NextSeqNumberToSend :: "SendWindow \<Rightarrow> uint32" where
  "NextSeqNumberToSend w = send_base w + sw_size w"

definition NumPacketsToAck :: "SendWindow \<Rightarrow> uint32" where
  "NumPacketsToAck w = of_nat (length (pkts_to_ack w))"

definition set_capacity :: "uint32 \<Rightarrow> SendWindow \<Rightarrow> SendWindow" where
  "set_capacity c w = w\<lparr>capacity := c\<rparr>"

definition register_pkt :: "SendWindow \<Rightarrow> Packet \<Rightarrow> SendWindow" where
  "register_pkt w p = w\<lparr>pkts_to_ack := pkts_to_ack w @ [SendWindowNode_new p],
     sw_size := sw_size w + payload_size p\<rparr>"

definition SendPacket :: "SendWindow \<Rightarrow> Packet \<Rightarrow> (bool \<times> SendWindow) checked" where
  "SendPacket w p =
     (if free_space w < payload_size p \<and> capacity w > 0 then Inr (False, w)
      else if pkts_to_ack w = [] \<and> pkt_seq p \<noteq> send_base w then Inr (False, w)
      else if pkts_to_ack w \<noteq> [] then
        let last_pkt = node_pkt (last (pkts_to_ack w));
            last_seq_num = pkt_seq last_pkt;
            last_pkt_length = payload_size last_pkt
        in if last_seq_num + last_pkt_length \<noteq> send_base w + sw_size w
           then Inl (Sanity_check ''last un-acked pkt mismatch with (send_base + size)'')
           else if pkt_seq p \<noteq> last_seq_num + last_pkt_length then Inr (False, w)
           else Inr (True, register_pkt w p)
      else Inr (True, register_pkt w p))"

text \<open>
  The loop of \<^verbatim>\<open>NewAckedPacket\<close> over the queue: each round pops the front or breaks, so
  the recursion follows the queue. It returns the queue, the size, the last sequence
  number and length it looked at, and the round trip time.
\<close>

fun ack_loop ::
  "(SendWindowNode \<Rightarrow> nanoseconds) \<Rightarrow> uint32 \<Rightarrow> bool \<Rightarrow> uint32 \<Rightarrow> SendWindowNode list \<Rightarrow> uint32 \<Rightarrow>
   uint32 \<Rightarrow> uint32 \<Rightarrow> nanoseconds option \<Rightarrow>
   (SendWindowNode list \<times> uint32 \<times> uint32 \<times> uint32 \<times> nanoseconds option) checked" where
  "ack_loop elapsed an ack_overflow base [] sz crt_seq crt_len t =
     Inr ([], sz, crt_seq, crt_len, t)"
| "ack_loop elapsed an ack_overflow base (n # q) sz crt_seq crt_len t =
     (let s = pkt_seq (node_pkt n); l = payload_size (node_pkt n)
      in if s < an \<or> (ack_overflow \<and> s \<ge> base) then
           if s + l \<le> an \<or> (ack_overflow \<and> s + l > an)
           then ack_loop elapsed an ack_overflow base q (sz - l) s l (Some (elapsed n))
           else Inl (Sanity_check ''ack number overlaped with packet'')
         else Inr (n # q, sz, s, l, t))"

text \<open>
  \<^verbatim>\<open>max_duplicated_acks *= 1.5\<close>: computed in \<^verbatim>\<open>double\<close> (exactly, for 32-bit values) and
  converted back; the conversion is undefined when the value does not fit.
\<close>

definition scale_max_duplicated_acks :: "uint32 \<Rightarrow> uint32 checked" where
  "scale_max_duplicated_acks m =
     (let v = unat m * 3 div 2
      in if v < 4294967296 then Inr (of_nat v)
         else Inl (Undefined_behaviour ''double to uint32 out of range''))"

definition NewAckedPacket ::
  "(SendWindowNode \<Rightarrow> nanoseconds) \<Rightarrow> uint32 \<Rightarrow> SendWindow \<Rightarrow> uint32 \<Rightarrow>
   (AckResult \<times> SendWindow \<times> uint32) checked" where
  "NewAckedPacket elapsed max_duplicated_acks w an =
     (let ack_overflow = (an < send_base w \<and> an \<le> send_base w + capacity w)
      in if send_base w < an \<or> ack_overflow then
           bindR (ack_loop elapsed an ack_overflow (send_base w) (pkts_to_ack w) (sw_size w) 0 0 None)
             (\<lambda>(q, sz, crt_seq, crt_len, t).
               let expected_next_ack = (if q = [] then crt_seq + crt_len else crt_seq)
               in if an \<noteq> expected_next_ack
                  then Inl (Sanity_check ''Ack num mismatch with expected ack'')
                  else Inr (\<lparr>ack_refreshed = True, dup_ack = False, re_transmit = False,
                              rtt = (if \<not> has_retransmitted_pkt w then t else Some 0)\<rparr>,
                            w\<lparr>pkts_to_ack := q, sw_size := sz, send_base := an,
                              last_acked_num := an, duplicated_acks := 0,
                              has_retransmitted_pkt := (if q = [] then False else has_retransmitted_pkt w)\<rparr>,
                            kMaxDuplicatedAcksOrigin))
         else if an = send_base w then
           let d = duplicated_acks w + 1
           in if d \<ge> max_duplicated_acks
              then bindR (scale_max_duplicated_acks max_duplicated_acks) (\<lambda>m.
                     Inr (\<lparr>ack_refreshed = False, dup_ack = True, re_transmit = True, rtt = Some 0\<rparr>,
                          w\<lparr>duplicated_acks := 0\<rparr>, m))
              else Inr (\<lparr>ack_refreshed = False, dup_ack = True, re_transmit = False, rtt = Some 0\<rparr>,
                        w\<lparr>duplicated_acks := d\<rparr>, max_duplicated_acks)
         else Inr (\<lparr>ack_refreshed = False, dup_ack = False, re_transmit = False, rtt = Some 0\<rparr>,
                   w, max_duplicated_acks))"

definition GetBasePakcketToReSend :: "SendWindow \<Rightarrow> (Packet option \<times> SendWindow) checked" where
  "GetBasePakcketToReSend w =
     (case pkts_to_ack w of
        [] \<Rightarrow> Inr (None, w)
      | n # _ \<Rightarrow> bindR (Copy (node_pkt n)) (\<lambda>c.
          Inr (Some c, w\<lparr>has_retransmitted_pkt := True\<rparr>)))"

section \<open>Well-formed windows\<close>

text \<open>
  Packets are contiguous from a base when each starts where the one before ends; their
  span is the number of sequence numbers they take. A window is well formed when its
  packets are contiguous from the send base, none is empty, and the recorded size is
  their span, which fits the sequence space.
\<close>

fun contiguous :: "uint32 \<Rightarrow> Packet list \<Rightarrow> bool" where
  "contiguous b [] = True"
| "contiguous b (p # ps) = (pkt_seq p = b \<and> contiguous (b + payload_size p) ps)"

definition seq_span :: "Packet list \<Rightarrow> nat" where
  "seq_span ps = sum_list (map pkt_len ps)"

abbreviation window_pkts :: "SendWindow \<Rightarrow> Packet list" where
  "window_pkts w \<equiv> map node_pkt (pkts_to_ack w)"

definition sw_wf :: "SendWindow \<Rightarrow> bool" where
  "sw_wf w \<longleftrightarrow> contiguous (send_base w) (window_pkts w) \<and>
     (\<forall>p \<in> set (window_pkts w). 0 < pkt_len p) \<and>
     seq_span (window_pkts w) < 4294967296 \<and> unat (sw_size w) = seq_span (window_pkts w)"

lemma span_simps [simp]:
  "seq_span [] = 0"
  "seq_span (p # ps) = pkt_len p + seq_span ps"
  "seq_span (ps @ qs) = seq_span ps + seq_span qs"
  by (simp_all add: seq_span_def)

lemma span_take_drop: "seq_span (take k ps) + seq_span (drop k ps) = seq_span ps"
  by (metis append_take_drop_id span_simps(3))

lemma span_pos: "ps \<noteq> [] \<Longrightarrow> \<forall>p \<in> set ps. 0 < pkt_len p \<Longrightarrow> 0 < seq_span ps"
  by (cases ps) auto

lemma contiguous_append:
  "contiguous b (ps @ qs) \<longleftrightarrow> contiguous b ps \<and> contiguous (b + of_nat (seq_span ps)) qs"
  by (induction ps arbitrary: b) (auto simp: add.assoc)

lemma contiguous_last:
  assumes "contiguous b ps" "ps \<noteq> []"
  shows "pkt_seq (last ps) + payload_size (last ps) = b + of_nat (seq_span ps)"
  using assms by (induction ps arbitrary: b) (auto simp: add.assoc)

lemma sw_wf_size: "sw_wf w \<Longrightarrow> sw_size w = of_nat (seq_span (window_pkts w))"
  by (simp add: sw_wf_def u32_eq_iff unat_of_nat_u32)

lemma sw_wf_next:
  "sw_wf w \<Longrightarrow> NextSeqNumberToSend w = send_base w + of_nat (seq_span (window_pkts w))"
  by (simp add: NextSeqNumberToSend_def sw_wf_size)

lemma sw_wf_new [simp]: "sw_wf (SendWindow_new b c)"
  by (simp add: sw_wf_def SendWindow_new_def)

lemma sw_wf_set_capacity [simp]: "sw_wf (set_capacity c w) = sw_wf w"
  by (simp add: sw_wf_def set_capacity_def)

lemma set_capacity_simps [simp]:
  "send_base (set_capacity c w) = send_base w"
  "capacity (set_capacity c w) = c"
  "sw_size (set_capacity c w) = sw_size w"
  "pkts_to_ack (set_capacity c w) = pkts_to_ack w"
  "duplicated_acks (set_capacity c w) = duplicated_acks w"
  by (simp_all add: set_capacity_def)

section \<open>Sending\<close>

text \<open>When a packet fits, and the answer of a well-formed window to any packet.\<close>

definition sw_accepts :: "SendWindow \<Rightarrow> Packet \<Rightarrow> bool" where
  "sw_accepts w p \<longleftrightarrow> (capacity w = 0 \<or> payload_size p \<le> free_space w) \<and>
     pkt_seq p = NextSeqNumberToSend w"

lemma sw_wf_last_end:
  assumes "sw_wf w" "pkts_to_ack w \<noteq> []"
  shows "pkt_seq (node_pkt (last (pkts_to_ack w))) + payload_size (node_pkt (last (pkts_to_ack w)))
    = send_base w + sw_size w"
proof -
  have "window_pkts w \<noteq> []" using assms(2) by simp
  with assms(1) have "pkt_seq (last (window_pkts w)) + payload_size (last (window_pkts w))
      = send_base w + of_nat (seq_span (window_pkts w))"
    by (intro contiguous_last) (auto simp: sw_wf_def)
  then show ?thesis
    using assms by (simp add: last_map sw_wf_size)
qed

lemma sw_wf_empty_size: "sw_wf w \<Longrightarrow> pkts_to_ack w = [] \<Longrightarrow> sw_size w = 0"
  by (simp add: sw_wf_def unat_eq_0)

lemma SendPacket_wf:
  assumes "sw_wf w"
  shows "SendPacket w p =
    Inr (if sw_accepts w p then (True, register_pkt w p) else (False, w))"
proof (cases "pkts_to_ack w = []")
  case True
  with assms show ?thesis
    by (auto simp: SendPacket_def sw_accepts_def NextSeqNumberToSend_def sw_wf_empty_size
        word_gt_0 not_le)
next
  case False
  with sw_wf_last_end [OF assms] show ?thesis
    by (auto simp: SendPacket_def sw_accepts_def NextSeqNumberToSend_def Let_def
        word_gt_0 not_le)
qed

lemma sw_wf_register:
  assumes "sw_wf w" "pkt_seq p = NextSeqNumberToSend w" "0 < pkt_len p"
    "seq_span (window_pkts w) + pkt_len p < 4294967296"
  shows "sw_wf (register_pkt w p)"
proof -
  have "pkt_seq p = send_base w + of_nat (seq_span (window_pkts w))"
    using assms(1,2) by (simp add: sw_wf_next)
  with assms(1,3,4) show ?thesis
    by (auto simp: sw_wf_def register_pkt_def SendWindowNode_new_def contiguous_append
        unat_add_u32)
qed

lemma register_pkt_simps [simp]:
  "send_base (register_pkt w p) = send_base w"
  "capacity (register_pkt w p) = capacity w"
  "window_pkts (register_pkt w p) = window_pkts w @ [p]"
  "sw_size (register_pkt w p) = sw_size w + payload_size p"
  "duplicated_acks (register_pkt w p) = duplicated_acks w"
  by (simp_all add: register_pkt_def SendWindowNode_new_def)

section \<open>Cumulative acknowledgement\<close>

text \<open>
  The loop pops exactly the packets it takes for acknowledged. \<open>pops\<close> is its test; a
  prefix that passes the test and the sanity check, followed by a packet that fails the
  test, is what one call removes.
\<close>

definition pops :: "uint32 \<Rightarrow> bool \<Rightarrow> uint32 \<Rightarrow> Packet \<Rightarrow> bool" where
  "pops an ov base p \<longleftrightarrow> pkt_seq p < an \<or> (ov \<and> base \<le> pkt_seq p)"

definition pops_cleanly :: "uint32 \<Rightarrow> bool \<Rightarrow> uint32 \<Rightarrow> Packet \<Rightarrow> bool" where
  "pops_cleanly an ov base p \<longleftrightarrow> pops an ov base p \<and>
     (pkt_seq p + payload_size p \<le> an \<or> ov)"

definition looked_at :: "SendWindowNode list \<Rightarrow> SendWindowNode list \<Rightarrow> uint32 \<Rightarrow> uint32 \<Rightarrow> uint32 \<times> uint32" where
  "looked_at popped rest s l =
     (if rest \<noteq> [] then (pkt_seq (node_pkt (hd rest)), payload_size (node_pkt (hd rest)))
      else if popped \<noteq> [] then (pkt_seq (node_pkt (last popped)), payload_size (node_pkt (last popped)))
      else (s, l))"

lemma ack_loop_pops:
  assumes "\<forall>n \<in> set xs. pops_cleanly an ov base (node_pkt n)"
    and "ys = [] \<or> \<not> pops an ov base (node_pkt (hd ys))"
  shows "\<exists>t'. ack_loop el an ov base (xs @ ys) sz s l t =
    Inr (ys, sz - of_nat (seq_span (map node_pkt xs)),
         fst (looked_at xs ys s l), snd (looked_at xs ys s l), t')"
  using assms
proof (induction xs arbitrary: sz s l t)
  case Nil
  then show ?case
    by (cases ys) (auto simp: looked_at_def pops_def Let_def)
next
  case (Cons n xs)
  let ?s = "pkt_seq (node_pkt n)" and ?l = "payload_size (node_pkt n)"
  obtain t' where IH: "ack_loop el an ov base (xs @ ys) (sz - ?l) ?s ?l (Some (el n)) =
      Inr (ys, sz - ?l - of_nat (seq_span (map node_pkt xs)),
        fst (looked_at xs ys ?s ?l), snd (looked_at xs ys ?s ?l), t')"
    using Cons.IH [of "sz - ?l" ?s ?l "Some (el n)"] Cons.prems by auto
  have "looked_at xs ys ?s ?l = looked_at (n # xs) ys s l"
    by (simp add: looked_at_def)
  moreover have "pops an ov base (node_pkt n)" "?s + ?l \<le> an \<or> ov"
    using Cons.prems(1) by (auto simp: pops_cleanly_def)
  ultimately show ?case
    using IH by (auto simp: pops_def Let_def diff_diff_eq not_le)
qed

text \<open>
  The arithmetic behind the test. An acknowledgement that ends after a span \<open>k\<close> of the
  window, whether or not the sequence numbers wrap in between, passes the packets that
  start before it and stops at the one that starts at it.
\<close>

lemma unat_offset:
  assumes "d < 4294967296"
  shows "unat (b + of_nat d :: uint32) =
    (if unat b + d < 4294967296 then unat b + d else unat b + d - 4294967296)"
  using assms by (simp add: unat_plus_if' unat_of_nat_u32)

lemma pops_before:
  assumes "d + len \<le> k" "k < 4294967296" "0 < len"
    and seq: "pkt_seq p = b + of_nat d" and plen: "pkt_len p = len"
    and an: "an = b + of_nat k" and ov: "ov \<longleftrightarrow> an < b"
  shows "pops_cleanly an ov b p"
proof -
  have "payload_size p = of_nat len"
    using plen by (metis of_nat_unat_u32)
  then have e: "pkt_seq p + payload_size p = b + of_nat (d + len)"
    by (simp add: seq add.assoc)
  have "d < 4294967296" "d + len < 4294967296"
    using assms(1-3) by auto
  note off = unat_offset [OF this(1), of b] unat_offset [OF this(2), of b]
    unat_offset [OF assms(2), of b]
  have "unat b < 4294967296" by (rule uint32_less)
  with off assms(1-3) show ?thesis
    unfolding pops_cleanly_def pops_def ov word_less_nat_alt word_le_nat_alt e
    unfolding seq an
    by (auto split: if_splits)
qed

lemma stops_at:
  assumes "pkt_seq p = an" "ov \<longleftrightarrow> an < b"
  shows "\<not> pops an ov b p"
  using assms by (auto simp: pops_def)

lemma overflow_detected:
  assumes "an = b + of_nat k" "k \<le> unat cap" "(an :: uint32) < b"
  shows "an \<le> b + cap"
proof -
  have "unat an = (if unat b + k < 4294967296 then unat b + k else unat b + k - 4294967296)"
    using assms(1,2) unat_offset [of k b] uint32_less [of cap] by simp
  moreover have "unat (b + cap) = (if unat b + unat cap < 4294967296 then unat b + unat cap
      else unat b + unat cap - 4294967296)"
    by (simp add: unat_plus_if')
  moreover have "unat b < 4294967296" "unat cap < 4294967296" by (rule uint32_less)+
  ultimately show ?thesis
    using assms(2,3) unfolding word_le_nat_alt word_less_nat_alt
    by (auto split: if_splits)
qed

lemma prefix_pops:
  assumes "contiguous (b + of_nat d) ps" "\<forall>p \<in> set ps. 0 < pkt_len p"
    and "d + seq_span ps \<le> k" "k < 4294967296" "an = b + of_nat k" "ov \<longleftrightarrow> an < b"
  shows "\<forall>p \<in> set ps. pops_cleanly an ov b p"
  using assms
proof (induction ps arbitrary: d)
  case Nil
  then show ?case by simp
next
  case (Cons p ps)
  have "contiguous (b + of_nat (d + pkt_len p)) ps"
    using Cons.prems(1) by (simp add: add.assoc)
  then have "\<forall>q \<in> set ps. pops_cleanly an ov b q"
    using Cons.IH [of "d + pkt_len p"] Cons.prems by auto
  moreover have "pops_cleanly an ov b p"
    using Cons.prems by (intro pops_before [where d = d and k = k and len = "pkt_len p"]) auto
  ultimately show ?case by simp
qed

lemma offset_neq:
  assumes "0 < k" "k < 4294967296"
  shows "(b :: uint32) + of_nat k \<noteq> b"
proof
  assume "b + of_nat k = b"
  then have "unat (of_nat k :: uint32) = 0" by simp
  with assms show False by (simp add: unat_of_nat_u32)
qed

text \<open>What a clean acknowledgement of the first \<open>k\<close> packets leaves behind.\<close>

definition acked_window :: "nat \<Rightarrow> uint32 \<Rightarrow> SendWindow \<Rightarrow> SendWindow" where
  "acked_window k an w = w\<lparr>pkts_to_ack := drop k (pkts_to_ack w),
     sw_size := of_nat (seq_span (drop k (window_pkts w))), send_base := an,
     last_acked_num := an, duplicated_acks := 0,
     has_retransmitted_pkt := (if drop k (pkts_to_ack w) = [] then False else has_retransmitted_pkt w)\<rparr>"

lemma looked_at_end:
  assumes "contiguous b (map node_pkt (xs @ ys))" "xs \<noteq> []"
  shows "(if ys = [] then fst (looked_at xs ys s l) + snd (looked_at xs ys s l)
          else fst (looked_at xs ys s l)) = b + of_nat (seq_span (map node_pkt xs))"
proof (cases ys)
  case Nil
  with assms contiguous_last [of b "map node_pkt xs"] show ?thesis
    by (simp add: looked_at_def last_map)
next
  case (Cons y ys')
  with assms show ?thesis
    by (simp add: looked_at_def contiguous_append)
qed

lemma NewAckedPacket_prefix:
  assumes wf: "sw_wf w" and k: "0 < k" "k \<le> length (pkts_to_ack w)"
    and an: "an = send_base w + of_nat (seq_span (take k (window_pkts w)))"
    and cap: "send_base w < an \<or> seq_span (take k (window_pkts w)) \<le> unat (capacity w)"
  shows "\<exists>t. NewAckedPacket el m w an =
    Inr (\<lparr>ack_refreshed = True, dup_ack = False, re_transmit = False, rtt = t\<rparr>,
         acked_window k an w, kMaxDuplicatedAcksOrigin)"
proof -
  let ?xs = "take k (pkts_to_ack w)" and ?ys = "drop k (pkts_to_ack w)"
  let ?K = "seq_span (take k (window_pkts w))" and ?b = "send_base w"
  have split: "?xs @ ?ys = pkts_to_ack w" by simp
  have mx: "map node_pkt ?xs = take k (window_pkts w)" and my: "map node_pkt ?ys = drop k (window_pkts w)"
    by (simp_all add: take_map drop_map)
  have con: "contiguous ?b (map node_pkt (?xs @ ?ys))"
    and pos: "\<forall>p \<in> set (window_pkts w). 0 < pkt_len p"
    and K: "?K < 4294967296"
    using wf span_take_drop [of k "window_pkts w"] by (auto simp: sw_wf_def)
  have "take k (window_pkts w) \<noteq> []" using k by auto
  moreover have post: "\<forall>p \<in> set (take k (window_pkts w)). 0 < pkt_len p"
    using pos by (meson in_set_takeD)
  ultimately have K0: "0 < ?K" by (rule span_pos)
  have neq: "an \<noteq> ?b" using offset_neq [OF K0 K] an by simp
  define ov where "ov = (an < ?b \<and> an \<le> ?b + capacity w)"
  have ov: "ov \<longleftrightarrow> an < ?b"
    using cap overflow_detected [OF an] unfolding ov_def by fastforce
  have guard: "?b < an \<or> ov" using neq ov by auto
  have c1: "contiguous (?b + of_nat 0) (take k (window_pkts w))"
    and c2: "contiguous an (map node_pkt ?ys)"
    using con unfolding map_append contiguous_append mx an by simp_all
  have "\<forall>p \<in> set (take k (window_pkts w)). pops_cleanly an ov ?b p"
    using prefix_pops [OF c1 post _ K an ov] by simp
  then have "\<forall>n \<in> set ?xs. pops_cleanly an ov ?b (node_pkt n)"
    by (simp add: take_map)
  moreover have "?ys = [] \<or> \<not> pops an ov ?b (node_pkt (hd ?ys))"
    using c2 stops_at [OF _ ov] by (cases ?ys) auto
  ultimately obtain t where loop:
    "ack_loop el an ov ?b (pkts_to_ack w) (sw_size w) 0 0 None =
      Inr (?ys, sw_size w - of_nat ?K, fst (looked_at ?xs ?ys 0 0), snd (looked_at ?xs ?ys 0 0), t)"
    using ack_loop_pops [of ?xs an ov ?b ?ys el "sw_size w" 0 0 None] unfolding split mx by blast
  have expected: "an = (if ?ys = [] then fst (looked_at ?xs ?ys 0 0) + snd (looked_at ?xs ?ys 0 0)
      else fst (looked_at ?xs ?ys 0 0))"
  proof -
    have "?xs \<noteq> []" using k by auto
    from looked_at_end [OF con this, of 0 0] show ?thesis by (simp only: mx an)
  qed
  have size: "sw_size w - of_nat ?K = of_nat (seq_span (drop k (window_pkts w)))"
    using sw_wf_size [OF wf] span_take_drop [of k "window_pkts w"]
    by (metis add_diff_cancel_left' of_nat_add)
  show ?thesis
    unfolding NewAckedPacket_def Let_def ov_def [symmetric] loop
    using guard expected by (simp add: acked_window_def size)
qed

lemma sw_wf_acked:
  assumes "sw_wf w" "an = send_base w + of_nat (seq_span (take k (window_pkts w)))"
  shows "sw_wf (acked_window k an w)"
proof -
  have "contiguous (send_base w) (take k (window_pkts w) @ drop k (window_pkts w))"
    using assms(1) by (simp add: sw_wf_def)
  then have "contiguous an (drop k (window_pkts w))"
    using assms(2) by (simp only: contiguous_append)
  moreover have "seq_span (drop k (window_pkts w)) < 4294967296"
    using assms(1) span_take_drop [of k "window_pkts w"] by (simp add: sw_wf_def)
  ultimately show ?thesis
    using assms(1)
    by (auto simp: sw_wf_def acked_window_def drop_map unat_of_nat_u32 dest: in_set_dropD)
qed

lemma acked_window_simps [simp]:
  "send_base (acked_window k an w) = an"
  "capacity (acked_window k an w) = capacity w"
  "window_pkts (acked_window k an w) = drop k (window_pkts w)"
  "pkts_to_ack (acked_window k an w) = drop k (pkts_to_ack w)"
  "duplicated_acks (acked_window k an w) = 0"
  by (simp_all add: acked_window_def drop_map)

section \<open>Duplicated and stale acknowledgements\<close>

lemma NewAckedPacket_dup:
  "NewAckedPacket el m w (send_base w) =
    (if duplicated_acks w + 1 \<ge> m
     then bindR (scale_max_duplicated_acks m) (\<lambda>m'.
       Inr (\<lparr>ack_refreshed = False, dup_ack = True, re_transmit = True, rtt = Some 0\<rparr>,
            w\<lparr>duplicated_acks := 0\<rparr>, m'))
     else Inr (\<lparr>ack_refreshed = False, dup_ack = True, re_transmit = False, rtt = Some 0\<rparr>,
               w\<lparr>duplicated_acks := duplicated_acks w + 1\<rparr>, m))"
  by (simp add: NewAckedPacket_def Let_def)

lemma scale_max_ok:
  "unat m * 3 div 2 < 4294967296 \<Longrightarrow> scale_max_duplicated_acks m = Inr (of_nat (unat m * 3 div 2))"
  by (simp add: scale_max_duplicated_acks_def Let_def)

text \<open>A sequence of acknowledgements, one call after the other.\<close>

fun NewAckedPackets ::
  "(SendWindowNode \<Rightarrow> nanoseconds) \<Rightarrow> uint32 \<Rightarrow> SendWindow \<Rightarrow> uint32 list \<Rightarrow>
   (AckResult list \<times> SendWindow \<times> uint32) checked" where
  "NewAckedPackets el m w [] = Inr ([], w, m)"
| "NewAckedPackets el m w (a # as) =
     bindR (NewAckedPacket el m w a) (\<lambda>(r, w', m').
       bindR (NewAckedPackets el m' w' as) (\<lambda>(rs, w'', m''). Inr (r # rs, w'', m'')))"

lemma NewAckedPackets_append:
  "NewAckedPackets el m w (as @ bs) =
    bindR (NewAckedPackets el m w as) (\<lambda>(rs, w', m').
      bindR (NewAckedPackets el m' w' bs) (\<lambda>(rs', w'', m''). Inr (rs @ rs', w'', m'')))"
  by (induction as arbitrary: w m) (auto simp: bindR_def split: sum.splits)

definition dup_result :: "bool \<Rightarrow> AckResult" where
  "dup_result again = \<lparr>ack_refreshed = False, dup_ack = True, re_transmit = again, rtt = Some 0\<rparr>"

lemma dup_acks_below_threshold:
  assumes "unat (duplicated_acks w) + n < unat m"
  shows "NewAckedPackets el m w (replicate n (send_base w)) =
    Inr (replicate n (dup_result False), w\<lparr>duplicated_acks := duplicated_acks w + of_nat n\<rparr>, m)"
  using assms
proof (induction n arbitrary: w)
  case 0
  then show ?case by simp
next
  case (Suc n)
  let ?w = "w\<lparr>duplicated_acks := duplicated_acks w + 1\<rparr>"
  have less: "unat (duplicated_acks w) + 1 < unat m"
    using Suc.prems by simp
  moreover have "unat m < 4294967296" by (rule uint32_less)
  ultimately have u: "unat (duplicated_acks w + 1) = unat (duplicated_acks w) + 1"
    using unat_add_u32 [of "duplicated_acks w" 1] by simp
  then have "\<not> m \<le> duplicated_acks w + 1"
    using less by (simp add: word_le_nat_alt)
  moreover have "NewAckedPackets el m ?w (replicate n (send_base ?w)) =
      Inr (replicate n (dup_result False), ?w\<lparr>duplicated_acks := duplicated_acks ?w + of_nat n\<rparr>, m)"
    using Suc.prems u by (intro Suc.IH) simp
  ultimately show ?case
    by (simp add: NewAckedPacket_dup dup_result_def algebra_simps)
qed

lemma ack_loop_all:
  assumes "\<forall>n \<in> set q. base \<le> pkt_seq (node_pkt n)"
  shows "\<exists>sz' t'. ack_loop el an True base q sz s l t =
    Inr ([], sz', fst (looked_at q [] s l), snd (looked_at q [] s l), t')"
proof -
  have "\<forall>n \<in> set q. pops_cleanly an True base (node_pkt n)"
    using assms by (simp add: pops_cleanly_def pops_def)
  from ack_loop_pops [OF this, of "[]" el sz s l t] show ?thesis by auto
qed

lemma contiguous_ge_base:
  assumes "contiguous b ps" "unat b + seq_span ps < 4294967296"
  shows "\<forall>p \<in> set ps. b \<le> pkt_seq p"
  using assms
proof (induction ps arbitrary: b)
  case Nil
  then show ?case by simp
next
  case (Cons p ps)
  have "unat (b + payload_size p) = unat b + pkt_len p"
    using Cons.prems(2) by (simp add: unat_add_u32)
  moreover from this have "\<forall>q \<in> set ps. b + payload_size p \<le> pkt_seq q"
    using Cons by auto
  ultimately show ?case
    using Cons.prems(1) by (fastforce simp: word_le_nat_alt)
qed

section \<open>Properties\<close>

text \<open>
  C7. Cumulative acknowledgement. In a well-formed window, an acknowledgement number that
  is the end of the first \<open>k\<close> unacknowledged packets (also when the sequence numbers wrap
  around in between, as long as the acknowledged span is within the window's capacity)
  passes all sanity checks: \<^verbatim>\<open>NewAckedPacket\<close> reports a refreshed acknowledgement, removes
  exactly these \<open>k\<close> packets, moves the send base to the acknowledgement number, keeps the
  window well formed and resets both the duplicate counter and its threshold.
\<close>

theorem cumulative_ack_removes_prefix:
  assumes "sw_wf w" "0 < k" "k \<le> length (pkts_to_ack w)"
    and "an = send_base w + of_nat (seq_span (take k (window_pkts w)))"
    and "send_base w < an \<or> seq_span (take k (window_pkts w)) \<le> unat (capacity w)"
  shows "\<exists>t w'. NewAckedPacket elapsed m w an =
      Inr (\<lparr>ack_refreshed = True, dup_ack = False, re_transmit = False, rtt = t\<rparr>, w', 3) \<and>
    sw_wf w' \<and> send_base w' = an \<and> window_pkts w' = drop k (window_pkts w) \<and>
    unat (sw_size w') = seq_span (drop k (window_pkts w)) \<and> duplicated_acks w' = 0 \<and>
    capacity w' = capacity w"
proof -
  have wf: "sw_wf (acked_window k an w)"
    using assms by (intro sw_wf_acked)
  then have "unat (sw_size (acked_window k an w)) = seq_span (drop k (window_pkts w))"
    by (simp add: sw_wf_def drop_map)
  with wf NewAckedPacket_prefix [OF assms, of elapsed m] show ?thesis
    unfolding kMaxDuplicatedAcksOrigin_def by (metis acked_window_simps(1-3,5))
qed

text \<open>The window of \<^verbatim>\<open>SendWindow_test.cc\<close>, \<^verbatim>\<open>TestAckOverFlow\<close>: the numbers wrap.\<close>

definition test_pkt :: "uint32 \<Rightarrow> byte list \<Rightarrow> Packet" where
  "test_pkt s data = Packet_string IPHeader_default (TcpHeader_default\<lparr>seq_num := s\<rparr>) data"

definition test_overflow_window :: SendWindow where
  "test_overflow_window =
     fold (\<lambda>s w. register_pkt w (test_pkt s [104, 101, 108, 108, 111]))
       [4294967289, 4294967294, 3, 8, 13] (SendWindow_new 4294967289 25)"

lemmas window_eval = test_overflow_window_def register_pkt_def SendWindowNode_new_def
  test_pkt_def Packet_string_def Packet_headers_def SendWindow_new_def
  IPHeader_default_def TcpHeader_default_def sw_wf_def

theorem cumulative_ack_removes_prefix_witness:
  "\<exists>t w'. NewAckedPacket (\<lambda>_. 7) 3 test_overflow_window 13 =
      Inr (\<lparr>ack_refreshed = True, dup_ack = False, re_transmit = False, rtt = t\<rparr>, w', 3) \<and>
    sw_wf w' \<and> send_base w' = 13 \<and> window_pkts w' = drop 4 (window_pkts test_overflow_window) \<and>
    unat (sw_size w') = seq_span (drop 4 (window_pkts test_overflow_window)) \<and>
    duplicated_acks w' = 0 \<and> capacity w' = capacity test_overflow_window"
  by (rule cumulative_ack_removes_prefix) (simp_all add: window_eval)

text \<open>
  C8. Sending. A well-formed window never fails its sanity check in \<^verbatim>\<open>SendPacket\<close>: it
  accepts a packet exactly when the packet starts at the next sequence number and fits the
  free space (or the capacity is zero), appends it, stays well formed, and with a non-zero
  capacity the bytes in flight stay within the capacity; a refused packet changes nothing.
\<close>

theorem send_packet_accepts_iff_fits:
  assumes "sw_wf w" "0 < pkt_len p" "seq_span (window_pkts w) + pkt_len p < 4294967296"
  shows "SendPacket w p =
      Inr (if (capacity w = 0 \<or> payload_size p \<le> free_space w) \<and> pkt_seq p = NextSeqNumberToSend w
           then (True, register_pkt w p) else (False, w))
    \<and> (\<forall>w'. SendPacket w p = Inr (True, w') \<longrightarrow>
         sw_wf w' \<and> window_pkts w' = window_pkts w @ [p] \<and> send_base w' = send_base w \<and>
         (capacity w \<noteq> 0 \<longrightarrow> seq_span (window_pkts w') \<le> unat (capacity w')))"
proof (intro conjI allI impI)
  show "SendPacket w p =
      Inr (if (capacity w = 0 \<or> payload_size p \<le> free_space w) \<and> pkt_seq p = NextSeqNumberToSend w
           then (True, register_pkt w p) else (False, w))"
    using SendPacket_wf [OF assms(1), of p] by (simp add: sw_accepts_def)
  fix w' assume "SendPacket w p = Inr (True, w')"
  then have acc: "sw_accepts w p" and w': "w' = register_pkt w p"
    using SendPacket_wf [OF assms(1), of p] by (auto split: if_splits)
  show "sw_wf w'" "window_pkts w' = window_pkts w @ [p]" "send_base w' = send_base w"
    using acc assms by (simp_all add: w' sw_accepts_def sw_wf_register)
  assume "capacity w \<noteq> 0"
  then have "payload_size p \<le> free_space w" using acc by (simp add: sw_accepts_def)
  then have "pkt_len p \<le> unat (capacity w) - unat (sw_size w)"
    using assms(2) by (auto simp: free_space_def word_le_nat_alt word_less_nat_alt unat_sub_u32 split: if_splits)
  then show "seq_span (window_pkts w') \<le> unat (capacity w')"
    using assms(1,2) by (simp add: w' sw_wf_def)
qed

theorem send_packet_accepts_iff_fits_witness:
  "SendPacket (SendWindow_new 0 16) (test_pkt 0 [1, 2, 3, 4, 5]) =
     Inr (True, register_pkt (SendWindow_new 0 16) (test_pkt 0 [1, 2, 3, 4, 5]))"
  using send_packet_accepts_iff_fits [of "SendWindow_new 0 16" "test_pkt 0 [1, 2, 3, 4, 5]"]
  by (simp add: window_eval free_space_def NextSeqNumberToSend_def)





end
