(* ===== verification/Recv_Window.thy ===== *)
theory Recv_Window
  imports Send_Window "HOL-Library.Multiset"
begin

text \<open>
  \<^verbatim>\<open>RecvWindow.h\<close>/\<^verbatim>\<open>RecvWindow.cc\<close>: the receiver's half of the sliding window. The doubly
  linked list behind the dummy head is the list \<open>rw_nodes\<close> of its packets, first node
  first; the list of nodes returned for delivery is a list of packets, empty for
  \<^verbatim>\<open>nullptr\<close>. Comparisons are on the 32-bit words, as in the code.
\<close>

section \<open>State and operations\<close>

record RecvWindow =
  recv_base :: uint32
  rw_capacity :: uint32
  rw_nodes :: "Packet list"

definition RecvWindow_new :: "uint32 \<Rightarrow> uint32 \<Rightarrow> RecvWindow" where
  "RecvWindow_new base cap = \<lparr>recv_base = base, rw_capacity = cap, rw_nodes = []\<rparr>"

definition RecvWindow_new_default :: "uint32 \<Rightarrow> RecvWindow" where
  "RecvWindow_new_default base = RecvWindow_new base TcpWindow_kDefaultWindowSize"

definition set_recv_base :: "uint32 \<Rightarrow> RecvWindow \<Rightarrow> RecvWindow" where
  "set_recv_base b w = w\<lparr>recv_base := b\<rparr>"

definition rw_empty :: "RecvWindow \<Rightarrow> bool" where
  "rw_empty w \<longleftrightarrow> rw_nodes w = []"

text \<open>
  The first loop: walk past the nodes that start before the new packet. It splits the
  list at the place of insertion.
\<close>

fun insert_scan :: "uint32 \<Rightarrow> Packet list \<Rightarrow> (Packet list \<times> Packet list) checked" where
  "insert_scan s [] = Inr ([], [])"
| "insert_scan s (n # ns) =
     (if s > pkt_seq n then
        if s \<ge> pkt_seq n + payload_size n
        then bindR (insert_scan s ns) (\<lambda>(before, after). Inr (n # before, after))
        else Inl (Sanity_check ''Packet size ranges overlap'')
      else Inr ([], n # ns))"

text \<open>
  The second loop: from the new node on, follow the nodes that each start where the one
  before ends. It splits the list behind the last of them.
\<close>

fun in_order_run :: "Packet \<Rightarrow> Packet list \<Rightarrow> Packet list \<times> Packet list" where
  "in_order_run n [] = ([n], [])"
| "in_order_run n (m # ms) =
     (if pkt_seq n + payload_size n = pkt_seq m
      then let (run, rest) = in_order_run m ms in (n # run, rest)
      else ([n], m # ms))"

definition ReceivePacket ::
  "RecvWindow \<Rightarrow> Packet \<Rightarrow> (uint32 \<times> Packet list \<times> RecvWindow) checked" where
  "ReceivePacket w p =
     (if pkt_seq p < recv_base w then Inr (recv_base w, [], w)
      else
        bindR (insert_scan (pkt_seq p) (rw_nodes w)) (\<lambda>(before, after).
        bindR (guardR (after = [] \<or> pkt_seq p + payload_size p \<le> pkt_seq (hd after))
                 (Sanity_check ''Packet size ranges overlap'')) (\<lambda>_.
          if pkt_seq p = recv_base w then
            bindR (guardR (before = [])
                     (Sanity_check ''new node is in-order, must have been inserted to queue head''))
              (\<lambda>_. let (run, rest) = in_order_run p after;
                       base = pkt_seq (last run) + payload_size (last run)
                   in Inr (base, run, w\<lparr>rw_nodes := rest, recv_base := base\<rparr>))
          else Inr (recv_base w, [], w\<lparr>rw_nodes := before @ p # after\<rparr>))))"

section \<open>Well-formed windows\<close>

text \<open>
  A packet lies in the sequence space when its end does not wrap. The stored packets are
  non-empty, ordered, do not overlap, and start strictly after the receive base.
\<close>

definition pkt_end :: "Packet \<Rightarrow> nat" where
  "pkt_end p = unat (pkt_seq p) + pkt_len p"

definition in_space :: "Packet \<Rightarrow> bool" where
  "in_space p \<longleftrightarrow> 0 < pkt_len p \<and> pkt_end p < 4294967296"

fun ordered_from :: "nat \<Rightarrow> Packet list \<Rightarrow> bool" where
  "ordered_from b [] = True"
| "ordered_from b (p # ps) =
     (b \<le> unat (pkt_seq p) \<and> in_space p \<and> ordered_from (pkt_end p) ps)"

definition rw_wf :: "RecvWindow \<Rightarrow> bool" where
  "rw_wf w \<longleftrightarrow> ordered_from (Suc (unat (recv_base w))) (rw_nodes w)"

definition disjoint_pkts :: "Packet \<Rightarrow> Packet \<Rightarrow> bool" where
  "disjoint_pkts p q \<longleftrightarrow> pkt_end p \<le> unat (pkt_seq q) \<or> pkt_end q \<le> unat (pkt_seq p)"

lemma unat_pkt_end:
  "in_space p \<Longrightarrow> unat (pkt_seq p + payload_size p) = pkt_end p"
  by (simp add: in_space_def pkt_end_def unat_add_u32)

lemma pkt_end_of_seq: "in_space p \<Longrightarrow> unat (pkt_seq p) < pkt_end p"
  by (simp add: in_space_def pkt_end_def)

lemma ordered_from_mono: "ordered_from b ps \<Longrightarrow> a \<le> b \<Longrightarrow> ordered_from a ps"
  by (cases ps) auto

lemma ordered_from_mem:
  "ordered_from b ps \<Longrightarrow> p \<in> set ps \<Longrightarrow> b \<le> unat (pkt_seq p) \<and> in_space p"
proof (induction ps arbitrary: b)
  case (Cons q ps)
  then show ?case
    using pkt_end_of_seq [of q] by fastforce
qed simp

lemma ordered_from_append:
  "ordered_from b (ps @ q # qs) \<longleftrightarrow>
    ordered_from b ps \<and> b \<le> unat (pkt_seq q) \<and> (\<forall>p \<in> set ps. pkt_end p \<le> unat (pkt_seq q)) \<and>
    in_space q \<and> ordered_from (pkt_end q) qs"
proof (induction ps arbitrary: b)
  case (Cons p ps)
  then show ?case
    using pkt_end_of_seq [of p] by fastforce
qed simp

lemma ordered_from_appendD:
  "ordered_from b (ps @ qs) \<Longrightarrow> ordered_from b ps \<and> ordered_from b qs"
proof (induction ps arbitrary: b)
  case (Cons p ps)
  then show ?case
    using pkt_end_of_seq [of p] by (auto intro: ordered_from_mono [of "pkt_end p"])
qed simp

section \<open>The two loops\<close>

lemma insert_scan_ok:
  assumes "ordered_from b ns" "in_space p" "\<forall>q \<in> set ns. disjoint_pkts p q"
  shows "\<exists>before after. insert_scan (pkt_seq p) ns = Inr (before, after) \<and> ns = before @ after \<and>
    (\<forall>q \<in> set before. pkt_end q \<le> unat (pkt_seq p)) \<and> ordered_from (pkt_end p) after"
  using assms
proof (induction ns arbitrary: b)
  case Nil
  then show ?case by simp
next
  case (Cons n ns)
  have n: "in_space n" and ns: "ordered_from (pkt_end n) ns" and disj: "disjoint_pkts p n"
    using Cons.prems by auto
  show ?case
  proof (cases "pkt_seq n < pkt_seq p")
    case True
    then have "pkt_end n \<le> unat (pkt_seq p)"
      using disj pkt_end_of_seq [OF Cons.prems(2)]
      by (auto simp: disjoint_pkts_def word_less_nat_alt)
    moreover from this have "pkt_seq n + payload_size n \<le> pkt_seq p"
      using unat_pkt_end [OF n] by (simp add: word_le_nat_alt)
    ultimately show ?thesis
      using Cons.IH [OF ns] Cons.prems True by fastforce
  next
    case False
    then have "pkt_end p \<le> unat (pkt_seq n)"
      using disj pkt_end_of_seq [OF n] by (auto simp: disjoint_pkts_def word_less_nat_alt)
    then have "ordered_from (pkt_end p) (n # ns)" using n ns by simp
    with False show ?thesis by simp
  qed
qed

lemma in_order_run_split:
  "in_order_run p ms = (run, rest) \<Longrightarrow> run @ rest = p # ms \<and> run \<noteq> [] \<and> hd run = p"
  by (induction p ms arbitrary: run rest rule: in_order_run.induct)
     (auto split: if_splits prod.splits)

lemma in_order_run_contiguous:
  "in_order_run p ms = (run, rest) \<Longrightarrow> contiguous (pkt_seq p) run"
  by (induction p ms arbitrary: run rest rule: in_order_run.induct)
     (auto split: if_splits prod.splits)

lemma in_order_run_maximal:
  "in_order_run p ms = (run, rest) \<Longrightarrow>
    rest = [] \<or> pkt_seq (last run) + payload_size (last run) \<noteq> pkt_seq (hd rest)"
proof (induction p ms arbitrary: run rest rule: in_order_run.induct)
  case (2 n m ms)
  show ?case
  proof (cases "pkt_seq n + payload_size n = pkt_seq m")
    case True
    with "2.prems" obtain r where r: "in_order_run m ms = (r, rest)" "run = n # r"
      by (auto split: prod.splits)
    moreover have "r \<noteq> []" using in_order_run_split [OF r(1)] by simp
    ultimately show ?thesis using "2.IH" [OF True] by simp
  next
    case False
    with "2.prems" show ?thesis by auto
  qed
qed simp

section \<open>Receiving a packet\<close>

lemma run_end:
  assumes "in_order_run p ms = (run, rest)"
  shows "pkt_seq (last run) + payload_size (last run) = pkt_seq p + of_nat (seq_span run)"
  using contiguous_last [OF in_order_run_contiguous [OF assms]] in_order_run_split [OF assms] by simp

lemma rw_wf_after_run:
  assumes ord: "ordered_from b (p # ms)" and run: "in_order_run p ms = (run, rest)"
  shows "ordered_from (Suc (unat (pkt_seq (last run) + payload_size (last run)))) rest"
proof (cases rest)
  case (Cons r rest')
  obtain run' where run': "run = run' @ [last run]"
    using in_order_run_split [OF run] by (metis append_butlast_last_id)
  have "ordered_from b (run @ rest)"
    using ord in_order_run_split [OF run] by simp
  then have "ordered_from b (run' @ last run # r # rest')"
    using Cons run' by (metis append.assoc append_Cons append_Nil)
  then have l: "in_space (last run)" "ordered_from (pkt_end (last run)) (r # rest')"
    by (simp_all only: ordered_from_append)
  have "pkt_seq (last run) + payload_size (last run) \<noteq> pkt_seq r"
    using in_order_run_maximal [OF run] Cons by simp
  then have "pkt_end (last run) \<noteq> unat (pkt_seq r)"
    using unat_pkt_end [OF l(1)] by (metis u32_eq_iff)
  with l show ?thesis
    using Cons unat_pkt_end [OF l(1)] by simp
qed simp

lemma ReceivePacket_old:
  "pkt_seq p < recv_base w \<Longrightarrow> ReceivePacket w p = Inr (recv_base w, [], w)"
  by (simp add: ReceivePacket_def)

lemma ReceivePacket_new:
  assumes "rw_wf w" "in_space p" "\<forall>q \<in> set (rw_nodes w). disjoint_pkts p q"
    and "recv_base w < pkt_seq p"
  shows "\<exists>before after. rw_nodes w = before @ after \<and>
    ReceivePacket w p = Inr (recv_base w, [], w\<lparr>rw_nodes := before @ p # after\<rparr>) \<and>
    rw_wf (w\<lparr>rw_nodes := before @ p # after\<rparr>)"
proof -
  let ?b = "Suc (unat (recv_base w))"
  have ord: "ordered_from ?b (rw_nodes w)" using assms(1) by (simp add: rw_wf_def)
  from insert_scan_ok [OF ord assms(2,3)] obtain before after where
    sc: "insert_scan (pkt_seq p) (rw_nodes w) = Inr (before, after)"
    and eq: "rw_nodes w = before @ after"
    and bef: "\<forall>q \<in> set before. pkt_end q \<le> unat (pkt_seq p)"
    and aft: "ordered_from (pkt_end p) after" by blast
  have "after = [] \<or> pkt_seq p + payload_size p \<le> pkt_seq (hd after)"
    using aft unat_pkt_end [OF assms(2)] by (cases after) (auto simp: word_le_nat_alt)
  moreover have "ordered_from ?b (before @ p # after)"
    using ord eq bef aft assms(2,4)
    by (auto simp: ordered_from_append word_less_nat_alt dest: ordered_from_appendD)
  ultimately show ?thesis
    using assms(4) sc eq by (auto simp: ReceivePacket_def rw_wf_def)
qed

lemma ReceivePacket_expected:
  assumes "rw_wf w" "in_space p" "\<forall>q \<in> set (rw_nodes w). disjoint_pkts p q"
    and "pkt_seq p = recv_base w" and run: "in_order_run p (rw_nodes w) = (run, rest)"
  defines "base \<equiv> pkt_seq (last run) + payload_size (last run)"
  shows "ReceivePacket w p = Inr (base, run, w\<lparr>rw_nodes := rest, recv_base := base\<rparr>) \<and>
    rw_wf (w\<lparr>rw_nodes := rest, recv_base := base\<rparr>)"
proof -
  have ord: "ordered_from (Suc (unat (recv_base w))) (rw_nodes w)"
    using assms(1) by (simp add: rw_wf_def)
  from insert_scan_ok [OF ord assms(2,3)] obtain before after where
    sc: "insert_scan (pkt_seq p) (rw_nodes w) = Inr (before, after)"
    and eq: "rw_nodes w = before @ after"
    and bef: "\<forall>q \<in> set before. pkt_end q \<le> unat (pkt_seq p)"
    and aft: "ordered_from (pkt_end p) after" by blast
  have "before = []"
  proof (rule ccontr)
    assume "before \<noteq> []"
    then obtain q where q: "q \<in> set before" by (meson last_in_set)
    then have "Suc (unat (recv_base w)) \<le> unat (pkt_seq q)" "in_space q"
      using ordered_from_mem [OF ord, of q] eq by auto
    then show False using bef q assms(4) pkt_end_of_seq [of q] by fastforce
  qed
  moreover have "after = [] \<or> pkt_seq p + payload_size p \<le> pkt_seq (hd after)"
    using aft unat_pkt_end [OF assms(2)] by (cases after) (auto simp: word_le_nat_alt)
  moreover have "ordered_from (unat (pkt_seq p)) (p # rw_nodes w)"
    using aft eq \<open>before = []\<close> assms(2) by simp
  ultimately show ?thesis
    using assms(4) sc eq run rw_wf_after_run [OF _ run]
    by (auto simp: ReceivePacket_def base_def rw_wf_def Let_def)
qed

section \<open>Properties\<close>

text \<open>
  C11. In-order delivery of a maximal run. A well-formed receive window that gets the packet
  it expects, not overlapping what it stores, passes its sanity checks and delivers the
  longest run of packets that are contiguous from the receive base: delivered and kept
  packets together are the new and the stored ones in order, the acknowledgement number and
  the new receive base are the end of the run, the first kept packet leaves a gap, and the
  window stays well formed.
\<close>

theorem receive_expected_delivers_maximal_run:
  assumes "rw_wf w" "in_space p" "\<forall>q \<in> set (rw_nodes w). disjoint_pkts p q"
    and "pkt_seq p = recv_base w"
  shows "\<exists>run rest w'. ReceivePacket w p = Inr (recv_base w + of_nat (seq_span run), run, w') \<and>
    p # rw_nodes w = run @ rest \<and> run \<noteq> [] \<and> contiguous (recv_base w) run \<and>
    rw_nodes w' = rest \<and> recv_base w' = recv_base w + of_nat (seq_span run) \<and>
    (\<forall>q \<in> set rest. pkt_seq q \<noteq> recv_base w') \<and> rw_wf w'"
proof -
  obtain run rest where run: "in_order_run p (rw_nodes w) = (run, rest)"
    by fastforce
  let ?w = "w\<lparr>rw_nodes := rest, recv_base := pkt_seq (last run) + payload_size (last run)\<rparr>"
  note rcv = ReceivePacket_expected [OF assms run]
  have "\<forall>q \<in> set rest. pkt_seq q \<noteq> recv_base ?w"
    using rcv by (auto simp: rw_wf_def dest: ordered_from_mem)
  with rcv in_order_run_split [OF run] in_order_run_contiguous [OF run] run_end [OF run] assms(4)
  show ?thesis
    by (intro exI [of _ run] exI [of _ rest] exI [of _ ?w]) simp
qed

text \<open>The out-of-order sequence of \<^verbatim>\<open>RecvWindow_test.cc\<close>, just before the packet at five comes.\<close>

definition test_recv_window :: RecvWindow where
  "test_recv_window = \<lparr>recv_base = 5, rw_capacity = 65536,
     rw_nodes = [test_pkt 10 [1, 2, 3, 4, 5], test_pkt 15 [1, 2, 3, 4, 5], test_pkt 25 [1, 2, 3, 4, 5]]\<rparr>"

lemmas recv_window_eval = test_recv_window_def rw_wf_def in_space_def pkt_end_def
  disjoint_pkts_def test_pkt_def Packet_string_def Packet_headers_def TcpHeader_default_def

theorem receive_expected_delivers_maximal_run_witness:
  "\<exists>run rest w'. ReceivePacket test_recv_window (test_pkt 5 [1, 2, 3, 4, 5]) =
      Inr (recv_base test_recv_window + of_nat (seq_span run), run, w') \<and>
    test_pkt 5 [1, 2, 3, 4, 5] # rw_nodes test_recv_window = run @ rest \<and> run \<noteq> [] \<and>
    contiguous (recv_base test_recv_window) run \<and> rw_nodes w' = rest \<and>
    recv_base w' = recv_base test_recv_window + of_nat (seq_span run) \<and>
    (\<forall>q \<in> set rest. pkt_seq q \<noteq> recv_base w') \<and> rw_wf w'"
  by (rule receive_expected_delivers_maximal_run) (simp_all add: recv_window_eval)

text \<open>
  C12. Any other packet. A packet below the receive base is re-acknowledged and dropped
  without any change; one above it, not overlapping what is stored, is inserted at its place
  without delivery, and the window stays well formed. In both cases the acknowledgement
  number is the unchanged receive base.
\<close>

theorem receive_unexpected_reacks_base:
  assumes "rw_wf w" "in_space p" "\<forall>q \<in> set (rw_nodes w). disjoint_pkts p q"
    and "pkt_seq p \<noteq> recv_base w"
  shows "\<exists>w'. ReceivePacket w p = Inr (recv_base w, [], w') \<and> recv_base w' = recv_base w \<and> rw_wf w' \<and>
    (if pkt_seq p < recv_base w then w' = w
     else mset (rw_nodes w') = add_mset p (mset (rw_nodes w)))"
proof (cases "pkt_seq p < recv_base w")
  case True
  with assms(1) show ?thesis by (simp add: ReceivePacket_old)
next
  case False
  with assms(4) have "recv_base w < pkt_seq p" by simp
  from ReceivePacket_new [OF assms(1-3) this] False show ?thesis by auto
qed

theorem receive_unexpected_reacks_base_witness:
  "\<exists>w'. ReceivePacket test_recv_window (test_pkt 20 [1, 2, 3, 4, 5]) = Inr (recv_base test_recv_window, [], w') \<and>
    recv_base w' = recv_base test_recv_window \<and> rw_wf w' \<and>
    (if pkt_seq (test_pkt 20 [1, 2, 3, 4, 5]) < recv_base test_recv_window then w' = test_recv_window
     else mset (rw_nodes w') = add_mset (test_pkt 20 [1, 2, 3, 4, 5]) (mset (rw_nodes test_recv_window)))"
  by (rule receive_unexpected_reacks_base) (simp_all add: recv_window_eval)

text \<open>
  C13. A second copy of a packet that is stored out of order fails the sanity check on
  overlapping ranges: the window relies on its peer and the channel never to deliver one.
\<close>

theorem duplicate_out_of_order_trips_sanity_check:
  assumes "rw_wf w" "p \<in> set (rw_nodes w)"
  shows "ReceivePacket w p = Inl (Sanity_check ''Packet size ranges overlap'')"
proof -
  have ord: "ordered_from (Suc (unat (recv_base w))) (rw_nodes w)"
    using assms(1) by (simp add: rw_wf_def)
  obtain before after where eq: "rw_nodes w = before @ p # after"
    using assms(2) by (meson split_list)
  have scan: "insert_scan (pkt_seq p) (bs @ p # as) = Inr (bs, p # as)"
    if "ordered_from b (bs @ p # as)" for b bs as
    using that
  proof (induction bs arbitrary: b)
    case (Cons q bs)
    then have "in_space q" "pkt_end q \<le> unat (pkt_seq p)"
      using ordered_from_append [of b "q # bs" p as] by auto
    then show ?case
      using Cons.IH [of "pkt_end q"] Cons.prems pkt_end_of_seq [of q]
      by (simp add: word_less_nat_alt word_le_nat_alt unat_pkt_end)
  qed simp
  have p: "recv_base w < pkt_seq p" "in_space p"
    using ordered_from_mem [OF ord assms(2)] by (simp_all add: word_less_nat_alt)
  then have "\<not> pkt_seq p + payload_size p \<le> pkt_seq p"
    using pkt_end_of_seq [of p] by (simp add: word_le_nat_alt unat_pkt_end)
  with p scan [of _ before after] ord show ?thesis
    by (auto simp: ReceivePacket_def eq)
qed

theorem duplicate_out_of_order_trips_sanity_check_witness:
  "ReceivePacket test_recv_window (test_pkt 15 [1, 2, 3, 4, 5]) =
    Inl (Sanity_check ''Packet size ranges overlap'')"
  by (rule duplicate_out_of_order_trips_sanity_check) (simp_all add: recv_window_eval)

end
