(* ===== verification/Packet_Stream.thy ===== *)
theory Packet_Stream
  imports Recv_Window
begin

text \<open>
  Streams of packets: what a sender produces from a base sequence number without wrapping
  around. Every packet in a stream has its own place, so order, equality and overlap of
  packets can be read off their sequence numbers. The window proofs of
  \<open>Transport\<close> rest on these facts.
\<close>

definition stream :: "uint32 \<Rightarrow> Packet list \<Rightarrow> bool" where
  "stream b ps \<longleftrightarrow> contiguous b ps \<and> (\<forall>p \<in> set ps. 0 < pkt_len p) \<and>
     unat b + seq_span ps < 4294967296"

text \<open>A packet that carries data beyond the sequence number \<open>r\<close>.\<close>

definition later :: "nat \<Rightarrow> Packet \<Rightarrow> bool" where
  "later r p \<longleftrightarrow> r < unat (pkt_seq p) \<and> 0 < pkt_len p"

lemma stream_Nil [simp]: "stream b []"
  using uint32_less [of b] by (simp add: stream_def)

lemma stream_Cons:
  "stream b (p # ps) \<longleftrightarrow> pkt_seq p = b \<and> in_space p \<and> stream (b + payload_size p) ps"
proof (cases "pkt_seq p = b \<and> 0 < pkt_len p \<and> unat b + pkt_len p < 4294967296")
  case True
  then have "unat (b + payload_size p) = unat b + pkt_len p"
    by (simp add: unat_add_u32)
  with True show ?thesis
    by (auto simp: stream_def in_space_def pkt_end_def)
next
  case False
  then show ?thesis
    by (auto simp: stream_def in_space_def pkt_end_def)
qed

lemma unat_stream_end: "stream b ps \<Longrightarrow> unat (b + of_nat (seq_span ps)) = unat b + seq_span ps"
  by (simp add: stream_def unat_add_u32 unat_of_nat_u32)

lemma stream_append:
  "stream b (ps @ qs) \<longleftrightarrow> stream b ps \<and> stream (b + of_nat (seq_span ps)) qs"
proof (induction ps arbitrary: b)
  case (Cons p ps)
  then show ?case by (auto simp: stream_Cons add.assoc)
qed simp

lemma stream_ge:
  assumes "stream b ps" "p \<in> set ps"
  shows "unat b \<le> unat (pkt_seq p)" "pkt_end p \<le> unat b + seq_span ps" "in_space p"
proof -
  obtain xs ys where ps: "ps = xs @ p # ys"
    using assms(2) by (meson split_list)
  with assms(1) have x: "stream b xs" and p: "pkt_seq p = b + of_nat (seq_span xs)" "in_space p"
    by (auto simp: stream_append stream_Cons)
  then show "unat b \<le> unat (pkt_seq p)" "in_space p"
    by (simp_all add: unat_stream_end)
  show "pkt_end p \<le> unat b + seq_span ps"
    using x p by (simp add: pkt_end_def unat_stream_end ps)
qed

lemma stream_split_order:
  assumes "stream b (xs @ p # ys)" "q \<in> set ys"
  shows "pkt_end p \<le> unat (pkt_seq q)"
proof -
  have "in_space p" "stream (pkt_seq p + payload_size p) ys"
    using assms(1) by (auto simp: stream_append stream_Cons)
  then show ?thesis
    using stream_ge(1) [OF _ assms(2)] by (metis unat_pkt_end)
qed

lemma stream_seq_order:
  assumes "stream b ps" "p \<in> set ps" "q \<in> set ps" "unat (pkt_seq p) < unat (pkt_seq q)"
  shows "pkt_end p \<le> unat (pkt_seq q)"
proof -
  obtain xs ys where ps: "ps = xs @ p # ys"
    using assms(2) by (meson split_list)
  have "q \<notin> set xs"
  proof
    assume "q \<in> set xs"
    then obtain us vs where "xs = us @ q # vs" by (meson split_list)
    with ps assms(1) stream_split_order [of b us q "vs @ p # ys" p] stream_ge(3) [OF assms(1,3)]
    show False using assms(4) pkt_end_of_seq [of q] by auto
  qed
  with ps assms show ?thesis
    using stream_split_order [of b xs p ys q] by auto
qed

lemma stream_seq_inj:
  assumes "stream b ps" "p \<in> set ps" "q \<in> set ps" "pkt_seq p = pkt_seq q"
  shows "p = q"
proof (rule ccontr)
  assume neq: "p \<noteq> q"
  have clash: False if "ps = xs @ x # ys" "y \<in> set ys" "pkt_seq x = pkt_seq y" for xs x ys y
    using that stream_split_order [of b xs x ys y] stream_ge(3) [OF assms(1), of x] assms(1)
      pkt_end_of_seq [of x] by auto
  obtain us vs where ps: "ps = us @ p # vs"
    using assms(2) by (meson split_list)
  then consider "q \<in> set vs" | us1 us2 where "us = us1 @ q # us2"
    using assms(3) neq by (auto dest: split_list)
  then show False
  proof cases
    case 1
    with clash [of us p vs q] ps assms(4) show ?thesis by simp
  next
    case (2 us1 us2)
    with clash [of us1 q "us2 @ p # vs" p] ps assms(4) show ?thesis by simp
  qed
qed

lemma stream_disjoint:
  assumes "stream b ps" "p \<in> set ps" "q \<in> set ps" "pkt_seq p \<noteq> pkt_seq q"
  shows "disjoint_pkts p q"
proof -
  have "unat (pkt_seq p) < unat (pkt_seq q) \<or> unat (pkt_seq q) < unat (pkt_seq p)"
    using assms(4) by (metis linorder_neqE_nat u32_eq_iff)
  then show ?thesis
    using stream_seq_order assms by (auto simp: disjoint_pkts_def)
qed

lemma stream_subseq_ordered:
  "stream b ps \<Longrightarrow> subseq ns ps \<Longrightarrow> ordered_from (unat b) ns"
proof (induction ps arbitrary: b ns)
  case (Cons p ps)
  have p: "in_space p" and s: "stream (b + payload_size p) ps" and b: "pkt_seq p = b"
    using Cons.prems(1) by (auto simp: stream_Cons)
  have e: "unat (b + payload_size p) = pkt_end p"
    using unat_pkt_end [OF p] b by simp
  show ?case
  proof (cases "ns \<noteq> [] \<and> hd ns = p")
    case True
    then obtain ns' where "ns = p # ns'" by (cases ns) auto
    with Cons.prems(2) Cons.IH [OF s, of ns'] p e b show ?thesis by simp
  next
    case False
    with Cons.prems(2) have "subseq ns ps" by (cases ns) (auto split: if_splits)
    from Cons.IH [OF s this] e p b show ?thesis
      using pkt_end_of_seq [OF p] by (metis less_imp_le ordered_from_mono)
  qed
qed (auto dest: list_emb_Nil2)

lemma filter_later_stream:
  assumes "stream b (xs @ ys)"
  shows "filter (later (unat b + seq_span xs)) (xs @ ys) = tl ys"
proof -
  let ?r = "unat b + seq_span xs"
  have "\<not> later ?r p" if "p \<in> set xs" for p
    using stream_ge(2,3) [of b xs p] pkt_end_of_seq [of p] assms that
    by (force simp: stream_append later_def)
  then have "filter (later ?r) xs = []" by (simp add: filter_empty_conv)
  moreover have "filter (later ?r) ys = tl ys"
  proof (cases ys)
    case (Cons y ys')
    with assms have y: "unat (pkt_seq y) = ?r" and sp: "in_space y"
      and s: "stream (pkt_seq y + payload_size y) ys'"
      by (auto simp: stream_append stream_Cons unat_stream_end)
    have "later ?r q" if "q \<in> set ys'" for q
      using stream_ge(1,3) [OF s that] unat_pkt_end [OF sp] pkt_end_of_seq [OF sp] y
      by (simp add: later_def in_space_def)
    then have "filter (later ?r) ys' = ys'" by (simp add: filter_True)
    with Cons y show ?thesis by (simp add: later_def)
  qed simp
  ultimately show ?thesis by simp
qed

lemma stream_prefix_of_subseq:
  assumes "stream b ps" "contiguous b run" "subseq run ps"
  shows "prefix run ps"
  using assms
proof (induction run arbitrary: b ps)
  case (Cons r run)
  then obtain p ps' where ps: "ps = p # ps'" by (cases ps) auto
  have "r \<in> set ps" using Cons.prems(3) subseq_set by fastforce
  then have "r = p"
    using stream_seq_inj [OF Cons.prems(1), of r p] Cons.prems(1,2) ps by (simp add: stream_Cons)
  with Cons ps show ?case by (auto simp: stream_Cons)
qed simp

lemma append_span_prefix:
  assumes "xs @ xs' = ys @ ys'" "\<forall>p \<in> set (xs @ xs'). 0 < pkt_len p" "seq_span xs \<le> seq_span ys"
  shows "\<exists>us. ys = xs @ us \<and> xs' = us @ ys'"
proof -
  from assms(1) obtain us where
    "(xs = ys @ us \<and> us @ xs' = ys') \<or> (xs @ us = ys \<and> xs' = us @ ys')"
    by (auto simp: append_eq_append_conv2)
  then show ?thesis
  proof (elim disjE conjE)
    assume us: "xs = ys @ us" "us @ xs' = ys'"
    then have "us = []" using assms(2,3) span_pos [of us] by fastforce
    with us show ?thesis by auto
  qed auto
qed

end
