(* ===== verification/Transport.thy ===== *)
theory Transport
  imports Packet_Stream
begin

text \<open>
  One direction of a connection as a closed system: a send window, a receive window, a
  first-in first-out channel for data and one for acknowledgements, both of which may lose
  anything in flight, as \<^verbatim>\<open>BaseChannel::Send\<close> does. The steps call the windows as the
  controller does: \<^verbatim>\<open>SendBufferListener\<close> and \<^verbatim>\<open>SendFIN\<close> (register, then send a copy),
  \<^verbatim>\<open>TimeoutReTransmitter\<close>, \<^verbatim>\<open>ProbeWindowSize\<close>, \<^verbatim>\<open>HandleDataPacket\<close> and the window part of
  \<^verbatim>\<open>HandleACK\<close>. \<open>sent\<close> and \<open>delivered\<close> are history variables.
\<close>

section \<open>The system\<close>

record net =
  tx :: SendWindow
  max_dups :: uint32
  rx :: RecvWindow
  data_ch :: "Packet list"
  ack_ch :: "uint32 list"
  sent :: "Packet list"
  delivered :: "Packet list"

datatype net_event =
    Send_data Packet
  | Timeout
  | Probe Packet
  | Lose_data nat
  | Lose_ack nat
  | Recv_data
  | Recv_ack uint32 \<comment> \<open>with the window size the receiver announced\<close>

definition net_init :: "uint32 \<Rightarrow> uint32 \<Rightarrow> uint32 \<Rightarrow> net" where
  "net_init b scap rcap = \<lparr>tx = SendWindow_new b scap, max_dups = kMaxDuplicatedAcksOrigin,
     rx = RecvWindow_new b rcap, data_ch = [], ack_ch = [], sent = [], delivered = []\<rparr>"

definition send_data_step :: "net \<Rightarrow> Packet \<Rightarrow> net checked" where
  "send_data_step s p =
     bindR (SendPacket (tx s) p) (\<lambda>(ok, w).
       if ok then bindR (Copy p) (\<lambda>c.
         Inr (s\<lparr>tx := w, data_ch := data_ch s @ [c], sent := sent s @ [p]\<rparr>))
       else Inr s)"

definition resend_base :: "net \<Rightarrow> net checked" where
  "resend_base s =
     bindR (GetBasePakcketToReSend (tx s)) (\<lambda>(po, w).
       Inr (s\<lparr>tx := w, data_ch := data_ch s @ (case po of None \<Rightarrow> [] | Some c \<Rightarrow> [c])\<rparr>))"

definition recv_data_step :: "net \<Rightarrow> net checked" where
  "recv_data_step s =
     (case data_ch s of
        [] \<Rightarrow> Inr s
      | p # ps \<Rightarrow>
          if payload_size p = 0
          then Inr (s\<lparr>data_ch := ps, ack_ch := ack_ch s @ [recv_base (rx s)]\<rparr>)
          else bindR (ReceivePacket (rx s) p) (\<lambda>(a, run, w).
                 Inr (s\<lparr>data_ch := ps, rx := w, ack_ch := ack_ch s @ [a],
                        delivered := delivered s @ run\<rparr>)))"

definition recv_ack_step :: "(SendWindowNode \<Rightarrow> nanoseconds) \<Rightarrow> net \<Rightarrow> uint32 \<Rightarrow> net checked" where
  "recv_ack_step elapsed s rwnd =
     (case ack_ch s of
        [] \<Rightarrow> Inr s
      | a # as \<Rightarrow>
          bindR (NewAckedPacket elapsed (max_dups s) (tx s) a) (\<lambda>(r, w, m).
            let s' = s\<lparr>tx := w, max_dups := m, ack_ch := as\<rparr> in
            bindR (if re_transmit r then resend_base s' else Inr s') (\<lambda>s''.
              Inr (s''\<lparr>tx := set_capacity rwnd (tx s'')\<rparr>))))"

fun net_step :: "(SendWindowNode \<Rightarrow> nanoseconds) \<Rightarrow> net \<Rightarrow> net_event \<Rightarrow> net checked" where
  "net_step elapsed s (Send_data p) = send_data_step s p"
| "net_step elapsed s Timeout = (if NumPacketsToAck (tx s) > 0 then resend_base s else Inr s)"
| "net_step elapsed s (Probe p) = Inr (s\<lparr>data_ch := data_ch s @ [p]\<rparr>)"
| "net_step elapsed s (Lose_data i) = Inr (s\<lparr>data_ch := remove_nth i (data_ch s)\<rparr>)"
| "net_step elapsed s (Lose_ack i) = Inr (s\<lparr>ack_ch := remove_nth i (ack_ch s)\<rparr>)"
| "net_step elapsed s Recv_data = recv_data_step s"
| "net_step elapsed s (Recv_ack rwnd) = recv_ack_step elapsed s rwnd"

fun net_run :: "(SendWindowNode \<Rightarrow> nanoseconds) \<Rightarrow> net \<Rightarrow> net_event list \<Rightarrow> net checked" where
  "net_run elapsed s [] = Inr s"
| "net_run elapsed s (e # es) = bindR (net_step elapsed s e) (\<lambda>s'. net_run elapsed s' es)"

text \<open>
  The packets the controller registers are in normal form and not empty; probes are empty.
  \<open>load\<close> is the number of sequence numbers a list of events may use.
\<close>

fun valid_event :: "net_event \<Rightarrow> bool" where
  "valid_event (Send_data p) = (pkt_normal p \<and> 0 < pkt_len p)"
| "valid_event (Probe p) = (payload_size p = 0)"
| "valid_event _ = True"

fun load :: "net_event list \<Rightarrow> nat" where
  "load [] = 0"
| "load (Send_data p # es) = pkt_len p + load es"
| "load (_ # es) = load es"

section \<open>The invariant\<close>

text \<open>
  Of the packets sent, a prefix is acknowledged, a longer or equal prefix is delivered.
  What the receiver stores, followed by what is in flight beyond the receive base, is in
  stream order and never contains the packet the receiver waits for: re-transmissions are
  always at or below the receive base. Acknowledgements in flight are ends of prefixes, in
  order, between the send base and the receive base. The last part bounds the duplicate
  counter and its threshold by the number \<open>n\<close> of steps made.
\<close>

definition pending :: "net \<Rightarrow> Packet list" where
  "pending s = drop (length (delivered s)) (sent s)"

definition streams_inv :: "uint32 \<Rightarrow> net \<Rightarrow> bool" where
  "streams_inv b s \<longleftrightarrow> stream b (sent s) \<and> (\<forall>p \<in> set (sent s). pkt_normal p) \<and>
     sw_wf (tx s) \<and>
     (\<exists>acked. sent s = acked @ window_pkts (tx s) \<and> prefix acked (delivered s) \<and>
        send_base (tx s) = b + of_nat (seq_span acked)) \<and>
     prefix (delivered s) (sent s) \<and> recv_base (rx s) = b + of_nat (seq_span (delivered s))"

definition flight_inv :: "net \<Rightarrow> bool" where
  "flight_inv s \<longleftrightarrow>
     (\<forall>p \<in> set (data_ch s). payload_size p = 0 \<or> p \<in> set (sent s)) \<and>
     subseq (rw_nodes (rx s) @ filter (later (unat (recv_base (rx s)))) (data_ch s)) (tl (pending s))"

definition acks_inv :: "uint32 \<Rightarrow> net \<Rightarrow> bool" where
  "acks_inv b s \<longleftrightarrow>
     (\<forall>a \<in> set (ack_ch s). \<exists>xs. prefix xs (sent s) \<and> a = b + of_nat (seq_span xs)) \<and>
     sorted (map unat (send_base (tx s) # ack_ch s @ [recv_base (rx s)]))"

definition dups_inv :: "nat \<Rightarrow> net \<Rightarrow> bool" where
  "dups_inv n s \<longleftrightarrow> 3 \<le> unat (max_dups s) \<and>
     2 * unat (max_dups s) + unat (duplicated_acks (tx s)) \<le> 6 + n \<and>
     length (data_ch s) + length (ack_ch s) \<le> n \<and> length (sent s) \<le> n"

definition net_inv :: "uint32 \<Rightarrow> nat \<Rightarrow> net \<Rightarrow> bool" where
  "net_inv b n s \<longleftrightarrow> streams_inv b s \<and> flight_inv s \<and> acks_inv b s \<and> dups_inv n s"

lemmas net_inv_defs = net_inv_def streams_inv_def flight_inv_def acks_inv_def dups_inv_def

lemma net_inv_init: "net_inv b 0 (net_init b scap rcap)"
  by (simp add: net_inv_defs net_init_def pending_def SendWindow_new_def RecvWindow_new_def
      kMaxDuplicatedAcksOrigin_def sw_wf_def)

lemma sent_pending: "streams_inv b s \<Longrightarrow> sent s = delivered s @ pending s"
  by (auto simp: streams_inv_def pending_def prefix_def)

lemma unat_recv_base:
  assumes "streams_inv b s"
  shows "unat (recv_base (rx s)) = unat b + seq_span (delivered s)"
proof -
  have "stream b (delivered s)"
    using assms sent_pending [OF assms] by (metis stream_append streams_inv_def)
  then show ?thesis
    using assms by (simp add: streams_inv_def unat_stream_end)
qed

lemma send_base_le_recv_base:
  assumes "streams_inv b s"
  shows "unat (send_base (tx s)) \<le> unat (recv_base (rx s))"
proof -
  from assms obtain acked where a: "sent s = acked @ window_pkts (tx s)" "prefix acked (delivered s)"
    "send_base (tx s) = b + of_nat (seq_span acked)"
    by (auto simp: streams_inv_def)
  have "stream b acked" using assms a(1) by (simp add: streams_inv_def stream_append)
  moreover have "seq_span acked \<le> seq_span (delivered s)"
    using a(2) by (auto simp: prefix_def)
  ultimately show ?thesis
    using a(3) by (simp add: unat_recv_base [OF assms] unat_stream_end)
qed

lemma frame_simps [simp]:
  "streams_inv b (s\<lparr>data_ch := d\<rparr>) = streams_inv b s"
  "streams_inv b (s\<lparr>ack_ch := a\<rparr>) = streams_inv b s"
  "streams_inv b (s\<lparr>max_dups := m\<rparr>) = streams_inv b s"
  "acks_inv b (s\<lparr>data_ch := d\<rparr>) = acks_inv b s"
  "acks_inv b (s\<lparr>max_dups := m\<rparr>) = acks_inv b s"
  "flight_inv (s\<lparr>ack_ch := a\<rparr>) = flight_inv s"
  "flight_inv (s\<lparr>max_dups := m\<rparr>) = flight_inv s"
  "flight_inv (s\<lparr>tx := w\<rparr>) = flight_inv s"
  by (simp_all add: streams_inv_def acks_inv_def flight_inv_def pending_def)

lemma frame_tx:
  assumes "send_base w = send_base (tx s)" "pkts_to_ack w = pkts_to_ack (tx s)"
    "sw_size w = sw_size (tx s)"
  shows "streams_inv b (s\<lparr>tx := w\<rparr>) = streams_inv b s" "acks_inv b (s\<lparr>tx := w\<rparr>) = acks_inv b s"
  using assms by (simp_all add: streams_inv_def acks_inv_def sw_wf_def)

definition core_inv :: "uint32 \<Rightarrow> net \<Rightarrow> bool" where
  "core_inv b s \<longleftrightarrow> streams_inv b s \<and> flight_inv s \<and> acks_inv b s"

lemma net_inv_core: "net_inv b n s \<longleftrightarrow> core_inv b s \<and> dups_inv n s"
  by (auto simp: net_inv_def core_inv_def)

section \<open>Every step keeps the invariant\<close>

subsection \<open>Sending\<close>

lemma next_seq_sent:
  assumes "streams_inv b s"
  shows "NextSeqNumberToSend (tx s) = b + of_nat (seq_span (sent s))"
  using assms by (auto simp: streams_inv_def sw_wf_next add.assoc)

lemma stream_snoc:
  assumes "stream b ps" "pkt_seq p = b + of_nat (seq_span ps)" "0 < pkt_len p"
    "unat b + seq_span ps + pkt_len p < 4294967296"
  shows "stream b (ps @ [p])"
  using assms by (simp add: stream_append stream_Cons in_space_def pkt_end_def unat_stream_end)

lemma send_accepted_core:
  assumes inv: "core_inv b s" and p: "pkt_normal p" "0 < pkt_len p"
    "pkt_seq p = NextSeqNumberToSend (tx s)" "unat b + seq_span (sent s) + pkt_len p < 4294967296"
  shows "core_inv b (s\<lparr>tx := register_pkt (tx s) p, data_ch := data_ch s @ [p], sent := sent s @ [p]\<rparr>)"
    (is "core_inv b ?s")
proof -
  have st: "streams_inv b s" and fl: "flight_inv s" and ak: "acks_inv b s"
    using inv by (auto simp: core_inv_def)
  have seq: "pkt_seq p = b + of_nat (seq_span (sent s))"
    using p(3) next_seq_sent [OF st] by simp
  have strm: "stream b (sent s @ [p])"
    using st p seq by (intro stream_snoc) (auto simp: streams_inv_def)
  have "seq_span (window_pkts (tx s)) \<le> seq_span (sent s)"
    using st by (auto simp: streams_inv_def)
  then have "sw_wf (register_pkt (tx s) p)"
    using st p by (intro sw_wf_register) (auto simp: streams_inv_def)
  then have st': "streams_inv b ?s"
    using st strm p(1) by (auto simp: streams_inv_def)
  have pend: "pending ?s = pending s @ [p]"
    using st by (auto simp: pending_def streams_inv_def dest: prefix_length_le)
  have "subseq (rw_nodes (rx s) @ filter (later (unat (recv_base (rx s)))) (data_ch s @ [p]))
      (tl (pending s @ [p]))"
  proof (cases "pending s")
    case Nil
    then have "sent s = delivered s" using sent_pending [OF st] by simp
    then have "pkt_seq p = recv_base (rx s)" using seq st by (simp add: streams_inv_def)
    with fl Nil show ?thesis by (simp add: flight_inv_def later_def)
  next
    case (Cons q qs)
    with fl have "subseq ((rw_nodes (rx s) @ filter (later (unat (recv_base (rx s)))) (data_ch s)) @ [p])
        (tl (pending s) @ [p])"
      by (intro list_emb_append_mono) (auto simp: flight_inv_def)
    moreover have "subseq (filter (later (unat (recv_base (rx s)))) [p]) [p]" by simp
    ultimately show ?thesis
      using fl Cons by (auto simp: flight_inv_def intro: list_emb_append_mono subseq_order.order_trans)
  qed
  then have "flight_inv ?s"
    using fl pend by (auto simp: flight_inv_def)
  moreover have "acks_inv b ?s"
    using ak by (auto simp: acks_inv_def prefix_append)
  ultimately show ?thesis using st' by (simp add: core_inv_def)
qed

lemma send_data_step_inv:
  assumes "net_inv b n s" "valid_event (Send_data p)" "unat b + seq_span (sent s) + pkt_len p < 4294967296"
  shows "\<exists>s'. send_data_step s p = Inr s' \<and> net_inv b (Suc n) s' \<and>
    seq_span (sent s') \<le> seq_span (sent s) + pkt_len p"
proof -
  have wf: "sw_wf (tx s)" using assms(1) by (simp add: net_inv_def streams_inv_def)
  show ?thesis
  proof (cases "sw_accepts (tx s) p")
    case True
    let ?s = "s\<lparr>tx := register_pkt (tx s) p, data_ch := data_ch s @ [p], sent := sent s @ [p]\<rparr>"
    have "send_data_step s p = Inr ?s"
      using True assms(2) by (simp add: send_data_step_def SendPacket_wf [OF wf] Copy_normal)
    moreover have "core_inv b ?s"
      using assms True by (intro send_accepted_core) (auto simp: net_inv_core sw_accepts_def)
    moreover have "dups_inv (Suc n) ?s"
      using assms(1) by (simp add: net_inv_core dups_inv_def)
    ultimately show ?thesis by (simp add: net_inv_core)
  next
    case False
    with assms(1) show ?thesis
      by (auto simp: send_data_step_def SendPacket_wf [OF wf] net_inv_core dups_inv_def)
  qed
qed

subsection \<open>Re-transmission, probes and losses\<close>

definition same_but_resent :: "net \<Rightarrow> net \<Rightarrow> bool" where
  "same_but_resent s s' \<longleftrightarrow> rx s' = rx s \<and> ack_ch s' = ack_ch s \<and> sent s' = sent s \<and>
     delivered s' = delivered s \<and> max_dups s' = max_dups s \<and>
     duplicated_acks (tx s') = duplicated_acks (tx s) \<and> pkts_to_ack (tx s') = pkts_to_ack (tx s) \<and>
     send_base (tx s') = send_base (tx s) \<and>
     (\<exists>c. data_ch s' = data_ch s @ c \<and> length c \<le> 1)"

lemma resend_base_core:
  assumes "core_inv b s"
  shows "\<exists>s'. resend_base s = Inr s' \<and> core_inv b s' \<and> same_but_resent s s' \<and>
    data_ch s' = data_ch s @ take 1 (window_pkts (tx s))"
proof (cases "pkts_to_ack (tx s)")
  case Nil
  with assms show ?thesis
    by (simp add: resend_base_def GetBasePakcketToReSend_def same_but_resent_def)
next
  case (Cons n q)
  let ?p = "node_pkt n"
  have st: "streams_inv b s" using assms by (simp add: core_inv_def)
  have mem: "?p \<in> set (sent s)" and seq: "pkt_seq ?p = send_base (tx s)"
    using st Cons by (auto simp: streams_inv_def sw_wf_def)
  have "\<not> later (unat (recv_base (rx s))) ?p"
    using send_base_le_recv_base [OF st] seq by (simp add: later_def)
  moreover have "Copy ?p = Inr ?p"
    using st mem by (simp add: streams_inv_def Copy_normal)
  moreover define s' where
    "s' = s\<lparr>tx := (tx s)\<lparr>has_retransmitted_pkt := True\<rparr>, data_ch := data_ch s @ [?p]\<rparr>"
  ultimately have "resend_base s = Inr s'" "flight_inv s'"
    using Cons assms mem
    by (simp_all add: resend_base_def GetBasePakcketToReSend_def core_inv_def flight_inv_def pending_def)
  moreover have "streams_inv b s'" "acks_inv b s'"
    using assms by (simp_all add: s'_def core_inv_def frame_tx)
  ultimately show ?thesis
    using Cons by (simp add: core_inv_def same_but_resent_def s'_def)
qed

lemma same_but_resent_dups:
  "same_but_resent s s' \<Longrightarrow> dups_inv n s \<Longrightarrow> dups_inv (Suc n) s'"
  by (auto simp: same_but_resent_def dups_inv_def)

lemma probe_step_inv:
  assumes "net_inv b n s" "payload_size p = 0"
  shows "net_inv b (Suc n) (s\<lparr>data_ch := data_ch s @ [p]\<rparr>)"
  using assms by (simp add: net_inv_def flight_inv_def dups_inv_def pending_def later_def)

lemma lose_data_inv:
  assumes "net_inv b n s"
  shows "net_inv b (Suc n) (s\<lparr>data_ch := remove_nth i (data_ch s)\<rparr>)"
proof -
  let ?r = "unat (recv_base (rx s))"
  have "subseq (rw_nodes (rx s) @ filter (later ?r) (remove_nth i (data_ch s)))
      (rw_nodes (rx s) @ filter (later ?r) (data_ch s))"
    by (intro list_emb_append_mono subseq_filter subseq_remove_nth) simp
  then have "subseq (rw_nodes (rx s) @ filter (later ?r) (remove_nth i (data_ch s))) (tl (pending s))"
    using assms by (auto simp: net_inv_def flight_inv_def intro: subseq_order.order_trans)
  moreover have "length (remove_nth i (data_ch s)) \<le> length (data_ch s)"
    by (rule list_emb_length [OF subseq_remove_nth])
  ultimately show ?thesis
    using assms set_remove_nth [of i "data_ch s"]
    by (auto simp: net_inv_def flight_inv_def dups_inv_def pending_def)
qed

lemma sorted_subseq: "subseq xs ys \<Longrightarrow> sorted ys \<Longrightarrow> sorted xs"
  by (induction rule: list_emb.induct) (auto dest: subseq_set)

lemma lose_ack_inv:
  assumes "net_inv b n s"
  shows "net_inv b (Suc n) (s\<lparr>ack_ch := remove_nth i (ack_ch s)\<rparr>)"
proof -
  have "subseq (send_base (tx s) # remove_nth i (ack_ch s) @ [recv_base (rx s)])
      (send_base (tx s) # ack_ch s @ [recv_base (rx s)])"
    by (simp add: subseq_remove_nth list_emb_append_mono)
  then have "sorted (map unat (send_base (tx s) # remove_nth i (ack_ch s) @ [recv_base (rx s)]))"
    using assms unfolding net_inv_def acks_inv_def by (meson sorted_subseq subseq_map)
  moreover have "length (remove_nth i (ack_ch s)) \<le> length (ack_ch s)"
    by (rule list_emb_length [OF subseq_remove_nth])
  ultimately show ?thesis
    using assms set_remove_nth [of i "ack_ch s"]
    by (auto simp: net_inv_def acks_inv_def dups_inv_def)
qed

subsection \<open>Receiving data\<close>

lemma pending_stream:
  assumes "streams_inv b s"
  shows "stream (recv_base (rx s)) (pending s)"
  using assms sent_pending [OF assms] by (metis stream_append streams_inv_def)

lemma nodes_pending:
  assumes "flight_inv s"
  shows "subseq (rw_nodes (rx s)) (tl (pending s))"
  using assms by (auto simp: flight_inv_def intro: subseq_order.order_trans)

lemma stream_tl_ordered:
  assumes "stream r ps" "subseq ns (tl ps)"
  shows "ordered_from (Suc (unat r)) ns"
proof (cases ps)
  case Nil
  with assms(2) show ?thesis by (auto dest: list_emb_Nil2)
next
  case (Cons p qs)
  then have p: "in_space p" "pkt_seq p = r" "stream (r + payload_size p) qs"
    using assms(1) by (auto simp: stream_Cons)
  then have "ordered_from (unat (r + payload_size p)) ns"
    using stream_subseq_ordered assms(2) Cons by auto
  then show ?thesis
    using p unat_pkt_end [OF p(1)] pkt_end_of_seq [OF p(1)] by (auto intro: ordered_from_mono)
qed

lemma receiver_wf: "core_inv b s \<Longrightarrow> rw_wf (rx s)"
  unfolding rw_wf_def core_inv_def
  by (meson nodes_pending pending_stream stream_tl_ordered)

lemma nodes_sent:
  assumes "core_inv b s" "q \<in> set (rw_nodes (rx s))"
  shows "q \<in> set (sent s)" "unat (recv_base (rx s)) < unat (pkt_seq q)"
proof -
  have "subseq (rw_nodes (rx s)) (pending s)"
    using assms(1) by (simp add: core_inv_def nodes_pending subseq_tlD)
  then show "q \<in> set (sent s)"
    using assms(2) subseq_set by (auto simp: pending_def dest: in_set_dropD)
  show "unat (recv_base (rx s)) < unat (pkt_seq q)"
    using ordered_from_mem [of _ "rw_nodes (rx s)" q] receiver_wf [OF assms(1)] assms(2)
    unfolding rw_wf_def by fastforce
qed

lemma acks_inv_snoc:
  assumes "acks_inv b s" "streams_inv b s"
    and "recv_base w = b + of_nat (seq_span ds)" "prefix ds (sent s)"
    and "unat (recv_base (rx s)) \<le> unat (recv_base w)"
  shows "acks_inv b (s\<lparr>data_ch := d, rx := w, ack_ch := ack_ch s @ [recv_base w], delivered := ds\<rparr>)"
  using assms by (fastforce simp: acks_inv_def sorted_append)

text \<open>A packet at the receive base: the stored run behind it is delivered with it.\<close>

lemma run_is_pending_prefix:
  assumes inv: "core_inv b s" and p: "p \<in> set (sent s)" "pkt_seq p = recv_base (rx s)"
    and run: "in_order_run p (rw_nodes (rx s)) = (run, rest)"
  shows "prefix run (pending s)"
proof -
  have st: "streams_inv b s" using inv by (simp add: core_inv_def)
  have s: "stream b (delivered s @ pending s)"
    using st sent_pending [OF st] by (simp add: streams_inv_def)
  have "p \<notin> set (delivered s)"
    using s stream_ge(2,3) [of b "delivered s" p] pkt_end_of_seq [of p] p(2) unat_recv_base [OF st]
    by (fastforce simp: stream_append)
  then have mem: "p \<in> set (pending s)"
    using p(1) sent_pending [OF st] by auto
  then obtain q qs where pd: "pending s = q # qs" by (cases "pending s") auto
  then have "q = p"
    using stream_seq_inj [OF pending_stream [OF st], of q p] mem p(2) pending_stream [OF st]
    by (simp add: stream_Cons)
  have "subseq (rw_nodes (rx s)) qs"
    using nodes_pending [of s] pd inv by (simp add: core_inv_def)
  then have "subseq (run @ rest) (pending s)"
    using in_order_run_split [OF run] pd \<open>q = p\<close> by simp
  then have "subseq run (pending s)"
    by (meson subseq_order.order_trans list_emb_append2 prefix_imp_subseq prefixI)
  then show ?thesis
    using stream_prefix_of_subseq pending_stream [OF st] in_order_run_contiguous [OF run] p(2) by simp
qed

lemma flight_after_run:
  assumes inv: "core_inv b s" and data: "data_ch s = p # ps"
    and run: "in_order_run p (rw_nodes (rx s)) = (run, rest)" and pre: "pending s = run @ pend'"
    and wf': "ordered_from (Suc r') rest" and r': "r' = unat b + seq_span (delivered s @ run)"
  shows "subseq (rest @ filter (later r') ps) (tl pend')"
proof -
  let ?r = "unat (recv_base (rx s))" and ?N = "rw_nodes (rx s)"
  have st: "streams_inv b s" using inv by (simp add: core_inv_def)
  have "stream b (sent s)"
    using st by (simp add: streams_inv_def)
  then have s: "stream b ((delivered s @ run) @ pend')"
    by (simp only: sent_pending [OF st] pre append_assoc)
  have mono: "later r' q \<Longrightarrow> later ?r q" for q
    unfolding later_def unat_recv_base [OF st] r' by simp
  then have ps: "filter (later r') (filter (later ?r) qs) = filter (later r') qs" for qs
    by (induction qs) auto
  have sub: "subseq (?N @ filter (later ?r) (p # ps)) (pending s)"
  proof (rule subseq_tlD)
    show "subseq (?N @ filter (later ?r) (p # ps)) (tl (pending s))"
      using inv data by (simp add: core_inv_def flight_inv_def)
  qed
  have nil: "filter (later r') (delivered s @ run) = []"
  proof -
    have "stream b ((delivered s @ run) @ [])"
      using s by (simp add: stream_append)
    from filter_later_stream [OF this] show ?thesis by (simp only: r' append_Nil2 list.sel)
  qed
  have "filter (later r') (delivered s @ run) @ filter (later r') pend' = tl pend'"
    using filter_later_stream [OF s] by (simp only: r' filter_append)
  then have later_pending: "filter (later r') (pending s) = tl pend'"
    using nil pre by simp
  have run_not: "filter (later r') run = []"
    using nil by simp
  have "later r' q" if "q \<in> set rest" for q
    using ordered_from_mem [OF wf' that] by (simp add: later_def in_space_def)
  then have rest: "filter (later r') rest = rest"
    by (simp add: filter_True)
  have "filter (later r') (p # ?N) = filter (later r') (run @ rest)"
    using in_order_run_split [OF run] by simp
  also have "\<dots> = rest"
    by (simp only: filter_append run_not rest append_Nil)
  finally have N: "filter (later r') (p # ?N) = rest" .
  have "\<not> later r' p"
    using run_not in_order_run_split [OF run] unfolding filter_empty_conv by (metis hd_in_set)
  with N have "filter (later r') (?N @ filter (later ?r) (p # ps)) = rest @ filter (later r') ps"
    by (simp only: filter_append ps) simp
  then show ?thesis
    using subseq_filter [OF sub, of "later r'"] later_pending by simp
qed

text \<open>The state after the first packet in flight was received with the given outcome.\<close>

definition received :: "net \<Rightarrow> uint32 \<Rightarrow> Packet list \<Rightarrow> RecvWindow \<Rightarrow> net" where
  "received s a run w = s\<lparr>data_ch := tl (data_ch s), rx := w, ack_ch := ack_ch s @ [a],
     delivered := delivered s @ run\<rparr>"

lemma sent_received [simp]: "sent (received s a run w) = sent s"
  by (simp add: received_def)

lemma recv_expected_core:
  assumes inv: "core_inv b s" and data: "data_ch s = p # ps"
    and p: "p \<in> set (sent s)" "pkt_seq p = recv_base (rx s)"
  shows "\<exists>a run w. ReceivePacket (rx s) p = Inr (a, run, w) \<and> core_inv b (received s a run w) \<and> run \<noteq> []"
proof -
  have st: "streams_inv b s" and ak: "acks_inv b s" and strm: "stream b (sent s)"
    using inv by (auto simp: core_inv_def streams_inv_def)
  obtain run rest where run: "in_order_run p (rw_nodes (rx s)) = (run, rest)" by fastforce
  obtain pend' where pend: "pending s = run @ pend'"
    using run_is_pending_prefix [OF inv p run] by (auto simp: prefix_def)
  define base where "base = pkt_seq (last run) + payload_size (last run)"
  define w where "w = (rx s)\<lparr>rw_nodes := rest, recv_base := base\<rparr>"
  have "\<forall>q \<in> set (rw_nodes (rx s)). disjoint_pkts p q"
    using nodes_sent [OF inv] p stream_disjoint [OF strm p(1)] by fastforce
  then have rcv: "ReceivePacket (rx s) p = Inr (base, run, w)" and wf: "rw_wf w"
    using ReceivePacket_expected [OF receiver_wf [OF inv] _ _ p(2) run] stream_ge(3) [OF strm p(1)]
    by (auto simp: base_def w_def)
  have sent: "sent s = (delivered s @ run) @ pend'"
    using sent_pending [OF st] pend by simp
  have base: "base = b + of_nat (seq_span (delivered s @ run))"
    using run_end [OF run] p(2) st by (simp add: base_def streams_inv_def add.assoc)
  have u: "unat base = unat b + seq_span (delivered s @ run)"
    using strm unfolding sent base by (intro unat_stream_end) (simp add: stream_append)
  have "streams_inv b (received s base run w)"
    using st base sent by (auto simp: streams_inv_def received_def w_def)
  moreover have "subseq (rest @ filter (later (unat base)) ps) (tl pend')"
    using wf by (intro flight_after_run [OF inv data run pend _ u]) (simp add: rw_wf_def w_def)
  then have "flight_inv (received s base run w)"
    using inv data sent by (simp add: flight_inv_def core_inv_def received_def w_def pending_def)
  moreover have "acks_inv b (received s base run w)"
    using acks_inv_snoc [OF ak st, of w "delivered s @ run" "tl (data_ch s)"] base sent u
      unat_recv_base [OF st] by (simp add: w_def received_def)
  ultimately show ?thesis
    using rcv in_order_run_split [OF run] by (auto simp: core_inv_def)
qed

lemma recv_later_core:
  assumes inv: "core_inv b s" and data: "data_ch s = p # ps"
    and p: "p \<in> set (sent s)" "recv_base (rx s) < pkt_seq p"
  shows "\<exists>a w. ReceivePacket (rx s) p = Inr (a, [], w) \<and> core_inv b (received s a [] w)"
proof -
  let ?r = "unat (recv_base (rx s))" and ?N = "rw_nodes (rx s)"
  have st: "streams_inv b s" and strm: "stream b (sent s)" and fl: "flight_inv s" and ak: "acks_inv b s"
    using inv by (auto simp: core_inv_def streams_inv_def)
  have sp: "in_space p" using stream_ge(3) [OF strm p(1)] .
  have "later ?r p" using p(2) sp by (simp add: later_def in_space_def word_less_nat_alt)
  then have sub: "subseq (?N @ p # filter (later ?r) ps) (tl (pending s))"
    using fl data by (simp add: flight_inv_def)
  have ord: "ordered_from (Suc ?r) (?N @ p # filter (later ?r) ps)"
    by (rule stream_tl_ordered [OF pending_stream [OF st] sub])
  then have before: "\<forall>q \<in> set ?N. pkt_end q \<le> unat (pkt_seq p)"
    by (simp add: ordered_from_append)
  then have "\<forall>q \<in> set ?N. disjoint_pkts p q" by (simp add: disjoint_pkts_def)
  from ReceivePacket_new [OF receiver_wf [OF inv] sp this p(2)] obtain bs as where
    N: "?N = bs @ as" and rcv: "ReceivePacket (rx s) p =
      Inr (recv_base (rx s), [], (rx s)\<lparr>rw_nodes := bs @ p # as\<rparr>)"
    and wf: "rw_wf ((rx s)\<lparr>rw_nodes := bs @ p # as\<rparr>)" by blast
  have "as = []"
  proof (rule ccontr)
    assume "as \<noteq> []"
    then have "hd as \<in> set as" by simp
    then have "pkt_end p \<le> unat (pkt_seq (hd as))" "in_space (hd as)"
      using wf ordered_from_mem [of "pkt_end p" as "hd as"] by (auto simp: rw_wf_def ordered_from_append)
    moreover have "pkt_end (hd as) \<le> unat (pkt_seq p)"
      using before N \<open>hd as \<in> set as\<close> by auto
    ultimately show False
      using pkt_end_of_seq [of "hd as"] pkt_end_of_seq [OF sp] by linarith
  qed
  then have rcv: "ReceivePacket (rx s) p = Inr (recv_base (rx s), [], (rx s)\<lparr>rw_nodes := ?N @ [p]\<rparr>)"
    using rcv N by simp
  moreover have "streams_inv b (received s (recv_base (rx s)) [] ((rx s)\<lparr>rw_nodes := ?N @ [p]\<rparr>))"
    using st by (simp add: streams_inv_def received_def)
  moreover have "flight_inv (received s (recv_base (rx s)) [] ((rx s)\<lparr>rw_nodes := ?N @ [p]\<rparr>))"
    using fl data sub by (simp add: flight_inv_def received_def pending_def)
  moreover have "acks_inv b (received s (recv_base (rx s)) [] ((rx s)\<lparr>rw_nodes := ?N @ [p]\<rparr>))"
    using acks_inv_snoc [OF ak st, of "(rx s)\<lparr>rw_nodes := ?N @ [p]\<rparr>" "delivered s" "tl (data_ch s)"] st
    by (simp add: streams_inv_def received_def)
  ultimately show ?thesis by (auto simp: core_inv_def)
qed

lemma reack_core:
  assumes "core_inv b s" "data_ch s = p # ps" "\<not> later (unat (recv_base (rx s))) p"
  shows "core_inv b (received s (recv_base (rx s)) [] (rx s))"
proof -
  have "acks_inv b (received s (recv_base (rx s)) [] (rx s))"
    using acks_inv_snoc [of b s "rx s" "delivered s" "tl (data_ch s)"] assms(1)
    by (simp add: core_inv_def streams_inv_def received_def)
  then show ?thesis
    using assms by (simp add: core_inv_def received_def flight_inv_def pending_def)
qed

lemma recv_data_step_inv:
  assumes "net_inv b n s"
  shows "\<exists>s'. recv_data_step s = Inr s' \<and> net_inv b (Suc n) s' \<and> sent s' = sent s"
proof (cases "data_ch s")
  case Nil
  with assms show ?thesis by (simp add: recv_data_step_def net_inv_core dups_inv_def)
next
  case (Cons p ps)
  have inv: "core_inv b s" and dups: "dups_inv n s" using assms by (auto simp: net_inv_core)
  have dups': "dups_inv (Suc n) (received s a run w)" for a run w
    using dups Cons by (simp add: dups_inv_def received_def)
  have step: "recv_data_step s = Inr (received s a run w)"
    if "payload_size p \<noteq> 0" "ReceivePacket (rx s) p = Inr (a, run, w)" for a run w
    using that Cons by (simp add: recv_data_step_def received_def)
  consider "payload_size p = 0" | "payload_size p \<noteq> 0" "p \<in> set (sent s)"
    using inv Cons by (auto simp: core_inv_def flight_inv_def)
  then show ?thesis
  proof cases
    case 1
    then have "recv_data_step s = Inr (received s (recv_base (rx s)) [] (rx s))"
      using Cons by (simp add: recv_data_step_def received_def)
    moreover have "core_inv b (received s (recv_base (rx s)) [] (rx s))"
      using 1 by (intro reack_core [OF inv Cons]) (simp add: later_def)
    ultimately show ?thesis using dups' by (simp add: net_inv_core)
  next
    case 2
    have "\<exists>a run w. ReceivePacket (rx s) p = Inr (a, run, w) \<and> core_inv b (received s a run w)"
    proof (rule linorder_cases [of "pkt_seq p" "recv_base (rx s)"])
      assume "pkt_seq p < recv_base (rx s)"
      moreover from this have "\<not> later (unat (recv_base (rx s))) p"
        by (simp add: later_def word_less_nat_alt)
      ultimately show ?thesis
        using reack_core [OF inv Cons] by (auto simp: ReceivePacket_old)
    qed (use recv_expected_core [OF inv Cons 2(2)] recv_later_core [OF inv Cons 2(2)] in blast)+
    then show ?thesis
      using step [OF 2(1)] dups' by (auto simp: net_inv_core)
  qed
qed

subsection \<open>Receiving an acknowledgement\<close>

lemma frame_capacity [simp]: "core_inv b (s\<lparr>tx := set_capacity c (tx s)\<rparr>) = core_inv b s"
  by (simp add: core_inv_def frame_tx)

lemma ack_refresh_core:
  assumes inv: "core_inv b s" and acks: "ack_ch s = a # as" and neq: "a \<noteq> send_base (tx s)"
  shows "\<exists>t w. NewAckedPacket el m (tx s) a =
      Inr (\<lparr>ack_refreshed = True, dup_ack = False, re_transmit = False, rtt = t\<rparr>, w, kMaxDuplicatedAcksOrigin) \<and>
    core_inv b (s\<lparr>tx := w, max_dups := m', ack_ch := as\<rparr>) \<and> duplicated_acks w = 0 \<and>
    length (pkts_to_ack w) < length (pkts_to_ack (tx s)) \<and> send_base w = a"
proof -
  have st: "streams_inv b s" and strm: "stream b (sent s)" and ak: "acks_inv b s" and wf: "sw_wf (tx s)"
    using inv by (auto simp: core_inv_def streams_inv_def)
  obtain xs zs where xs: "sent s = xs @ zs" "a = b + of_nat (seq_span xs)"
    using ak acks by (auto simp: acks_inv_def prefix_def)
  obtain acked where acked: "sent s = acked @ window_pkts (tx s)" "send_base (tx s) = b + of_nat (seq_span acked)"
    using st by (auto simp: streams_inv_def)
  have pos: "\<forall>p \<in> set (sent s). 0 < pkt_len p" using strm by (simp add: stream_def)
  have ua: "unat a = unat b + seq_span xs" and ub: "unat (send_base (tx s)) = unat b + seq_span acked"
    using strm xs acked by (metis stream_append unat_stream_end)+
  have le: "unat (send_base (tx s)) \<le> unat a" "unat a \<le> unat (recv_base (rx s))"
    and sorted_as: "sorted (map unat (a # as @ [recv_base (rx s)]))"
    using ak acks by (auto simp: acks_inv_def)
  obtain us where us: "xs = acked @ us" "window_pkts (tx s) = us @ zs"
    using append_span_prefix [of acked "window_pkts (tx s)" xs zs] xs(1) acked(1) pos le(1) ua ub by auto
  have "us \<noteq> []" using neq us(1) xs(2) acked(2) by auto
  let ?k = "length us" and ?w = "acked_window (length us) a (tx s)"
  have take: "take ?k (window_pkts (tx s)) = us" "drop ?k (window_pkts (tx s)) = zs"
    by (simp_all add: us(2))
  have an: "a = send_base (tx s) + of_nat (seq_span (take ?k (window_pkts (tx s))))"
    unfolding take using xs(2) acked(2) us(1) by (simp add: add.assoc)
  have len: "length (window_pkts (tx s)) = length us + length zs" unfolding us(2) by simp
  have "send_base (tx s) < a" using le(1) neq by (simp add: word_less_nat_alt order_less_le u32_eq_iff)
  then obtain t where new: "NewAckedPacket el m (tx s) a =
      Inr (\<lparr>ack_refreshed = True, dup_ack = False, re_transmit = False, rtt = t\<rparr>, ?w, kMaxDuplicatedAcksOrigin)"
    using NewAckedPacket_prefix [OF wf _ _ an, of el m] \<open>us \<noteq> []\<close> len by auto
  have "prefix xs (delivered s)"
    using append_span_prefix [of xs zs "delivered s" "pending s"] sent_pending [OF st] xs(1) pos le(2) ua
      unat_recv_base [OF st] by auto
  then have "streams_inv b (s\<lparr>tx := ?w, max_dups := m', ack_ch := as\<rparr>)"
    using st xs sw_wf_acked [OF wf an] take(2) by (simp add: streams_inv_def drop_map)
  moreover have "acks_inv b (s\<lparr>tx := ?w, max_dups := m', ack_ch := as\<rparr>)"
    using ak acks sorted_as by (simp add: acks_inv_def)
  ultimately have "core_inv b (s\<lparr>tx := ?w, max_dups := m', ack_ch := as\<rparr>)"
    using inv by (simp add: core_inv_def)
  with new \<open>us \<noteq> []\<close> len show ?thesis by auto
qed

lemma ack_pop_core:
  assumes "core_inv b s" "ack_ch s = a # as"
    and "send_base w = send_base (tx s)" "pkts_to_ack w = pkts_to_ack (tx s)" "sw_size w = sw_size (tx s)"
  shows "core_inv b (s\<lparr>tx := w, max_dups := m, ack_ch := as\<rparr>)"
proof -
  have "acks_inv b (s\<lparr>tx := w, max_dups := m, ack_ch := as\<rparr>)"
    using assms(1-3) by (simp add: core_inv_def acks_inv_def)
  then show ?thesis
    using assms(1) frame_tx(1) [OF assms(3-5)] by (simp add: core_inv_def)
qed

text \<open>The duplicate counter's potential grows by at most one with each acknowledgement.\<close>

lemma dup_ack_outcome:
  assumes "3 \<le> unat m" "2 * unat m + unat (duplicated_acks w) \<le> 6 + n" "n < 2147483648"
  shows "\<exists>r w' m'. NewAckedPacket el m w (send_base w) = Inr (r, w', m') \<and> dup_ack r \<and>
    send_base w' = send_base w \<and> pkts_to_ack w' = pkts_to_ack w \<and> sw_size w' = sw_size w \<and>
    3 \<le> unat m' \<and> 2 * unat m' + unat (duplicated_acks w') \<le> 7 + n \<and>
    (if re_transmit r then 2 \<le> unat (duplicated_acks w) \<and> duplicated_acks w' = 0
     else duplicated_acks w' = duplicated_acks w + 1)"
proof -
  have d: "unat (duplicated_acks w + 1) = unat (duplicated_acks w) + 1"
    using assms by (subst unat_add_u32) simp_all
  have fits: "unat m * 3 div 2 < 4294967296" using assms by linarith
  show ?thesis
  proof (cases "m \<le> duplicated_acks w + 1")
    case True
    then have ge: "unat m \<le> unat (duplicated_acks w) + 1" using d by (simp add: word_le_nat_alt)
    have "unat (of_nat (unat m * 3 div 2) :: uint32) = unat m * 3 div 2"
      using fits by (rule unat_of_nat_u32)
    moreover have "3 \<le> unat m * 3 div 2" "2 * (unat m * 3 div 2) \<le> 7 + n"
      using ge assms by arith+
    ultimately show ?thesis
      using True ge assms by (simp add: NewAckedPacket_dup scale_max_ok [OF fits])
  next
    case False
    with d assms show ?thesis by (simp add: NewAckedPacket_dup)
  qed
qed

lemma recv_ack_step_inv:
  assumes "net_inv b n s" "n < 2147483648"
  shows "\<exists>s'. recv_ack_step el s rwnd = Inr s' \<and> net_inv b (Suc n) s' \<and> sent s' = sent s"
proof (cases "ack_ch s")
  case Nil
  with assms(1) show ?thesis by (simp add: recv_ack_step_def net_inv_core dups_inv_def)
next
  case (Cons a as)
  have inv: "core_inv b s" and dups: "dups_inv n s" using assms(1) by (auto simp: net_inv_core)
  show ?thesis
  proof (cases "a = send_base (tx s)")
    case False
    obtain t w where new: "NewAckedPacket el (max_dups s) (tx s) a =
        Inr (\<lparr>ack_refreshed = True, dup_ack = False, re_transmit = False, rtt = t\<rparr>, w, kMaxDuplicatedAcksOrigin)"
      and core: "core_inv b (s\<lparr>tx := w, max_dups := kMaxDuplicatedAcksOrigin, ack_ch := as\<rparr>)"
      and d: "duplicated_acks w = 0"
      using ack_refresh_core [OF inv Cons False, of el "max_dups s"] by blast
    let ?s = "s\<lparr>tx := w, max_dups := kMaxDuplicatedAcksOrigin, ack_ch := as\<rparr>"
    have "core_inv b (?s\<lparr>tx := set_capacity rwnd (tx ?s)\<rparr>)"
      using core by (simp only: frame_capacity)
    moreover have "recv_ack_step el s rwnd = Inr (?s\<lparr>tx := set_capacity rwnd (tx ?s)\<rparr>)"
      using new Cons by (simp add: recv_ack_step_def Let_def)
    moreover have "dups_inv (Suc n) (?s\<lparr>tx := set_capacity rwnd (tx ?s)\<rparr>)"
      using dups d Cons by (simp add: dups_inv_def kMaxDuplicatedAcksOrigin_def)
    ultimately show ?thesis by (auto simp: net_inv_core)
  next
    case True
    obtain r w m where new: "NewAckedPacket el (max_dups s) (tx s) a = Inr (r, w, m)"
      and w: "send_base w = send_base (tx s)" "pkts_to_ack w = pkts_to_ack (tx s)" "sw_size w = sw_size (tx s)"
      and m: "3 \<le> unat m" "2 * unat m + unat (duplicated_acks w) \<le> 7 + n"
      using dup_ack_outcome [of "max_dups s" "tx s" n el] dups assms(2) True by (auto simp: dups_inv_def)
    let ?s = "s\<lparr>tx := w, max_dups := m, ack_ch := as\<rparr>"
    have core: "core_inv b ?s" using ack_pop_core [OF inv Cons w] .
    obtain s' where s': "(if re_transmit r then resend_base ?s else Inr ?s) = Inr s'"
      and core': "core_inv b s'" and same: "same_but_resent ?s s'"
      using resend_base_core [OF core] core by (cases "re_transmit r") (auto simp: same_but_resent_def)
    have "recv_ack_step el s rwnd = Inr (s'\<lparr>tx := set_capacity rwnd (tx s')\<rparr>)"
      using new Cons s' by (simp add: recv_ack_step_def Let_def)
    moreover have "dups_inv (Suc n) (s'\<lparr>tx := set_capacity rwnd (tx s')\<rparr>)"
      using dups Cons same m by (auto simp: dups_inv_def same_but_resent_def)
    ultimately show ?thesis
      using core' same by (auto simp: net_inv_core same_but_resent_def)
  qed
qed

section \<open>Runs\<close>

lemma net_step_inv:
  assumes "net_inv b n s" "valid_event e" "unat b + seq_span (sent s) + load [e] < 4294967296"
    and "n < 2147483648"
  shows "\<exists>s'. net_step el s e = Inr s' \<and> net_inv b (Suc n) s' \<and> seq_span (sent s') \<le> seq_span (sent s) + load [e]"
proof (cases e)
  case (Send_data p)
  with send_data_step_inv [OF assms(1), of p] assms(2,3) show ?thesis by simp
next
  case Timeout
  obtain s' where "resend_base s = Inr s'" "core_inv b s'" "same_but_resent s s'"
    using resend_base_core assms(1) by (auto simp: net_inv_core)
  moreover from this have "net_inv b (Suc n) s'" "sent s' = sent s"
    using same_but_resent_dups assms(1) by (auto simp: net_inv_core same_but_resent_def)
  moreover have "net_inv b (Suc n) s"
    using assms(1) by (auto simp: net_inv_core dups_inv_def)
  ultimately show ?thesis using Timeout by simp
next
  case (Recv_ack c)
  with recv_ack_step_inv [OF assms(1,4), of el c] show ?thesis by auto
qed (use assms recv_data_step_inv [OF assms(1)] in
  \<open>auto intro: probe_step_inv lose_data_inv lose_ack_inv\<close>)

lemma load_Cons: "load (e # es) = load [e] + load es"
  by (cases e) simp_all

lemma load_append: "load (es @ fs) = load es + load fs"
proof (induction es)
  case (Cons e es)
  then show ?case using load_Cons [of e "es @ fs"] load_Cons [of e es] by simp
qed simp

lemma net_run_inv:
  assumes "net_inv b n s" "list_all valid_event es" "unat b + seq_span (sent s) + load es < 4294967296"
    and "n + length es \<le> 2147483648"
  shows "\<exists>s'. net_run el s es = Inr s' \<and> net_inv b (n + length es) s' \<and>
    seq_span (sent s') \<le> seq_span (sent s) + load es"
  using assms
proof (induction es arbitrary: n s)
  case (Cons e es)
  obtain s1 where s1: "net_step el s e = Inr s1" "net_inv b (Suc n) s1"
    "seq_span (sent s1) \<le> seq_span (sent s) + load [e]"
    using net_step_inv [OF Cons.prems(1), of e el] Cons.prems(2-4) load_Cons [of e es] by auto
  then obtain s' where "net_run el s1 es = Inr s'" "net_inv b (Suc n + length es) s'"
    "seq_span (sent s') \<le> seq_span (sent s1) + load es"
    using Cons.IH [OF s1(2)] Cons.prems(2-4) load_Cons [of e es] by auto
  with s1 load_Cons [of e es] show ?case by auto
qed simp

lemma net_run_append:
  "net_run el s (es @ fs) = bindR (net_run el s es) (\<lambda>s'. net_run el s' fs)"
  by (induction es arbitrary: s) (auto simp: bindR_def split: sum.splits)

lemma prefix_concat_map: "prefix xs ys \<Longrightarrow> prefix (concat (map f xs)) (concat (map f ys))"
  by (auto simp: prefix_def)

section \<open>Progress without losses\<close>

text \<open>
  Draining the channels: as long as something is in flight, receiving it makes the measure
  \<open>3 * acks + 4 * data + 2 * duplicates\<close> smaller, also when a duplicate triggers a fast
  re-transmission.
\<close>

definition drain_measure :: "net \<Rightarrow> nat" where
  "drain_measure s = 3 * length (ack_ch s) + 4 * length (data_ch s) + 2 * unat (duplicated_acks (tx s))"

definition drain_event :: "net \<Rightarrow> net_event" where
  "drain_event s = (if data_ch s \<noteq> [] then Recv_data else Recv_ack (capacity (tx s)))"

lemma recv_data_step_shape:
  assumes "recv_data_step s = Inr s'" "data_ch s = p # ps"
  shows "data_ch s' = ps \<and> length (ack_ch s') = Suc (length (ack_ch s)) \<and> tx s' = tx s \<and> sent s' = sent s"
  using assms by (auto simp: recv_data_step_def bindR_Inr_iff split: if_splits)

lemma recv_ack_step_shape:
  assumes inv: "net_inv b n s" and n: "n < 2147483648" and acks: "ack_ch s = a # as"
    and step: "recv_ack_step el s c = Inr s'"
  shows "drain_measure s' < drain_measure s" "sent s' = sent s" "delivered s' = delivered s" "rx s' = rx s"
    "length (pkts_to_ack (tx s')) \<le> length (pkts_to_ack (tx s))"
proof -
  have core: "core_inv b s" and dups: "dups_inv n s" using inv by (auto simp: net_inv_core)
  have "drain_measure s' < drain_measure s \<and> sent s' = sent s \<and> delivered s' = delivered s \<and>
    rx s' = rx s \<and> length (pkts_to_ack (tx s')) \<le> length (pkts_to_ack (tx s))"
  proof (cases "a = send_base (tx s)")
    case False
    obtain t w where "NewAckedPacket el (max_dups s) (tx s) a =
        Inr (\<lparr>ack_refreshed = True, dup_ack = False, re_transmit = False, rtt = t\<rparr>, w, kMaxDuplicatedAcksOrigin)"
      "duplicated_acks w = 0" "length (pkts_to_ack w) < length (pkts_to_ack (tx s))"
      using ack_refresh_core [OF core acks False, of el "max_dups s"] by blast
    with step acks show ?thesis
      by (auto simp: recv_ack_step_def drain_measure_def Let_def)
  next
    case True
    obtain r w m where new: "NewAckedPacket el (max_dups s) (tx s) a = Inr (r, w, m)"
      and w: "send_base w = send_base (tx s)" "pkts_to_ack w = pkts_to_ack (tx s)" "sw_size w = sw_size (tx s)"
      and d: "if re_transmit r then 2 \<le> unat (duplicated_acks (tx s)) \<and> duplicated_acks w = 0
        else duplicated_acks w = duplicated_acks (tx s) + 1"
      using dup_ack_outcome [of "max_dups s" "tx s" n el] dups n True by (auto simp: dups_inv_def)
    let ?s = "s\<lparr>tx := w, max_dups := m, ack_ch := as\<rparr>"
    obtain s1 where s1: "resend_base ?s = Inr s1" "same_but_resent ?s s1"
      using resend_base_core [OF ack_pop_core [OF core acks w]] by blast
    have "unat (duplicated_acks (tx s) + 1) = unat (duplicated_acks (tx s)) + 1"
      using dups n by (subst unat_add_u32) (simp_all add: dups_inv_def)
    with step new s1 acks d w show ?thesis
      by (cases "re_transmit r")
        (auto simp: recv_ack_step_def drain_measure_def same_but_resent_def)
  qed
  then show "drain_measure s' < drain_measure s" "sent s' = sent s" "delivered s' = delivered s"
    "rx s' = rx s" "length (pkts_to_ack (tx s')) \<le> length (pkts_to_ack (tx s))" by auto
qed

text \<open>Receiving and timing out, nothing new sent and nothing lost.\<close>

fun loss_free :: "net_event \<Rightarrow> bool" where
  "loss_free Timeout = True"
| "loss_free Recv_data = True"
| "loss_free (Recv_ack c) = True"
| "loss_free _ = False"

lemma loss_free_valid: "loss_free e \<Longrightarrow> valid_event e \<and> load [e] = 0"
  by (cases e) simp_all

lemma loss_free_step:
  assumes "net_inv b n s" "loss_free e" "n < 2147483648"
  shows "\<exists>s'. net_step el s e = Inr s' \<and> net_inv b (Suc n) s'"
proof -
  have "unat b + seq_span (sent s) + load [e] < 4294967296"
    using assms(1) loss_free_valid [OF assms(2)] by (simp add: net_inv_def streams_inv_def stream_def)
  then show ?thesis
    using net_step_inv [OF assms(1) _ _ assms(3)] loss_free_valid [OF assms(2)] by blast
qed

lemma drain_step:
  assumes "net_inv b n s" "n < 2147483648" "data_ch s \<noteq> [] \<or> ack_ch s \<noteq> []"
  shows "\<exists>s'. net_step el s (drain_event s) = Inr s' \<and> net_inv b (Suc n) s' \<and>
    drain_measure s' < drain_measure s \<and> sent s' = sent s \<and>
    length (pkts_to_ack (tx s')) \<le> length (pkts_to_ack (tx s))"
proof -
  have "loss_free (drain_event s)" by (simp add: drain_event_def)
  then obtain s' where s': "net_step el s (drain_event s) = Inr s'" "net_inv b (Suc n) s'"
    using loss_free_step assms(1,2) by blast
  show ?thesis
  proof (cases "data_ch s")
    case Nil
    with assms(3) obtain a as where as: "ack_ch s = a # as" by (cases "ack_ch s") auto
    have "recv_ack_step el s (capacity (tx s)) = Inr s'"
      using s'(1) Nil by (simp add: drain_event_def)
    from recv_ack_step_shape [OF assms(1,2) as this] s' show ?thesis by blast
  next
    case (Cons p ps)
    then have "recv_data_step s = Inr s'" using s'(1) by (simp add: drain_event_def)
    from recv_data_step_shape [OF this Cons] s' Cons show ?thesis by (auto simp: drain_measure_def)
  qed
qed

definition quiet :: "net \<Rightarrow> bool" where
  "quiet s \<longleftrightarrow> data_ch s = [] \<and> ack_ch s = []"

lemma drain_channels:
  assumes "net_inv b n s" "n + drain_measure s \<le> 2147483648"
  shows "\<exists>es s'. net_run el s es = Inr s' \<and> list_all loss_free es \<and> length es \<le> drain_measure s \<and>
    net_inv b (n + length es) s' \<and> quiet s' \<and> sent s' = sent s \<and>
    length (pkts_to_ack (tx s')) \<le> length (pkts_to_ack (tx s))"
  using assms
proof (induction "drain_measure s" arbitrary: s n rule: less_induct)
  case less
  show ?case
  proof (cases "quiet s")
    case True
    with less.prems show ?thesis by (intro exI [of _ "[]"]) simp
  next
    case False
    then have ne: "data_ch s \<noteq> [] \<or> ack_ch s \<noteq> []" by (simp add: quiet_def)
    then have "0 < drain_measure s" by (auto simp: drain_measure_def)
    then have "n < 2147483648" using less.prems(2) by simp
    from drain_step [OF less.prems(1) this ne, of el] obtain s1 where
      s1: "net_step el s (drain_event s) = Inr s1" "net_inv b (Suc n) s1" "drain_measure s1 < drain_measure s"
        "sent s1 = sent s" "length (pkts_to_ack (tx s1)) \<le> length (pkts_to_ack (tx s))" by blast
    from less.hyps [OF s1(3,2)] s1(3) less.prems(2) obtain es s' where
      es: "net_run el s1 es = Inr s'" "list_all loss_free es" "length es \<le> drain_measure s1"
        "net_inv b (Suc n + length es) s'" "quiet s'" "sent s' = sent s1"
        "length (pkts_to_ack (tx s')) \<le> length (pkts_to_ack (tx s1))" by auto
    have "loss_free (drain_event s)" by (simp add: drain_event_def)
    with s1 es show ?thesis by (intro exI [of _ "drain_event s # es"]) auto
  qed
qed

lemma ReceivePacket_ack: "ReceivePacket w p = Inr (a, run, w') \<Longrightarrow> a = recv_base w'"
  by (auto simp: ReceivePacket_def bindR_Inr_iff Let_def split: if_splits prod.splits)

text \<open>One round trip of the base packet over quiet channels acknowledges something new.\<close>

lemma base_received:
  assumes core: "core_inv b s" and data: "data_ch s = [p]" and p: "p \<in> set (sent s)"
    and seq: "pkt_seq p = send_base (tx s)"
    and step: "recv_data_step s = Inr s'"
  shows "data_ch s' = [] \<and> tx s' = tx s \<and> (\<exists>a. ack_ch s' = ack_ch s @ [a] \<and> a \<noteq> send_base (tx s))"
proof -
  have st: "streams_inv b s" and strm: "stream b (sent s)"
    using core by (auto simp: core_inv_def streams_inv_def)
  have "payload_size p \<noteq> 0"
    using stream_ge(3) [OF strm p] by (auto simp: in_space_def)
  then obtain a run w where rcv: "ReceivePacket (rx s) p = Inr (a, run, w)"
    and s': "s' = received s a run w"
    using step data by (auto simp: recv_data_step_def bindR_Inr_iff received_def)
  have "a \<noteq> send_base (tx s)"
  proof (cases "pkt_seq p = recv_base (rx s)")
    case True
    from recv_expected_core [OF core data p True] rcv have
      c: "core_inv b (received s a run w)" "run \<noteq> []" by auto
    then have st': "streams_inv b (received s a run w)" by (simp add: core_inv_def)
    have "set run \<subseteq> set (sent s)"
      using sent_pending [OF st'] by (auto simp: received_def)
    then have "0 < seq_span run"
      using c(2) strm by (intro span_pos) (auto simp: stream_def)
    then have "unat (recv_base (rx s)) < unat (recv_base w)"
      using unat_recv_base [OF st] unat_recv_base [OF st'] by (simp add: received_def)
    then show ?thesis
      using True seq ReceivePacket_ack [OF rcv] by auto
  next
    case False
    with send_base_le_recv_base [OF st] seq have "pkt_seq p < recv_base (rx s)"
      by (simp add: word_less_nat_alt order_less_le u32_eq_iff)
    then show ?thesis using rcv seq by (auto simp: ReceivePacket_old)
  qed
  then show ?thesis using data s' by (simp add: received_def)
qed

lemma round_trip_steps:
  assumes inv: "net_inv b n s" and q: "quiet s" and ne: "pkts_to_ack (tx s) \<noteq> []"
    and n: "n + 3 \<le> 2147483648"
  shows "\<exists>s1 s2. NumPacketsToAck (tx s) > 0 \<and> net_step el s Timeout = Inr s1 \<and> net_step el s1 Recv_data = Inr s2 \<and>
    length (data_ch s1) = 1 \<and> ack_ch s1 = [] \<and> drain_measure s1 = drain_measure s + 4 \<and>
    net_inv b (Suc (Suc n)) s2 \<and>
    (\<forall>c s3. net_step el s2 (Recv_ack c) = Inr s3 \<longrightarrow> quiet s3 \<and> sent s3 = sent s \<and>
      length (pkts_to_ack (tx s3)) < length (pkts_to_ack (tx s)))"
proof -
  obtain x xs where pk: "pkts_to_ack (tx s) = x # xs" using ne by (cases "pkts_to_ack (tx s)") auto
  have core: "core_inv b s" using inv by (simp add: net_inv_core)
  then obtain s1 where s1: "resend_base s = Inr s1" "core_inv b s1" "same_but_resent s s1"
      "data_ch s1 = [node_pkt x]"
    using resend_base_core [OF core] pk q by (auto simp: quiet_def)
  have "length (pkts_to_ack (tx s)) \<le> n"
    using inv by (auto simp: net_inv_def streams_inv_def dups_inv_def dest: arg_cong [where f = length])
  then have num: "NumPacketsToAck (tx s) > 0"
    using pk n by (simp add: NumPacketsToAck_def word_less_nat_alt unat_of_nat_u32 del: of_nat_Suc)
  then have t1: "net_step el s Timeout = Inr s1" using s1(1) by simp
  then have i1: "net_inv b (Suc n) s1" using loss_free_step [OF inv, of Timeout el] n by auto
  have x: "node_pkt x \<in> set (sent s1)" "pkt_seq (node_pkt x) = send_base (tx s1)"
    using s1(3) core pk by (auto simp: same_but_resent_def core_inv_def streams_inv_def sw_wf_def)
  obtain s2 where t2: "net_step el s1 Recv_data = Inr s2" and i2: "net_inv b (Suc (Suc n)) s2"
    using loss_free_step [OF i1, of Recv_data el] n by auto
  obtain a where s2: "data_ch s2 = []" "tx s2 = tx s1" "ack_ch s2 = [a]" "a \<noteq> send_base (tx s2)"
    using base_received [OF s1(2,4) x, of s2] t2 s1(3) q by (auto simp: same_but_resent_def quiet_def)
  obtain t w where new: "NewAckedPacket el (max_dups s2) (tx s2) a =
      Inr (\<lparr>ack_refreshed = True, dup_ack = False, re_transmit = False, rtt = t\<rparr>, w, kMaxDuplicatedAcksOrigin)"
    and w: "length (pkts_to_ack w) < length (pkts_to_ack (tx s2))"
    using ack_refresh_core [of b s2 a "[]" el "max_dups s2" 0] i2 s2 by (auto simp: net_inv_core)
  have s3: "net_step el s2 (Recv_ack c) =
      Inr (s2\<lparr>max_dups := kMaxDuplicatedAcksOrigin, ack_ch := [], tx := set_capacity c w\<rparr>)" for c
    using new s2(3) by (simp add: recv_ack_step_def)
  have "sent s2 = sent s"
    using recv_data_step_shape [of s1 s2] t2 s1(3,4) by (auto simp: same_but_resent_def)
  moreover have "drain_measure s1 = drain_measure s + 4"
    using s1(3,4) q by (simp add: drain_measure_def same_but_resent_def quiet_def)
  moreover have "ack_ch s1 = []" using s1(3) q by (simp add: same_but_resent_def quiet_def)
  ultimately show ?thesis
    using t1 t2 i2 num s1 s2 s3 w
    by (intro exI [of _ s1] exI [of _ s2]) (auto simp: quiet_def same_but_resent_def)
qed

lemma round_trip:
  assumes inv: "net_inv b n s" and q: "quiet s" and ne: "pkts_to_ack (tx s) \<noteq> []"
    and n: "n + 3 \<le> 2147483648"
  shows "\<exists>es s'. net_run el s es = Inr s' \<and> list_all loss_free es \<and> length es = 3 \<and>
    net_inv b (n + 3) s' \<and> quiet s' \<and> sent s' = sent s \<and>
    length (pkts_to_ack (tx s')) < length (pkts_to_ack (tx s))"
proof -
  obtain s1 s2 where t: "net_step el s Timeout = Inr s1" "net_step el s1 Recv_data = Inr s2"
      "net_inv b (Suc (Suc n)) s2"
    and last: "\<forall>c s3. net_step el s2 (Recv_ack c) = Inr s3 \<longrightarrow> quiet s3 \<and> sent s3 = sent s \<and>
      length (pkts_to_ack (tx s3)) < length (pkts_to_ack (tx s))"
    using round_trip_steps [OF assms] by blast
  obtain s3 where s3: "net_step el s2 (Recv_ack (capacity (tx s2))) = Inr s3" "net_inv b (Suc (Suc (Suc n))) s3"
    using loss_free_step [OF t(3), of "Recv_ack (capacity (tx s2))" el] n by auto
  with t last show ?thesis
    by (intro exI [of _ "[Timeout, Recv_data, Recv_ack (capacity (tx s2))]"] exI [of _ s3])
      (auto simp: numeral_3_eq_3)
qed

lemma deliver_all:
  assumes "net_inv b n s" "quiet s" "n + 3 * length (pkts_to_ack (tx s)) \<le> 2147483648"
  shows "\<exists>es s'. net_run el s es = Inr s' \<and> list_all loss_free es \<and>
    length es \<le> 3 * length (pkts_to_ack (tx s)) \<and> net_inv b (n + length es) s' \<and>
    sent s' = sent s \<and> pkts_to_ack (tx s') = []"
  using assms
proof (induction "length (pkts_to_ack (tx s))" arbitrary: s n rule: less_induct)
  case less
  show ?case
  proof (cases "pkts_to_ack (tx s) = []")
    case True
    with less.prems show ?thesis by (intro exI [of _ "[]"]) simp
  next
    case False
    then have "1 \<le> length (pkts_to_ack (tx s))" by (cases "pkts_to_ack (tx s)") auto
    with less.prems(3) have "n + 3 \<le> 2147483648" by linarith
    from round_trip [OF less.prems(1,2) False this, of el] obtain es1 s1 where
      s1: "net_run el s es1 = Inr s1" "list_all loss_free es1" "length es1 = 3"
        "net_inv b (n + 3) s1" "quiet s1" "sent s1 = sent s"
        "length (pkts_to_ack (tx s1)) < length (pkts_to_ack (tx s))" by blast
    have "n + 3 + 3 * length (pkts_to_ack (tx s1)) \<le> 2147483648"
      using s1(7) less.prems(3) by linarith
    from less.hyps [OF s1(7,4,5) this] obtain es s' where
      es: "net_run el s1 es = Inr s'" "list_all loss_free es"
        "length es \<le> 3 * length (pkts_to_ack (tx s1))" "net_inv b (n + 3 + length es) s'"
        "sent s' = sent s1" "pkts_to_ack (tx s') = []" by blast
    have "length (es1 @ es) \<le> 3 * length (pkts_to_ack (tx s))" using es(3) s1(3,7) by simp
    with s1 es show ?thesis
      by (intro exI [of _ "es1 @ es"] exI [of _ s']) (simp add: net_run_append add.assoc)
  qed
qed

lemma all_delivered:
  assumes "net_inv b n s" "pkts_to_ack (tx s) = []"
  shows "delivered s = sent s"
  using assms by (auto simp: net_inv_def streams_inv_def intro: prefix_order.antisym)

lemma drain_bound:
  assumes "net_inv b n s"
  shows "drain_measure s \<le> 6 * n" "length (pkts_to_ack (tx s)) \<le> n"
proof -
  have "length (data_ch s) + length (ack_ch s) \<le> n" "unat (duplicated_acks (tx s)) \<le> n"
    using assms by (auto simp: net_inv_def dups_inv_def)
  then show "drain_measure s \<le> 6 * n" by (simp add: drain_measure_def)
  show "length (pkts_to_ack (tx s)) \<le> n"
    using assms by (auto simp: net_inv_def streams_inv_def dups_inv_def dest: arg_cong [where f = length])
qed

lemma net_progress:
  assumes inv: "net_inv b n s" and n: "n \<le> 200000000"
  shows "\<exists>es s'. net_run el s es = Inr s' \<and> list_all loss_free es \<and> length es \<le> 9 * n \<and>
    sent s' = sent s \<and> delivered s' = sent s \<and> pkts_to_ack (tx s') = []"
proof -
  note d = drain_bound(1) [OF inv] and len = drain_bound(2) [OF inv]
  have "n + drain_measure s \<le> 2147483648" using n d by linarith
  from drain_channels [OF inv this, of el] obtain es1 s1 where
    s1: "net_run el s es1 = Inr s1" "list_all loss_free es1" "length es1 \<le> drain_measure s"
      "net_inv b (n + length es1) s1" "quiet s1" "sent s1 = sent s"
      "length (pkts_to_ack (tx s1)) \<le> length (pkts_to_ack (tx s))" by blast
  have "n + length es1 + 3 * length (pkts_to_ack (tx s1)) \<le> 2147483648"
    using s1(3,7) d len n by linarith
  from deliver_all [OF s1(4,5) this, of el] obtain es2 s2 where
    s2: "net_run el s1 es2 = Inr s2" "list_all loss_free es2"
      "length es2 \<le> 3 * length (pkts_to_ack (tx s1))" "net_inv b (n + length es1 + length es2) s2"
      "sent s2 = sent s1" "pkts_to_ack (tx s2) = []" by blast
  have "length (es1 @ es2) \<le> 9 * n" using s1(3,7) s2(3) d len by simp
  with s1 s2 all_delivered [OF s2(4,6)] show ?thesis
    by (intro exI [of _ "es1 @ es2"] exI [of _ s2]) (simp add: net_run_append)
qed

section \<open>Properties\<close>

text \<open>
  C4. Reliable transfer over a lossy first-in first-out channel. Whatever the interleaving of
  sends, time-outs, probes, losses and receptions (fewer than \<open>2^31\<close> of them, using less than
  the remaining sequence space), no sanity check of either window ever fails, and the packets
  delivered to the receiver are always a prefix, in order and without duplicates, of the packets
  sent; so are their bytes. The receive base is the end of what was delivered and lies between
  the send base and the next sequence number.
\<close>

theorem lossy_transfer_is_safe_and_in_order:
  assumes "list_all valid_event es" "unat b + load es < 4294967296" "length es \<le> 2147483648"
  shows "\<exists>s. net_run elapsed (net_init b scap rcap) es = Inr s \<and>
    prefix (delivered s) (sent s) \<and>
    prefix (concat (map pkt_bytes (delivered s))) (concat (map pkt_bytes (sent s))) \<and>
    recv_base (rx s) = b + of_nat (seq_span (delivered s)) \<and>
    send_base (tx s) \<le> recv_base (rx s) \<and> recv_base (rx s) \<le> NextSeqNumberToSend (tx s)"
proof -
  obtain s where run: "net_run elapsed (net_init b scap rcap) es = Inr s"
    and inv: "net_inv b (length es) s"
    using net_run_inv [OF net_inv_init, of es b scap rcap elapsed] assms
    by (auto simp: net_init_def)
  have st: "streams_inv b s" using inv by (simp add: net_inv_def)
  have "unat b + seq_span (delivered s) \<le> unat (NextSeqNumberToSend (tx s))"
    using st sent_pending [OF st] unfolding next_seq_sent [OF st]
    by (metis le_add1 add.assoc span_simps(3) streams_inv_def unat_stream_end)
  with st run show ?thesis
    using send_base_le_recv_base [OF st] unat_recv_base [OF st] prefix_concat_map
    by (auto simp: streams_inv_def word_le_nat_alt)
qed

text \<open>
  C5. Progress. From every state such a run reaches, there is a continuation that only
  receives what is in flight and lets the re-transmission timer expire, with no loss, at most
  nine times as long as the run, after which everything sent is delivered and acknowledged.
\<close>

theorem transfer_can_always_complete:
  assumes "list_all valid_event es" "unat b + load es < 4294967296" "length es \<le> 200000000"
    and "net_run elapsed (net_init b scap rcap) es = Inr s"
  shows "\<exists>fs s'. net_run elapsed s fs = Inr s' \<and> list_all loss_free fs \<and>
    length fs \<le> 9 * length es \<and> sent s' = sent s \<and> delivered s' = sent s \<and>
    pkts_to_ack (tx s') = []"
proof -
  have "net_inv b (length es) s"
    using net_run_inv [OF net_inv_init, of es b scap rcap elapsed] assms
    by (auto simp: net_init_def)
  then show ?thesis using assms(3) by (rule net_progress)
qed

text \<open>
  An example run: two packets, the first copy of the first one is lost, the second arrives
  out of order, the timer expires.
\<close>

definition example_events :: "net_event list" where
  "example_events = [Send_data (test_pkt 0 [1, 2, 3]), Send_data (test_pkt 3 [4, 5]), Lose_data 0,
     Recv_data, Recv_ack 50, Timeout, Recv_data, Recv_ack 60]"

lemma example_events_ok:
  "list_all valid_event example_events" "load example_events = 5" "length example_events = 8"
  by (simp_all add: example_events_def test_pkt_def Packet_string_def pkt_normal_def)

theorem lossy_transfer_is_safe_and_in_order_witness:
  "\<exists>s. net_run (\<lambda>_. 7) (net_init 0 100 100) example_events = Inr s \<and>
    prefix (delivered s) (sent s) \<and>
    prefix (concat (map pkt_bytes (delivered s))) (concat (map pkt_bytes (sent s))) \<and>
    recv_base (rx s) = 0 + of_nat (seq_span (delivered s)) \<and>
    send_base (tx s) \<le> recv_base (rx s) \<and> recv_base (rx s) \<le> NextSeqNumberToSend (tx s)"
  by (rule lossy_transfer_is_safe_and_in_order) (simp_all add: example_events_ok)

theorem transfer_can_always_complete_witness:
  "\<exists>s. net_run (\<lambda>_. 7) (net_init 0 100 100) (take 5 example_events) = Inr s \<and> delivered s = [] \<and>
    (\<exists>fs s'. net_run (\<lambda>_. 7) s fs = Inr s' \<and> list_all loss_free fs \<and> length fs \<le> 9 * 5 \<and>
      sent s' = sent s \<and> delivered s' = sent s \<and> pkts_to_ack (tx s') = [])"
proof -
  let ?es = "take 5 example_events"
  have ok: "list_all valid_event ?es" "load ?es = 5" "length ?es = 5"
    by (simp_all add: example_events_def test_pkt_def Packet_string_def pkt_normal_def)
  have "case net_run (\<lambda>_. 7) (net_init 0 100 100) ?es of Inr s \<Rightarrow> delivered s = [] | Inl _ \<Rightarrow> False"
    by code_simp
  then obtain s where s: "net_run (\<lambda>_. 7) (net_init 0 100 100) ?es = Inr s" "delivered s = []"
    by (auto split: sum.splits)
  from transfer_can_always_complete [OF ok(1) _ _ s(1)] ok s show ?thesis by auto
qed

end
