(* ===== verification/Packet_Queue.thy ===== *)
theory Packet_Queue
  imports Packets
begin

text \<open>
  \<^verbatim>\<open>PacketQueue.h\<close>/\<^verbatim>\<open>PacketQueue.cc\<close>. First the operations as functions of the state they
  find when they hold the mutex; then the threads that call them, with the mutex, the
  condition variables and the steps of \<^verbatim>\<open>Stop\<close>, as a transition system.
\<close>

section \<open>The queue and its operations\<close>

record PacketQueue =
  packets :: "Packet list"
  destroy :: bool
  num_readers :: uint32

definition PacketQueue_new :: PacketQueue where
  "PacketQueue_new = \<lparr>packets = [], destroy = False, num_readers = 0\<rparr>"

definition Push :: "PacketQueue \<Rightarrow> Packet \<Rightarrow> bool \<times> PacketQueue" where
  "Push q p = (True, q\<lparr>packets := packets q @ [p]\<rparr>)"

text \<open>
  \<^verbatim>\<open>Push\<close> of a whole queue moves \<^verbatim>\<open>size\<close> elements, a \<^verbatim>\<open>uint32\<close>; the third component is
  what is left in the source.
\<close>

definition PushAll :: "PacketQueue \<Rightarrow> Packet list \<Rightarrow> uint32 \<times> PacketQueue \<times> Packet list" where
  "PushAll q ps =
     (let size = of_nat (length ps) :: uint32
      in (size, q\<lparr>packets := packets q @ take (unat size) ps\<rparr>, drop (unat size) ps))"

definition IncReaders :: "PacketQueue \<Rightarrow> PacketQueue" where
  "IncReaders q = q\<lparr>num_readers := num_readers q + 1\<rparr>"

text \<open>The first component tells whether the last reader has left.\<close>

definition DecReaders :: "PacketQueue \<Rightarrow> bool \<times> PacketQueue" where
  "DecReaders q = (num_readers q = 1, q\<lparr>num_readers := num_readers q - 1\<rparr>)"

text \<open>What a reader does between taking and releasing the mutex.\<close>

definition dequeue_locked :: "bool \<Rightarrow> PacketQueue \<Rightarrow> (Packet option \<times> PacketQueue) waits" where
  "dequeue_locked blocking q =
     (if \<not> blocking \<and> packets q = [] then Returns (None, q)
      else if blocking \<and> \<not> (destroy q \<or> packets q \<noteq> []) then Blocks
      else if destroy q then Returns (None, q)
      else if packets q = [] then Returns (None, q)
      else Returns (Some (hd (packets q)), q\<lparr>packets := tl (packets q)\<rparr>))"

definition dequeue_all_locked ::
  "bool \<Rightarrow> PacketQueue \<Rightarrow> Packet list \<Rightarrow> (uint32 \<times> PacketQueue \<times> Packet list) waits" where
  "dequeue_all_locked blocking q receiver_queue =
     (if \<not> blocking \<and> packets q = [] then Returns (0, q, receiver_queue)
      else if blocking \<and> \<not> (destroy q \<or> packets q \<noteq> []) then Blocks
      else if destroy q then Returns (0, q, receiver_queue)
      else if packets q = [] then Returns (0, q, receiver_queue)
      else Returns (of_nat (length (packets q)), q\<lparr>packets := receiver_queue\<rparr>, packets q))"

text \<open>
  The whole calls. A call that blocks stays registered as a reader, so the state it leaves
  is returned in that case too.
\<close>

definition DeQueue :: "bool \<Rightarrow> PacketQueue \<Rightarrow> Packet option waits \<times> PacketQueue" where
  "DeQueue blocking q =
     (case dequeue_locked blocking (IncReaders q) of
        Blocks \<Rightarrow> (Blocks, IncReaders q)
      | Returns (r, q') \<Rightarrow> (Returns r, snd (DecReaders q')))"

definition DeQueueAllTo ::
  "bool \<Rightarrow> PacketQueue \<Rightarrow> Packet list \<Rightarrow> (uint32 \<times> Packet list) waits \<times> PacketQueue" where
  "DeQueueAllTo blocking q receiver_queue =
     (case dequeue_all_locked blocking (IncReaders q) receiver_queue of
        Blocks \<Rightarrow> (Blocks, IncReaders q)
      | Returns (n, q', rq) \<Rightarrow> (Returns (n, rq), snd (DecReaders q')))"

definition Stop :: "PacketQueue \<Rightarrow> unit waits \<times> PacketQueue" where
  "Stop q =
     (if destroy q then (Returns (), q)
      else (if num_readers q \<le> 0 then Returns () else Blocks, q\<lparr>destroy := True\<rparr>))"

definition pq_size :: "PacketQueue \<Rightarrow> uint32" where
  "pq_size q = of_nat (length (packets q))"

definition pq_empty :: "PacketQueue \<Rightarrow> bool" where
  "pq_empty q \<longleftrightarrow> packets q = []"

section \<open>The contract of the queue\<close>

text \<open>
  What the listeners of the channel, the host and the controllers rely on: pushing appends,
  and taking everything hands over the contents in order and leaves the queue empty.
\<close>

locale packet_fifo =
  fixes invar :: "'q \<Rightarrow> bool"
    and contents :: "'q \<Rightarrow> 'p list"
    and push :: "'q \<Rightarrow> 'p \<Rightarrow> 'q"
    and push_all :: "'q \<Rightarrow> 'p list \<Rightarrow> 'q"
    and take_all :: "'q \<Rightarrow> 'p list \<times> 'q"
  assumes push_law: "invar q \<Longrightarrow> invar (push q p) \<and> contents (push q p) = contents q @ [p]"
    and push_all_law: "invar q \<Longrightarrow> length ps < 4294967296 \<Longrightarrow>
      invar (push_all q ps) \<and> contents (push_all q ps) = contents q @ ps"
    and take_all_law: "invar q \<Longrightarrow>
      fst (take_all q) = contents q \<and> contents (snd (take_all q)) = [] \<and> invar (snd (take_all q))"
begin

text \<open>Rounds of a producer and a listener: every batch comes out whole and in order.\<close>

fun rounds :: "'q \<Rightarrow> 'p list list \<Rightarrow> 'p list \<times> 'q" where
  "rounds q [] = ([], q)"
| "rounds q (b # bs) =
     (let (got, q') = take_all (push_all q b); (more, q'') = rounds q' bs in (got @ more, q''))"

lemma rounds_fifo:
  assumes "invar q" "\<forall>b \<in> set bs. length b < 4294967296"
  shows "fst (rounds q bs) @ contents (snd (rounds q bs)) = contents q @ concat bs \<and>
    invar (snd (rounds q bs))"
  using assms
proof (induction bs arbitrary: q)
  case (Cons b bs)
  let ?q = "push_all q b" and ?t = "take_all (push_all q b)"
  have "invar ?q" "contents ?q = contents q @ b" using push_all_law Cons.prems by auto
  with take_all_law have "fst ?t = contents q @ b" "contents (snd ?t) = []" "invar (snd ?t)" by auto
  with Cons.IH [of "snd ?t"] Cons.prems show ?case by (auto simp: split_beta)
qed simp

end

lemma PushAll_small:
  "length ps < 4294967296 \<Longrightarrow>
    PushAll q ps = (of_nat (length ps), q\<lparr>packets := packets q @ ps\<rparr>, [])"
  by (simp add: PushAll_def Let_def unat_of_nat_u32)

lemma DeQueueAllTo_running:
  "\<not> destroy q \<Longrightarrow> packets q \<noteq> [] \<Longrightarrow>
    DeQueueAllTo blocking q rq = (Returns (of_nat (length (packets q)), packets q), q\<lparr>packets := rq\<rparr>)"
  by (simp add: DeQueueAllTo_def dequeue_all_locked_def IncReaders_def DecReaders_def)

lemma DeQueueAllTo_empty:
  "packets q = [] \<Longrightarrow> DeQueueAllTo False q rq = (Returns (0, rq), q)"
  by (simp add: DeQueueAllTo_def dequeue_all_locked_def IncReaders_def DecReaders_def)

lemma DeQueueAllTo_stopped:
  "destroy q \<Longrightarrow> DeQueueAllTo blocking q rq = (Returns (0, rq), q)"
  by (simp add: DeQueueAllTo_def dequeue_all_locked_def IncReaders_def DecReaders_def)

text \<open>One non-blocking drain into a fresh queue, as the listeners' loops do when woken.\<close>

definition drain :: "PacketQueue \<Rightarrow> Packet list \<times> PacketQueue" where
  "drain q = (case DeQueueAllTo False q [] of
     (Returns (_, ps), q') \<Rightarrow> (ps, q') | (Blocks, q') \<Rightarrow> ([], q'))"

lemma drain_running: "\<not> destroy q \<Longrightarrow> drain q = (packets q, q\<lparr>packets := []\<rparr>)"
  by (cases "packets q = []") (simp_all add: drain_def DeQueueAllTo_running DeQueueAllTo_empty)

interpretation queue_fifo:
  packet_fifo "\<lambda>q. \<not> destroy q" packets "\<lambda>q p. snd (Push q p)" "\<lambda>q ps. fst (snd (PushAll q ps))" drain
  by unfold_locales (auto simp: Push_def PushAll_small drain_running)

end
