(* ===== verification/Base_Channel.thy ===== *)
theory Base_Channel
  imports Complex_Main Packet_Queue
begin

text \<open>
  \<^verbatim>\<open>BaseChannel.h\<close>/\<^verbatim>\<open>BaseChannel.cc\<close>: the one-way channel between two hosts, which drops
  packets at random. \<^verbatim>\<open>Utils::RandomFloat\<close> belongs to the library: the parameter
  \<open>random_float\<close> gives the value of its \<open>k\<close>-th call, and \<open>k\<close> is passed along. The delay of
  \<^verbatim>\<open>usleep\<close> has no counterpart.
\<close>

section \<open>The channel and its operations\<close>

text \<open>The double nearest to 0.2, exactly.\<close>

definition kPacketLossRatio :: rat where
  "kPacketLossRatio = 3602879701896397 / 18014398509481984"

definition kPacketCorruptRatio :: rat where
  "kPacketCorruptRatio = 0"

text \<open>
  The callback changes the state \<open>'h\<close> of the receiver and the queue it is given. The thread
  \<^verbatim>\<open>listner_\<close> is a flag; the stop flag of a default-constructed channel is uninitialised,
  so it is an argument there.
\<close>

record 'h BaseChannel =
  pkt_buffer :: PacketQueue
  receiver_callback :: "('h \<Rightarrow> Packet list \<Rightarrow> ('h \<times> Packet list) checked) option"
  listner_running :: bool
  ch_stop :: bool

definition BaseChannel_default :: "bool \<Rightarrow> 'h BaseChannel" where
  "BaseChannel_default stop0 = \<lparr>pkt_buffer = PacketQueue_new, receiver_callback = None,
     listner_running = False, ch_stop = stop0\<rparr>"

definition BaseChannel_new ::
  "('h \<Rightarrow> Packet list \<Rightarrow> ('h \<times> Packet list) checked) option \<Rightarrow> 'h BaseChannel" where
  "BaseChannel_new cb = \<lparr>pkt_buffer = PacketQueue_new, receiver_callback = cb,
     listner_running = False, ch_stop = True\<rparr>"

definition BaseChannel_Start :: "'h BaseChannel \<Rightarrow> 'h BaseChannel" where
  "BaseChannel_Start c = c\<lparr>ch_stop := False, listner_running := True\<rparr>"

definition RegisterReceiverCallback ::
  "('h \<Rightarrow> Packet list \<Rightarrow> ('h \<times> Packet list) checked) option \<Rightarrow> 'h BaseChannel \<Rightarrow> 'h BaseChannel" where
  "RegisterReceiverCallback cb c = c\<lparr>receiver_callback := cb\<rparr>"

definition Channel_Send_packet :: "'h BaseChannel \<Rightarrow> Packet \<Rightarrow> 'h BaseChannel" where
  "Channel_Send_packet c p = c\<lparr>pkt_buffer := snd (Push (pkt_buffer c) p)\<rparr>"

text \<open>
  The loop of \<^verbatim>\<open>Send\<close> over the queue: \<open>n\<close> rounds left, \<open>src\<close> the source queue and \<open>pkts\<close>
  the packets that go through. Each round rolls once for loss and, if the packet survives,
  once for corruption.
\<close>

fun channel_loop ::
  "(nat \<Rightarrow> rat) \<Rightarrow> nat \<Rightarrow> nat \<Rightarrow> Packet list \<Rightarrow> Packet list \<Rightarrow> nat \<times> Packet list \<times> Packet list" where
  "channel_loop random_float k 0 src pkts = (k, src, pkts)"
| "channel_loop random_float k (Suc n) [] pkts = (k, [], pkts)"
| "channel_loop random_float k (Suc n) (p # src) pkts =
     (if random_float k < kPacketLossRatio then channel_loop random_float (k + 1) n src pkts
      else let p' = (if random_float (k + 1) < kPacketCorruptRatio then p\<lparr>corrupted := True\<rparr> else p)
           in channel_loop random_float (k + 2) n src (pkts @ [p']))"

text \<open>
  The result: the number of random numbers used, what is left of the caller's queue, and
  the channel. The second case of the loop is never met: the size is the queue's own.
\<close>

definition Channel_Send ::
  "(nat \<Rightarrow> rat) \<Rightarrow> nat \<Rightarrow> 'h BaseChannel \<Rightarrow> Packet list \<Rightarrow> nat \<times> Packet list \<times> 'h BaseChannel" where
  "Channel_Send random_float k c pkts_to_send =
     (let size = of_nat (length pkts_to_send) :: uint32;
          (k', rest, pkts) = channel_loop random_float k (unat size) pkts_to_send [];
          (_, buffer, _) = PushAll (pkt_buffer c) pkts
      in (k', rest, c\<lparr>pkt_buffer := buffer\<rparr>))"

text \<open>
  One round of \<^verbatim>\<open>WaitingForPackets\<close> in the state \<open>h\<close> of the receiver; \<open>None\<close> when the loop
  condition fails and the thread ends.
\<close>

definition WaitingForPackets_round ::
  "'h BaseChannel \<Rightarrow> 'h \<Rightarrow> ('h BaseChannel \<times> 'h) waits checked option" where
  "WaitingForPackets_round c h =
     (if ch_stop c then None
      else Some
        (case DeQueueAllTo True (pkt_buffer c) [] of
           (Blocks, q) \<Rightarrow> Inr Blocks
         | (Returns (re, new_packets), q) \<Rightarrow>
             let c' = c\<lparr>pkt_buffer := q\<rparr>
             in if re = 0 then Inr (Returns (c', h))
                else case receiver_callback c of
                       None \<Rightarrow> Inr (Returns (c', h))
                     | Some cb \<Rightarrow> bindR (cb h new_packets) (\<lambda>(h', _). Inr (Returns (c', h')))))"

section \<open>Loss without reordering\<close>

text \<open>Which packets survive: those whose first roll is not below the loss ratio.\<close>

fun survivors :: "(nat \<Rightarrow> rat) \<Rightarrow> nat \<Rightarrow> Packet list \<Rightarrow> Packet list" where
  "survivors random_float k [] = []"
| "survivors random_float k (p # ps) =
     (if random_float k < kPacketLossRatio then survivors random_float (k + 1) ps
      else p # survivors random_float (k + 2) ps)"

lemma channel_loop_survivors:
  assumes "\<forall>k. 0 \<le> random_float k"
  shows "snd (channel_loop random_float k (length src) src pkts) = ([], pkts @ survivors random_float k src)"
proof (induction src arbitrary: k pkts)
  case (Cons p src)
  have "\<not> random_float (k + 1) < kPacketCorruptRatio"
    using assms by (auto simp: kPacketCorruptRatio_def not_less)
  with Cons.IH show ?case by (auto simp: Let_def)
qed simp

lemma survivors_subseq: "subseq (survivors random_float k ps) ps"
  by (induction random_float k ps rule: survivors.induct) auto

lemma survivors_all: "\<forall>k. kPacketLossRatio \<le> random_float k \<Longrightarrow> survivors random_float k ps = ps"
  by (induction random_float k ps rule: survivors.induct) (auto simp: not_less)

lemma survivors_none: "\<forall>k. random_float k < kPacketLossRatio \<Longrightarrow> survivors random_float k ps = []"
  by (induction random_float k ps rule: survivors.induct) auto

lemma Channel_Send_survivors:
  assumes "\<forall>k. 0 \<le> random_float k" "length ps < 4294967296"
  shows "snd (Channel_Send random_float k c ps) =
    ([], c\<lparr>pkt_buffer := (pkt_buffer c)\<lparr>packets := packets (pkt_buffer c) @ survivors random_float k ps\<rparr>\<rparr>)"
proof -
  obtain k' where loop: "channel_loop random_float k (length ps) ps [] = (k', [], survivors random_float k ps)"
    using channel_loop_survivors [OF assms(1), of k ps "[]"]
    by (metis append_Nil prod.collapse)
  have "length (survivors random_float k ps) < 4294967296"
    using list_emb_length [OF survivors_subseq, of random_float k ps] assms(2) by simp
  with loop assms(2) show ?thesis
    by (simp add: Channel_Send_def Let_def unat_of_nat_u32 PushAll_small)
qed

lemma WaitingForPackets_round_delivers:
  assumes "\<not> ch_stop c" "\<not> destroy (pkt_buffer c)" "packets (pkt_buffer c) \<noteq> []"
    and "length (packets (pkt_buffer c)) < 4294967296"
    and "receiver_callback c = Some cb" "cb h (packets (pkt_buffer c)) = Inr (h', rest)"
  shows "WaitingForPackets_round c h =
    Some (Inr (Returns (c\<lparr>pkt_buffer := (pkt_buffer c)\<lparr>packets := []\<rparr>\<rparr>, h')))"
proof -
  have "(of_nat (length (packets (pkt_buffer c))) :: uint32) \<noteq> 0"
    using assms(3,4) by (simp add: u32_eq_iff unat_of_nat_u32)
  with assms show ?thesis
    by (simp add: WaitingForPackets_round_def DeQueueAllTo_running Let_def)
qed

text \<open>
  C25. What the channel does to a batch, provided random numbers are not negative. \<^verbatim>\<open>Send\<close>
  empties the caller's queue and appends a subsequence of it to the channel: packets get
  lost but are never altered, duplicated or reordered; all go through when no roll is below
  the loss ratio and none when all are. The listener's next round hands the receiver's
  callback exactly what is in the channel, and leaves it empty.
\<close>

theorem channel_loses_but_keeps_order:
  assumes "\<forall>k. 0 \<le> random_float k" "length ps < 4294967296"
    and "\<not> ch_stop c" "\<not> destroy (pkt_buffer c)" "packets (pkt_buffer c) = []"
    and "receiver_callback c = Some (\<lambda>h pkts. Inr (h @ pkts, []))"
  shows "\<exists>k' c'. Channel_Send random_float k c ps = (k', [], c') \<and>
    subseq (packets (pkt_buffer c')) ps \<and>
    ((\<forall>k. kPacketLossRatio \<le> random_float k) \<longrightarrow> packets (pkt_buffer c') = ps) \<and>
    ((\<forall>k. random_float k < kPacketLossRatio) \<longrightarrow> packets (pkt_buffer c') = []) \<and>
    WaitingForPackets_round c' h =
      Some (Inr (if packets (pkt_buffer c') = [] then Blocks
                 else Returns (c, h @ packets (pkt_buffer c'))))"
proof -
  let ?s = "survivors random_float k ps"
  let ?c = "c\<lparr>pkt_buffer := (pkt_buffer c)\<lparr>packets := ?s\<rparr>\<rparr>"
  obtain k' where send: "Channel_Send random_float k c ps = (k', [], ?c)"
    using Channel_Send_survivors [OF assms(1,2), of k c] assms(5)
    by (metis append_Nil prod.collapse)
  have "length ?s < 4294967296"
    using list_emb_length [OF survivors_subseq, of random_float k ps] assms(2) by simp
  then have "WaitingForPackets_round ?c h = Some (Inr (if ?s = [] then Blocks else Returns (c, h @ ?s)))"
    using assms(3-6) WaitingForPackets_round_delivers [of ?c _ h "h @ ?s" "[]"]
    by (auto simp: WaitingForPackets_round_def DeQueueAllTo_def dequeue_all_locked_def IncReaders_def)
  with send survivors_subseq survivors_all survivors_none show ?thesis
    by (intro exI [of _ k'] exI [of _ ?c]) auto
qed

theorem channel_loses_but_keeps_order_witness:
  "let p = Packet_headers IPHeader_default TcpHeader_default;
       c = BaseChannel_Start (BaseChannel_new (Some (\<lambda>h pkts. Inr (h @ pkts, []))))
   in packets (pkt_buffer (snd (snd (Channel_Send (\<lambda>_. 1 / 2) 0 c [p, p])))) = [p, p]"
proof -
  let ?c = "BaseChannel_Start (BaseChannel_new (Some (\<lambda>h pkts. Inr (h @ pkts, []))))
    :: Packet list BaseChannel"
  let ?p = "Packet_headers IPHeader_default TcpHeader_default"
  have c: "\<not> ch_stop ?c" "\<not> destroy (pkt_buffer ?c)" "packets (pkt_buffer ?c) = []"
    "receiver_callback ?c = Some (\<lambda>h pkts. Inr (h @ pkts, []))"
    by (simp_all add: BaseChannel_Start_def BaseChannel_new_def PacketQueue_new_def)
  from channel_loses_but_keeps_order [of "\<lambda>_. 1 / 2" "[?p, ?p]", OF _ _ c, of 0 "[]"]
  show ?thesis by (auto simp: kPacketLossRatio_def Let_def)
qed

end
