(* ===== verification/Common_Keys.thy ===== *)
theory Common_Keys
  imports Packets "HOL-Library.Char_ord" "HOL-Library.List_Lexorder"
begin

text \<open>
  \<^verbatim>\<open>Common.h\<close>: the key of a TCP connection and the key of a listener, their orders, hash
  functions and printed forms, and the way a packet's headers and a connection's key
  determine each other. \<^verbatim>\<open>std::string\<close> is compared byte by byte as unsigned characters:
  the lexicographic order on \<^typ>\<open>string\<close>. In this program the \<^verbatim>\<open>source\<close> half of a key is
  the remote end.
\<close>

section \<open>The keys\<close>

record TcpControllerKey =
  key_source_ip :: string
  key_source_port :: int32
  key_dest_ip :: string
  key_dest_port :: int32

definition TcpControllerKey_default :: TcpControllerKey where
  "TcpControllerKey_default = \<lparr>key_source_ip = [], key_source_port = 0, key_dest_ip = [], key_dest_port = 0\<rparr>"

definition TcpControllerKey_new :: "string \<Rightarrow> int32 \<Rightarrow> string \<Rightarrow> int32 \<Rightarrow> TcpControllerKey" where
  "TcpControllerKey_new sip sport dip dport =
     \<lparr>key_source_ip = sip, key_source_port = sport, key_dest_ip = dip, key_dest_port = dport\<rparr>"

record LocalLayerThreeKey =
  local_ip :: string
  local_port :: int32

definition LocalLayerThreeKey_default :: LocalLayerThreeKey where
  "LocalLayerThreeKey_default = \<lparr>local_ip = [], local_port = 0\<rparr>"

definition LocalLayerThreeKey_new :: "string \<Rightarrow> int32 \<Rightarrow> LocalLayerThreeKey" where
  "LocalLayerThreeKey_new ip port = \<lparr>local_ip = ip, local_port = port\<rparr>"

section \<open>Comparison\<close>

text \<open>\<^verbatim>\<open>operator==\<close> and \<^verbatim>\<open>operator<\<close>, test by test.\<close>

definition TcpControllerKey_eq :: "'a TcpControllerKey_scheme \<Rightarrow> 'a TcpControllerKey_scheme \<Rightarrow> bool" where
  "TcpControllerKey_eq a b \<longleftrightarrow> key_source_ip a = key_source_ip b \<and> key_source_port a = key_source_port b \<and>
     key_dest_ip a = key_dest_ip b \<and> key_dest_port a = key_dest_port b"

definition TcpControllerKey_less :: "'a TcpControllerKey_scheme \<Rightarrow> 'a TcpControllerKey_scheme \<Rightarrow> bool" where
  "TcpControllerKey_less a b =
     (if key_source_ip a \<noteq> key_source_ip b then key_source_ip a < key_source_ip b
      else if key_source_port a \<noteq> key_source_port b then key_source_port a < key_source_port b
      else if key_dest_ip a \<noteq> key_dest_ip b then key_dest_ip a < key_dest_ip b
      else if key_dest_port a \<noteq> key_dest_port b then key_dest_port a < key_dest_port b
      else False)"

definition LocalLayerThreeKey_eq :: "'a LocalLayerThreeKey_scheme \<Rightarrow> 'a LocalLayerThreeKey_scheme \<Rightarrow> bool" where
  "LocalLayerThreeKey_eq a b \<longleftrightarrow> local_ip a = local_ip b \<and> local_port a = local_port b"

definition LocalLayerThreeKey_less :: "'a LocalLayerThreeKey_scheme \<Rightarrow> 'a LocalLayerThreeKey_scheme \<Rightarrow> bool" where
  "LocalLayerThreeKey_less a b =
     (if local_ip a \<noteq> local_ip b then local_ip a < local_ip b
      else if local_port a \<noteq> local_port b then local_port a < local_port b
      else False)"

text \<open>
  The two operators make the keys linearly ordered, as an ordered container of them needs.
  The instances are on the extensible record types; on the keys themselves the extension
  is \<^typ>\<open>unit\<close> and adds nothing.
\<close>

instantiation TcpControllerKey_ext :: (linorder) linorder
begin

definition less_TcpControllerKey_ext :: "'a TcpControllerKey_scheme \<Rightarrow> 'a TcpControllerKey_scheme \<Rightarrow> bool" where
  "less_TcpControllerKey_ext a b \<longleftrightarrow> TcpControllerKey_less a b \<or>
     TcpControllerKey_eq a b \<and> TcpControllerKey.more a < TcpControllerKey.more b"

definition less_eq_TcpControllerKey_ext :: "'a TcpControllerKey_scheme \<Rightarrow> 'a TcpControllerKey_scheme \<Rightarrow> bool" where
  "less_eq_TcpControllerKey_ext a b \<longleftrightarrow> a = b \<or> a < b"

instance
  by standard
    (auto simp: less_TcpControllerKey_ext_def less_eq_TcpControllerKey_ext_def TcpControllerKey_less_def
      TcpControllerKey_eq_def split: if_splits)

end

instantiation LocalLayerThreeKey_ext :: (linorder) linorder
begin

definition less_LocalLayerThreeKey_ext :: "'a LocalLayerThreeKey_scheme \<Rightarrow> 'a LocalLayerThreeKey_scheme \<Rightarrow> bool" where
  "less_LocalLayerThreeKey_ext a b \<longleftrightarrow> LocalLayerThreeKey_less a b \<or>
     LocalLayerThreeKey_eq a b \<and> LocalLayerThreeKey.more a < LocalLayerThreeKey.more b"

definition less_eq_LocalLayerThreeKey_ext :: "'a LocalLayerThreeKey_scheme \<Rightarrow> 'a LocalLayerThreeKey_scheme \<Rightarrow> bool" where
  "less_eq_LocalLayerThreeKey_ext a b \<longleftrightarrow> a = b \<or> a < b"

instance
  by standard
    (auto simp: less_LocalLayerThreeKey_ext_def less_eq_LocalLayerThreeKey_ext_def LocalLayerThreeKey_less_def
      LocalLayerThreeKey_eq_def split: if_splits)

end

lemma key_eq_iff [simp]:
  "TcpControllerKey_eq (a :: TcpControllerKey) b \<longleftrightarrow> a = b"
  "LocalLayerThreeKey_eq (k :: LocalLayerThreeKey) l \<longleftrightarrow> k = l"
  by (auto simp: TcpControllerKey_eq_def LocalLayerThreeKey_eq_def)

lemma key_less_iff:
  "TcpControllerKey_less (a :: TcpControllerKey) b \<longleftrightarrow> a < b"
  "LocalLayerThreeKey_less (k :: LocalLayerThreeKey) l \<longleftrightarrow> k < l"
  by (auto simp: less_TcpControllerKey_ext_def less_LocalLayerThreeKey_ext_def)

section \<open>Hashing and printing\<close>

text \<open>
  \<^verbatim>\<open>std::hash\<close> on strings and integers is left to the implementation of the library:
  the parameters \<open>str_hasher\<close> and \<open>int_hasher\<close>. \<^verbatim>\<open>size_t\<close> has 64 bits.
\<close>

definition hash_TcpControllerKey ::
  "(string \<Rightarrow> 64 word) \<Rightarrow> (int32 \<Rightarrow> 64 word) \<Rightarrow> TcpControllerKey \<Rightarrow> 64 word" where
  "hash_TcpControllerKey str_hasher int_hasher k =
     xor (drop_bit 1 (xor (str_hasher (key_source_ip k)) (push_bit 1 (int_hasher (key_source_port k)))))
         (drop_bit 2 (xor (push_bit 2 (str_hasher (key_dest_ip k)))
                          (push_bit 2 (int_hasher (key_dest_port k)))))"

definition hash_LocalLayerThreeKey ::
  "(string \<Rightarrow> 64 word) \<Rightarrow> (int32 \<Rightarrow> 64 word) \<Rightarrow> LocalLayerThreeKey \<Rightarrow> 64 word" where
  "hash_LocalLayerThreeKey str_hasher int_hasher k =
     drop_bit 1 (xor (str_hasher (local_ip k)) (push_bit 1 (int_hasher (local_port k))))"

definition to_string_int :: "int32 \<Rightarrow> string" where
  "to_string_int i = (if i < 0 then ''-'' @ to_string_nat (nat (- i)) else to_string_nat (nat i))"

text \<open>\<^verbatim>\<open>Strings::StrCat\<close> belongs to the library: it is the parameter \<open>strcat\<close>.\<close>

definition TcpControllerKey_DebugString :: "(string list \<Rightarrow> string) \<Rightarrow> TcpControllerKey \<Rightarrow> string" where
  "TcpControllerKey_DebugString strcat k =
     strcat [''{'', key_source_ip k, '':'', to_string_int (key_source_port k), '', '',
             key_dest_ip k, '':'', to_string_int (key_dest_port k), ''}'']"

definition LocalLayerThreeKey_DebugString :: "(string list \<Rightarrow> string) \<Rightarrow> LocalLayerThreeKey \<Rightarrow> string" where
  "LocalLayerThreeKey_DebugString strcat k =
     strcat [''{'', local_ip k, '', '', to_string_int (local_port k), ''}'']"

text \<open>
  C33. \<^verbatim>\<open>operator<\<close> of both key types is a strict linear order that agrees with
  \<^verbatim>\<open>operator==\<close>: it is transitive, and of any two keys exactly one of "less", "equal" and
  "greater" holds. This is what an ordered container demands of its key.
\<close>

theorem key_operators_form_strict_order:
  fixes a b c :: TcpControllerKey and k l m :: LocalLayerThreeKey
  shows "(TcpControllerKey_less a b \<and> TcpControllerKey_less b c \<longrightarrow> TcpControllerKey_less a c) \<and>
    (if TcpControllerKey_less a b then \<not> TcpControllerKey_eq a b \<and> \<not> TcpControllerKey_less b a
     else TcpControllerKey_eq a b \<noteq> TcpControllerKey_less b a) \<and>
    (LocalLayerThreeKey_less k l \<and> LocalLayerThreeKey_less l m \<longrightarrow> LocalLayerThreeKey_less k m) \<and>
    (if LocalLayerThreeKey_less k l then \<not> LocalLayerThreeKey_eq k l \<and> \<not> LocalLayerThreeKey_less l k
     else LocalLayerThreeKey_eq k l \<noteq> LocalLayerThreeKey_less l k)"
  unfolding key_less_iff key_eq_iff by auto

theorem key_operators_form_strict_order_witness:
  "TcpControllerKey_less (TcpControllerKey_new ''10.0.0.1'' 7 ''10.0.0.2'' 9)
     (TcpControllerKey_new ''10.0.0.2'' 3 ''10.0.0.1'' 1)"
  using key_operators_form_strict_order
    [of "TcpControllerKey_new ''10.0.0.1'' 7 ''10.0.0.2'' 9"
        "TcpControllerKey_new ''10.0.0.1'' 8 ''10.0.0.2'' 1"
        "TcpControllerKey_new ''10.0.0.2'' 3 ''10.0.0.1'' 1"]
  by (simp add: TcpControllerKey_less_def TcpControllerKey_new_def less_char_def)

end
