(* ===== verification/Kernel_Objects.thy ===== *)
theory Kernel_Objects
  imports Common_Keys
begin

text \<open>
  \<^verbatim>\<open>Kernel.h\<close>/\<^verbatim>\<open>Kernel.cc\<close>: sockets and the entries of the kernel's open file table. A
  \<^verbatim>\<open>TcpController*\<close> is an address, a natural number; \<open>None\<close> is the null pointer. Whether
  the address still holds an object is known only to the host that owns the connections.
\<close>

section \<open>Sockets\<close>

type_synonym tcp_ptr = nat

datatype Socket_State = OPEN | SHUTDOWN

record Socket =
  sock_state :: Socket_State
  local_bound :: LocalLayerThreeKey
  tcp_con :: "tcp_ptr option"

definition Socket_new :: Socket where
  "Socket_new = \<lparr>sock_state = OPEN, local_bound = LocalLayerThreeKey_default, tcp_con = None\<rparr>"

definition Socket_Reset :: "Socket \<Rightarrow> Socket" where
  "Socket_Reset s = s\<lparr>sock_state := OPEN, tcp_con := None, local_bound := LocalLayerThreeKey_default\<rparr>"

definition Socket_Bind :: "Socket \<Rightarrow> LocalLayerThreeKey \<Rightarrow> Socket" where
  "Socket_Bind s k = s\<lparr>local_bound := k\<rparr>"

definition Socket_Bind_addr :: "Socket \<Rightarrow> string \<Rightarrow> uint32 \<Rightarrow> Socket" where
  "Socket_Bind_addr s ip port =
     s\<lparr>local_bound := (local_bound s)\<lparr>local_ip := ip, local_port := int32_of_uint32 port\<rparr>\<rparr>"

definition isBound :: "Socket \<Rightarrow> bool" where
  "isBound s \<longleftrightarrow> local_ip (local_bound s) \<noteq> [] \<and> local_port (local_bound s) > 0"

section \<open>Open files\<close>

datatype KernelOpenFile_Type = REGULAR | SOCKET | UNKNOWN_FILE_TYPE

record KernelOpenFile =
  file_type :: KernelOpenFile_Type
  socket :: Socket
  refs :: int32

definition KernelOpenFile_new :: "KernelOpenFile_Type \<Rightarrow> KernelOpenFile" where
  "KernelOpenFile_new t = \<lparr>file_type = t, socket = Socket_new, refs = 0\<rparr>"

text \<open>An \<^verbatim>\<open>atomic_int\<close> wraps around in two's complement.\<close>

definition IncRef :: "KernelOpenFile \<Rightarrow> KernelOpenFile" where
  "IncRef f = f\<lparr>refs := int32_of_uint32 (word_of_int (refs f + 1))\<rparr>"

definition DecRef :: "KernelOpenFile \<Rightarrow> KernelOpenFile" where
  "DecRef f = f\<lparr>refs := int32_of_uint32 (word_of_int (refs f - 1))\<rparr>"

definition Refs :: "KernelOpenFile \<Rightarrow> int32" where
  "Refs f = refs f"

section \<open>Facts\<close>

lemma Socket_Reset_new [simp]: "Socket_Reset s = Socket_new"
  by (simp add: Socket_Reset_def Socket_new_def)

lemma isBound_simps [simp]:
  "isBound Socket_new = False"
  "isBound (Socket_Bind s k) = (local_ip k \<noteq> [] \<and> local_port k > 0)"
  "isBound (s\<lparr>tcp_con := c\<rparr>) = isBound s"
  "isBound (s\<lparr>sock_state := st\<rparr>) = isBound s"
  by (simp_all add: isBound_def Socket_new_def Socket_Bind_def LocalLayerThreeKey_default_def)

lemma isBound_Bind_addr:
  assumes "unat port < 2147483648"
  shows "isBound (Socket_Bind_addr s ip port) \<longleftrightarrow> ip \<noteq> [] \<and> port \<noteq> 0"
proof -
  have "0 < uint port \<longleftrightarrow> port \<noteq> 0"
    using uint_0_iff [of port] uint_ge_0 [of port] by linarith
  then show ?thesis
    by (simp add: isBound_def Socket_Bind_addr_def int32_of_uint32_def sint_u32_small [OF assms])
qed

lemma Refs_IncRef: "- 2147483648 \<le> refs f \<Longrightarrow> refs f < 2147483647 \<Longrightarrow> Refs (IncRef f) = Refs f + 1"
  using int32_roundtrip [of "refs f + 1"] by (simp add: Refs_def IncRef_def)

lemma Refs_DecRef: "- 2147483648 < refs f \<Longrightarrow> refs f \<le> 2147483647 \<Longrightarrow> Refs (DecRef f) = Refs f - 1"
  using int32_roundtrip [of "refs f - 1"] by (simp add: Refs_def DecRef_def)

end
