(* ===== verification/Ring_Buffer.thy ===== *)
theory Ring_Buffer
  imports Tcp_Prelude
begin

text \<open>
  The interface of \<^verbatim>\<open>Utility::RingBuffer\<close>, a library class the controller uses for the two
  socket buffers. Its methods are the fields of a record that every definition using a
  buffer takes as an argument; what the controller relies on is the predicate
  \<open>ring_laws\<close>. A list with a capacity is one buffer that satisfies it.
\<close>

section \<open>The methods\<close>

record 'b ring_ops =
  rb_new :: "uint32 \<Rightarrow> 'b"
  rb_free_space :: "'b \<Rightarrow> uint32"
  rb_size :: "'b \<Rightarrow> uint32"
  rb_empty :: "'b \<Rightarrow> bool"
  rb_full :: "'b \<Rightarrow> bool"
  rb_Write :: "'b \<Rightarrow> byte list \<Rightarrow> int \<Rightarrow> uint32 \<times> 'b" \<comment> \<open>\<^verbatim>\<open>Write(ptr, size)\<close>\<close>
  rb_Read :: "'b \<Rightarrow> int \<Rightarrow> byte list \<times> 'b" \<comment> \<open>\<^verbatim>\<open>Read(ptr, size)\<close>: the bytes stored\<close>
  rb_Clear :: "'b \<Rightarrow> 'b"

section \<open>What a byte buffer of bounded size promises\<close>

text \<open>
  \<open>ok\<close> says a buffer is in a legal state, \<open>contents\<close> are the bytes in it, first byte first.
  Free space and contents together make up the size the buffer was created with; a write
  appends as much of its argument as fits, a read removes as much as there is, up to the
  size asked for.
\<close>

definition ring_bounds :: "'b ring_ops \<Rightarrow> ('b \<Rightarrow> bool) \<Rightarrow> ('b \<Rightarrow> byte list) \<Rightarrow> bool" where
  "ring_bounds ops ok contents \<longleftrightarrow>
     (\<forall>b. ok b \<longrightarrow> unat (rb_size ops b) = length (contents b) \<and>
        (rb_empty ops b \<longleftrightarrow> contents b = []) \<and> (rb_full ops b \<longleftrightarrow> rb_free_space ops b = 0) \<and>
        length (contents b) + unat (rb_free_space ops b) < 2147483648)"

definition ring_write :: "'b ring_ops \<Rightarrow> ('b \<Rightarrow> bool) \<Rightarrow> ('b \<Rightarrow> byte list) \<Rightarrow> bool" where
  "ring_write ops ok contents \<longleftrightarrow>
     (\<forall>b bs n. ok b \<and> n \<le> length bs \<longrightarrow>
        (let m = min n (unat (rb_free_space ops b)); (r, b') = rb_Write ops b bs (int n)
         in ok b' \<and> unat r = m \<and> contents b' = contents b @ take m bs \<and>
            unat (rb_free_space ops b') = unat (rb_free_space ops b) - m))"

definition ring_read :: "'b ring_ops \<Rightarrow> ('b \<Rightarrow> bool) \<Rightarrow> ('b \<Rightarrow> byte list) \<Rightarrow> bool" where
  "ring_read ops ok contents \<longleftrightarrow>
     (\<forall>b n. ok b \<longrightarrow>
        (let (bs, b') = rb_Read ops b (int n)
         in ok b' \<and> bs = take n (contents b) \<and> contents b' = drop n (contents b) \<and>
            unat (rb_free_space ops b') = unat (rb_free_space ops b) + length bs))"

definition ring_laws :: "'b ring_ops \<Rightarrow> ('b \<Rightarrow> bool) \<Rightarrow> ('b \<Rightarrow> byte list) \<Rightarrow> bool" where
  "ring_laws ops ok contents \<longleftrightarrow> ring_bounds ops ok contents \<and> ring_write ops ok contents \<and>
     ring_read ops ok contents \<and>
     (\<forall>n. unat n < 2147483648 \<longrightarrow> ok (rb_new ops n) \<and> contents (rb_new ops n) = [] \<and>
        rb_free_space ops (rb_new ops n) = n) \<and>
     (\<forall>b. ok b \<longrightarrow> ok (rb_Clear ops b) \<and> contents (rb_Clear ops b) = [] \<and>
        unat (rb_free_space ops (rb_Clear ops b)) = unat (rb_free_space ops b) + length (contents b))"

lemma ring_boundsD:
  assumes "ring_laws ops ok contents" "ok b"
  shows "unat (rb_size ops b) = length (contents b)" "rb_empty ops b \<longleftrightarrow> contents b = []"
    "rb_full ops b \<longleftrightarrow> rb_free_space ops b = 0"
    "length (contents b) + unat (rb_free_space ops b) < 2147483648"
  using assms by (auto simp: ring_laws_def ring_bounds_def)

lemma ring_writeD:
  assumes "ring_laws ops ok contents" "ok b" "n \<le> length bs" "rb_Write ops b bs (int n) = (r, b')"
  shows "ok b'" "unat r = min n (unat (rb_free_space ops b))"
    "contents b' = contents b @ take (min n (unat (rb_free_space ops b))) bs"
    "unat (rb_free_space ops b') = unat (rb_free_space ops b) - min n (unat (rb_free_space ops b))"
proof -
  have "ring_write ops ok contents" using assms(1) by (simp add: ring_laws_def)
  note this [unfolded ring_write_def, rule_format, of b n bs]
  with assms(2-4) show "ok b'" "unat r = min n (unat (rb_free_space ops b))"
    "contents b' = contents b @ take (min n (unat (rb_free_space ops b))) bs"
    "unat (rb_free_space ops b') = unat (rb_free_space ops b) - min n (unat (rb_free_space ops b))"
    by (simp_all add: Let_def)
qed

lemma ring_readD:
  assumes "ring_laws ops ok contents" "ok b" "rb_Read ops b (int n) = (bs, b')"
  shows "ok b'" "bs = take n (contents b)" "contents b' = drop n (contents b)"
    "unat (rb_free_space ops b') = unat (rb_free_space ops b) + length bs"
proof -
  have "ring_read ops ok contents" using assms(1) by (simp add: ring_laws_def)
  note this [unfolded ring_read_def, rule_format, of b n]
  with assms(2,3) show "ok b'" "bs = take n (contents b)" "contents b' = drop n (contents b)"
    "unat (rb_free_space ops b') = unat (rb_free_space ops b) + length bs"
    by (simp_all add: Let_def)
qed

lemma ring_newD:
  assumes "ring_laws ops ok contents" "unat n < 2147483648"
  shows "ok (rb_new ops n)" "contents (rb_new ops n) = []" "rb_free_space ops (rb_new ops n) = n"
  using assms by (auto simp: ring_laws_def)

lemma ring_clearD:
  assumes "ring_laws ops ok contents" "ok b"
  shows "ok (rb_Clear ops b)" "contents (rb_Clear ops b) = []"
  using assms by (auto simp: ring_laws_def)

section \<open>A list with a capacity\<close>

type_synonym list_buffer = "nat \<times> byte list"

definition list_ring :: "list_buffer ring_ops" where
  "list_ring = \<lparr>
     rb_new = (\<lambda>n. (unat n, [])),
     rb_free_space = (\<lambda>(c, xs). of_nat (c - length xs)),
     rb_size = (\<lambda>(c, xs). of_nat (length xs)),
     rb_empty = (\<lambda>(c, xs). xs = []),
     rb_full = (\<lambda>(c, xs). length xs = c),
     rb_Write = (\<lambda>(c, xs) bs n. let m = min (nat n) (c - length xs) in (of_nat m, (c, xs @ take m bs))),
     rb_Read = (\<lambda>(c, xs) n. (take (nat n) xs, (c, drop (nat n) xs))),
     rb_Clear = (\<lambda>(c, xs). (c, []))\<rparr>"

definition list_ring_inv :: "list_buffer \<Rightarrow> bool" where
  "list_ring_inv b \<longleftrightarrow> length (snd b) \<le> fst b \<and> fst b < 2147483648"

lemma list_ring_laws: "ring_laws list_ring list_ring_inv snd"
  by (auto simp: ring_laws_def ring_bounds_def ring_write_def ring_read_def list_ring_def
      list_ring_inv_def Let_def unat_of_nat_u32 u32_eq_iff simp del: of_nat_diff)

end
