(* ===== verification/Tcp_Controller.thy ===== *)
theory Tcp_Controller
  imports Recv_Window Base_Channel Kernel_Objects Ring_Buffer
begin

text \<open>
  \<^verbatim>\<open>TcpController.h\<close>/\<^verbatim>\<open>TcpController.cc\<close>: one TCP connection. Every handler, listener round
  and call of the application layer is a function on the controller's state. The library
  classes are parameters: the ring buffers are the record of their methods, the timers are
  a log of the calls made to them together with what \<^verbatim>\<open>prober_timer_.state()\<close> answers, the
  thread pool and the detached threads are the lists of the tasks handed over. Condition
  variables appear as the predicates that are waited for; notifications do not change the
  state and are left out.
\<close>

section \<open>State\<close>

datatype TCP_STATE =
    CLOSED | SYN_SENT | ESTABLISHED | LISTEN | SYN_RCVD | FIN_WAIT_1 | FIN_WAIT_2
  | TIME_WAIT | CLOSING | CLOSE_WAIT | LAST_ACK

datatype PipeState = Pipe_OPEN | EOF_NOT_CONSUMED | EOF_CONSUMED

datatype CongestionControlState = SLOW_START | CONGESTION_AVOIDANCE | FAST_RECOVERY

datatype tcp_timer = Timer | Syn_timer | Fin_timer | Close_timer | Prober_timer

datatype timer_call = Timer_Restart | Timer_Restart_in nanoseconds | Timer_Stop | Timer_SetRepeat bool

datatype task =
    PacketReceiveBufferListener_task | PacketSendBufferListener_task | SendBufferListener_task
  | ReceiveBufferListener_task | SendFIN_task | SendRSTForClosedConnection_task

datatype detached_thread = Kill_after_sleep | Shut_down

record TcpControllerOptions =
  send_buffer_size :: uint32
  send_window_base :: uint32
  send_window_size :: uint32
  recv_buffer_size :: uint32
  recv_window_base :: uint32
  recv_window_size :: uint32

record 'b TcpController =
  tcp_key :: TcpControllerKey
  tcp_socket :: int32          \<comment> \<open>\<^verbatim>\<open>socket_\<close>: the open file whose socket it points to\<close>
  pkt_recv_buffer :: PacketQueue
  recv_window :: RecvWindow
  recv_buffer :: 'b
  pipe_state :: PipeState
  overflow_pkts :: "Packet list"
  send_buffer :: 'b
  send_window :: SendWindow
  pkt_send_buffer :: PacketQueue
  timer_log :: "(tcp_timer \<times> timer_call) list"
  tcp_state :: TCP_STATE
  estimated_rtt :: nanoseconds
  dev_rtt :: nanoseconds
  timeout_interval :: nanoseconds
  cc_state :: CongestionControlState
  cwnd :: uint32
  ssthresh :: uint32
  shutdown_flag :: bool
  release_port :: bool
  tasks :: "task list"
  threads :: "detached_thread list"

text \<open>
  The library the controller runs on: the ring buffer's methods, the stop watch of a send
  window node, and whether the prober timer is running when its state is asked for.
\<close>

record 'b tcp_env =
  ring :: "'b ring_ops"
  elapsed_time :: "SendWindowNode \<Rightarrow> nanoseconds"
  prober_started :: bool

definition kDefaultDataPacketSize :: uint32 where "kDefaultDataPacketSize = 10"
definition kInitialSSThresh :: uint32 where "kInitialSSThresh = 8 * kDefaultDataPacketSize"
definition kDefaultWindowBase :: uint32 where "kDefaultWindowBase = 0"
definition kDefaultWindowSize :: uint32 where "kDefaultWindowSize = 100"
definition kDefaultSocketBufferSize :: uint32 where "kDefaultSocketBufferSize = 100"
definition kInitialTimeout :: nanoseconds where "kInitialTimeout = 500 * 1000 * 1000"
definition kRTTExpFactor :: rat where "kRTTExpFactor = 1 / 8"
definition kRTTDevExpFactor :: rat where "kRTTDevExpFactor = 1 / 4"
definition kEnableCongestionControl :: bool where "kEnableCongestionControl = False"

definition GetDefaultOptions :: TcpControllerOptions where
  "GetDefaultOptions = \<lparr>send_buffer_size = kDefaultSocketBufferSize,
     send_window_base = kDefaultWindowBase, send_window_size = kDefaultWindowSize,
     recv_buffer_size = kDefaultSocketBufferSize, recv_window_base = kDefaultWindowBase,
     recv_window_size = kDefaultWindowSize\<rparr>"

text \<open>
  The constructor. \<^verbatim>\<open>shutdown_\<close> is not initialised by the code: its first value is an
  argument.
\<close>

definition TcpController_new ::
  "'b ring_ops \<Rightarrow> bool \<Rightarrow> int32 \<Rightarrow> TcpControllerKey \<Rightarrow> TcpControllerOptions \<Rightarrow> 'b TcpController" where
  "TcpController_new ops shutdown0 sock key opts = \<lparr>
     tcp_key = key, tcp_socket = sock, pkt_recv_buffer = PacketQueue_new,
     recv_window = RecvWindow_new (recv_window_base opts) (recv_window_size opts),
     recv_buffer = rb_new ops (recv_buffer_size opts), pipe_state = Pipe_OPEN, overflow_pkts = [],
     send_buffer = rb_new ops (send_buffer_size opts),
     send_window = SendWindow_new (send_window_base opts) (send_window_size opts),
     pkt_send_buffer = PacketQueue_new,
     timer_log = [(Timer, Timer_SetRepeat True), (Prober_timer, Timer_SetRepeat True)],
     tcp_state = CLOSED, estimated_rtt = kInitialTimeout, dev_rtt = 0,
     timeout_interval = kInitialTimeout, cc_state = SLOW_START, cwnd = kDefaultDataPacketSize,
     ssthresh = kInitialSSThresh, shutdown_flag = shutdown0, release_port = False,
     tasks = [PacketReceiveBufferListener_task, PacketSendBufferListener_task,
              SendBufferListener_task, ReceiveBufferListener_task],
     threads = []\<rparr>"

definition timer_op :: "tcp_timer \<Rightarrow> timer_call \<Rightarrow> 'b TcpController \<Rightarrow> 'b TcpController" where
  "timer_op t call c = c\<lparr>timer_log := timer_log c @ [(t, call)]\<rparr>"

definition AddTask :: "task \<Rightarrow> 'b TcpController \<Rightarrow> 'b TcpController" where
  "AddTask t c = c\<lparr>tasks := tasks c @ [t]\<rparr>"

definition detach_thread :: "detached_thread \<Rightarrow> 'b TcpController \<Rightarrow> 'b TcpController" where
  "detach_thread t c = c\<lparr>threads := threads c @ [t]\<rparr>"

definition CurrentTimeOut :: "'b TcpController \<Rightarrow> nanoseconds" where
  "CurrentTimeOut c = timeout_interval c"

definition InConnectingState :: "'b TcpController \<Rightarrow> bool" where
  "InConnectingState c \<longleftrightarrow> tcp_state c = CLOSED \<or> tcp_state c = SYN_SENT \<or> tcp_state c = SYN_RCVD"

definition InClosingState :: "'b TcpController \<Rightarrow> bool" where
  "InClosingState c \<longleftrightarrow> tcp_state c = FIN_WAIT_1 \<or> tcp_state c = FIN_WAIT_2 \<or>
     tcp_state c = TIME_WAIT \<or> tcp_state c = CLOSING \<or> tcp_state c = LAST_ACK"

definition SetReleasePort :: "bool \<Rightarrow> 'b TcpController \<Rightarrow> 'b TcpController" where
  "SetReleasePort b c = c\<lparr>release_port := b\<rparr>"

text \<open>The argument of \<^verbatim>\<open>TcpStateStr\<close> is ignored: the switch is on the member.\<close>

definition TcpStateStr :: "'b TcpController \<Rightarrow> TCP_STATE \<Rightarrow> string" where
  "TcpStateStr c st =
     (case tcp_state c of
        CLOSED \<Rightarrow> ''CLOSED'' | SYN_SENT \<Rightarrow> ''SYN_SENT'' | ESTABLISHED \<Rightarrow> ''ESTABLISHED''
      | LISTEN \<Rightarrow> ''LISTEN'' | SYN_RCVD \<Rightarrow> ''SYN_RCVD'' | FIN_WAIT_1 \<Rightarrow> ''FIN_WAIT_1''
      | FIN_WAIT_2 \<Rightarrow> ''FIN_WAIT_2'' | TIME_WAIT \<Rightarrow> ''TIME_WAIT'' | CLOSE_WAIT \<Rightarrow> ''CLOSE_WAIT''
      | LAST_ACK \<Rightarrow> ''LAST_ACK'' | _ \<Rightarrow> ''UNKNOWN_TCP_STATE'')"

section \<open>Making packets\<close>

definition key_ip_header :: "TcpControllerKey \<Rightarrow> IPHeader" where
  "key_ip_header k = IPHeader_default\<lparr>source_ip := key_source_ip k, dest_ip := key_dest_ip k\<rparr>"

definition key_tcp_header :: "TcpControllerKey \<Rightarrow> TcpHeader" where
  "key_tcp_header k = TcpHeader_default
     \<lparr>source_port := uint16_of_int32 (key_source_port k), dest_port := uint16_of_int32 (key_dest_port k)\<rparr>"

definition MakeDataPacket ::
  "'b TcpController \<Rightarrow> uint32 \<Rightarrow> byte list option \<Rightarrow> uint32 \<Rightarrow> Packet checked" where
  "MakeDataPacket c seq data sz =
     Packet_bytes (key_ip_header (tcp_key c))
       ((key_tcp_header (tcp_key c))\<lparr>seq_num := seq, ack := False\<rparr>) data (int32_of_uint32 sz)"

text \<open>The variant that reads its payload from a buffer also returns the buffer.\<close>

definition MakeDataPacket_from ::
  "'b ring_ops \<Rightarrow> 'b TcpController \<Rightarrow> uint32 \<Rightarrow> 'b \<Rightarrow> uint32 \<Rightarrow> Packet \<times> 'b" where
  "MakeDataPacket_from ops c seq buf sz =
     (let pkt = Packet_headers (key_ip_header (tcp_key c))
            ((key_tcp_header (tcp_key c))\<lparr>seq_num := seq, ack := False\<rparr>)
      in snd (InjectPayloadFromBuffer (\<lambda>b n. rb_Read ops b (uint n)) pkt buf sz))"

definition MakeAckPacket :: "'b ring_ops \<Rightarrow> 'b TcpController \<Rightarrow> uint32 \<Rightarrow> Packet" where
  "MakeAckPacket ops c an =
     Packet_headers (key_ip_header (tcp_key c))
       ((key_tcp_header (tcp_key c))
          \<lparr>ack := True, ack_num := an, window_size := ucast (rb_free_space ops (recv_buffer c))\<rparr>)"

definition MakeSyncPacket :: "'b ring_ops \<Rightarrow> 'b TcpController \<Rightarrow> uint32 \<Rightarrow> Packet" where
  "MakeSyncPacket ops c seq =
     set_payload_size 1 (Packet_headers (key_ip_header (tcp_key c))
       ((key_tcp_header (tcp_key c))
          \<lparr>sync := True, seq_num := seq, window_size := ucast (rb_free_space ops (recv_buffer c))\<rparr>))"

definition MakeFinPacket :: "'b TcpController \<Rightarrow> uint32 \<Rightarrow> Packet" where
  "MakeFinPacket c seq =
     set_payload_size 1 (Packet_headers (key_ip_header (tcp_key c))
       ((key_tcp_header (tcp_key c))\<lparr>fin := True, seq_num := seq\<rparr>))"

definition MakeRstPacket :: "'b TcpController \<Rightarrow> Packet" where
  "MakeRstPacket c =
     Packet_headers (key_ip_header (tcp_key c)) ((key_tcp_header (tcp_key c))\<lparr>rst := True\<rparr>)"

section \<open>Sending\<close>

text \<open>\<^verbatim>\<open>TcpController::SendPacket\<close>: queue a packet for the host; null is ignored.\<close>

definition Tcp_SendPacket :: "Packet option \<Rightarrow> 'b TcpController \<Rightarrow> 'b TcpController" where
  "Tcp_SendPacket pkt c =
     (case pkt of None \<Rightarrow> c
      | Some p \<Rightarrow> c\<lparr>pkt_send_buffer := snd (Push (pkt_send_buffer c) p)\<rparr>)"

text \<open>\<^verbatim>\<open>SendPacket(send_window_.GetBasePakcketToReSend())\<close>.\<close>

definition resend_base_packet :: "'b TcpController \<Rightarrow> 'b TcpController checked" where
  "resend_base_packet c =
     bindR (GetBasePakcketToReSend (send_window c)) (\<lambda>(pkt, w).
       Inr (Tcp_SendPacket pkt (c\<lparr>send_window := w\<rparr>)))"

definition TryConnect :: "'b ring_ops \<Rightarrow> 'b TcpController \<Rightarrow> (bool \<times> 'b TcpController) checked" where
  "TryConnect ops c =
     (if tcp_state c \<noteq> CLOSED then Inr (False, c)
      else
        let sync_pkt = MakeSyncPacket ops c (send_base (send_window c))
        in bindR (SendPacket (send_window c) sync_pkt) (\<lambda>(sent, w).
             if \<not> sent then Inr (False, c\<lparr>send_window := w\<rparr>)
             else
               let c1 = c\<lparr>send_window := w, tcp_state := SYN_SENT\<rparr>
               in bindR (Copy sync_pkt) (\<lambda>copy.
                    let c2 = Tcp_SendPacket (Some copy) c1
                    in Inr (True, timer_op Syn_timer Timer_Restart
                                    (timer_op Timer (Timer_Restart_in (CurrentTimeOut c2)) c2)))))"

definition TryShutDown :: "'b TcpController \<Rightarrow> bool \<times> 'b TcpController" where
  "TryShutDown c = (if InClosingState c then (True, c) else (True, AddTask SendFIN_task c))"

definition CloseConnection :: "'b TcpController \<Rightarrow> 'b TcpController" where
  "CloseConnection c = AddTask SendRSTForClosedConnection_task c"

definition TryClose :: "'b TcpController \<Rightarrow> bool \<times> 'b TcpController" where
  "TryClose c = (True, CloseConnection (snd (TryShutDown c)))"

text \<open>
  One round of the loop of \<^verbatim>\<open>SendRSTForClosedConnection\<close>; \<open>None\<close> when the thread ends.
\<close>

definition SendRSTForClosedConnection_round ::
  "'b ring_ops \<Rightarrow> 'b TcpController \<Rightarrow> 'b TcpController waits option" where
  "SendRSTForClosedConnection_round ops c =
     (if shutdown_flag c then None
      else if rb_empty ops (recv_buffer c) then Some Blocks
      else
        let c1 = c\<lparr>recv_buffer := rb_Clear ops (recv_buffer c), tcp_state := CLOSED\<rparr>;
            c2 = timer_op Close_timer Timer_Restart c1
        in Some (Returns (Tcp_SendPacket (Some (MakeRstPacket c2)) c2)))"

definition SendFIN :: "'b ring_ops \<Rightarrow> 'b TcpController \<Rightarrow> 'b TcpController waits checked" where
  "SendFIN ops c =
     (if shutdown_flag c then Inr (Returns c)
      else if \<not> rb_empty ops (send_buffer c) then Inr Blocks
      else
        let w = set_capacity (sw_size (send_window c) + 1) (send_window c);
            fin_pkt = MakeFinPacket c (NextSeqNumberToSend w)
        in bindR (SendPacket w fin_pkt) (\<lambda>(sent, w').
           if \<not> sent then Inl (Log_fatal ''Failed to send FIN segment'')
           else
             let c1 = c\<lparr>send_window := w'\<rparr>
             in if tcp_state c1 = ESTABLISHED \<or> tcp_state c1 = CLOSE_WAIT then
                  let c2 = c1\<lparr>tcp_state := (if tcp_state c1 = ESTABLISHED then FIN_WAIT_1 else LAST_ACK)\<rparr>
                  in bindR (Copy fin_pkt) (\<lambda>copy.
                       let c3 = Tcp_SendPacket (Some copy) c2
                       in Inr (Returns (timer_op Fin_timer Timer_Restart
                            (timer_op Timer (Timer_Restart_in (CurrentTimeOut c3)) c3))))
                else Inr (Returns c1)))"

section \<open>Round trip time and congestion control\<close>

text \<open>
  Arithmetic in \<^verbatim>\<open>double\<close>: the exact result of each operation is rounded by \<open>rnd\<close>, the
  rounding of the floating point implementation. \<^verbatim>\<open>static_cast<int64>\<close> truncates.
\<close>

definition trunc_int64 :: "rat \<Rightarrow> int" where
  "trunc_int64 r = (if 0 \<le> r then \<lfloor>r\<rfloor> else \<lceil>r\<rceil>)"

definition smooth :: "(rat \<Rightarrow> rat) \<Rightarrow> rat \<Rightarrow> int \<Rightarrow> int \<Rightarrow> int" where
  "smooth rnd factor old new =
     trunc_int64 (rnd (rnd (rnd (of_int old) * rnd (1 - factor)) + rnd (rnd (of_int new) * factor)))"

definition UpdateRTT :: "(rat \<Rightarrow> rat) \<Rightarrow> 'b TcpController \<Rightarrow> nanoseconds \<Rightarrow> 'b TcpController" where
  "UpdateRTT rnd c new_rtt =
     (let est = smooth rnd kRTTExpFactor (estimated_rtt c) new_rtt;
          dev = smooth rnd kRTTDevExpFactor (dev_rtt c) \<bar>new_rtt - est\<bar>
      in c\<lparr>estimated_rtt := est, dev_rtt := dev, timeout_interval := est + 4 * dev\<rparr>)"

text \<open>
  The case \<^verbatim>\<open>CONGESTION_AVOIDANCE\<close> has no \<^verbatim>\<open>break\<close>: the code of \<^verbatim>\<open>FAST_RECOVERY\<close> runs after
  it. \<^verbatim>\<open>cwnd_\<close> is a divisor.
\<close>

definition cc_fast_recovery :: "AckResult \<Rightarrow> 'b TcpController \<Rightarrow> 'b TcpController" where
  "cc_fast_recovery ack_re c =
     (if ack_refreshed ack_re then c\<lparr>cwnd := ssthresh c, cc_state := CONGESTION_AVOIDANCE\<rparr>
      else if dup_ack ack_re then c\<lparr>cwnd := cwnd c + kDefaultDataPacketSize\<rparr>
      else c)"

definition cc_enter_recovery :: "'b TcpController \<Rightarrow> 'b TcpController" where
  "cc_enter_recovery c =
     (let th = cwnd c div 2
      in c\<lparr>ssthresh := th, cwnd := th + 2 * kDefaultDataPacketSize, cc_state := FAST_RECOVERY\<rparr>)"

definition UpdateCongestionControl :: "'b TcpController \<Rightarrow> AckResult \<Rightarrow> 'b TcpController checked" where
  "UpdateCongestionControl c ack_re =
     (case cc_state c of
        SLOW_START \<Rightarrow>
          if ack_refreshed ack_re then
            let c1 = c\<lparr>cwnd := cwnd c + kDefaultDataPacketSize\<rparr>
            in Inr (if cwnd c1 \<ge> ssthresh c1 then c1\<lparr>cc_state := CONGESTION_AVOIDANCE\<rparr> else c1)
          else if re_transmit ack_re then Inr (cc_enter_recovery c)
          else Inr c
      | CONGESTION_AVOIDANCE \<Rightarrow>
          bindR
            (if ack_refreshed ack_re then
               if cwnd c = 0 then Inl (Undefined_behaviour ''division by zero'')
               else Inr (c\<lparr>cwnd := cwnd c + kDefaultDataPacketSize * kDefaultDataPacketSize div cwnd c\<rparr>)
             else if re_transmit ack_re then Inr (cc_enter_recovery c)
             else Inr c)
            (\<lambda>c1. Inr (cc_fast_recovery ack_re c1))
      | FAST_RECOVERY \<Rightarrow> Inr (cc_fast_recovery ack_re c))"

definition CurrentCWND :: "'b TcpController \<Rightarrow> uint32" where
  "CurrentCWND c = cwnd c"

definition GetNewSendWindowSize :: "'b TcpController \<Rightarrow> uint32 \<Rightarrow> uint32" where
  "GetNewSendWindowSize c rwnd = (if kEnableCongestionControl then min rwnd (CurrentCWND c) else rwnd)"

definition TimeoutReTransmitter :: "'b TcpController \<Rightarrow> 'b TcpController checked" where
  "TimeoutReTransmitter c =
     bindR (if NumPacketsToAck (send_window c) > 0 then resend_base_packet c else Inr c) (\<lambda>c1.
       Inr (c1\<lparr>ssthresh := cwnd c1 div 2, cwnd := kDefaultDataPacketSize, cc_state := SLOW_START\<rparr>))"

section \<open>Closing\<close>

definition CloseAndDelete :: "'b TcpController \<Rightarrow> 'b TcpController" where
  "CloseAndDelete c =
     (if shutdown_flag c then c else detach_thread Shut_down (c\<lparr>shutdown_flag := True\<rparr>))"

text \<open>
  The part of \<^verbatim>\<open>TearDown\<close> that concerns the controller's own timers and queues; it blocks
  while a reader of a queue has not left. The second \<^verbatim>\<open>syn_timer_.Stop()\<close> is the code's.
\<close>

definition TearDown_queues :: "'b TcpController \<Rightarrow> unit waits \<times> 'b TcpController" where
  "TearDown_queues c =
     (let c1 = fold (\<lambda>t. timer_op t Timer_Stop)
                 [Timer, Syn_timer, Fin_timer, Syn_timer, Close_timer, Prober_timer] c
      in case Stop (pkt_recv_buffer c1) of
           (Blocks, q) \<Rightarrow> (Blocks, c1\<lparr>pkt_recv_buffer := q\<rparr>)
         | (Returns _, q) \<Rightarrow>
             let c2 = c1\<lparr>pkt_recv_buffer := q\<rparr>; (r, q') = Stop (pkt_send_buffer c2)
             in (r, c2\<lparr>pkt_send_buffer := q'\<rparr>))"

section \<open>The receive pipeline\<close>

definition ReceiveNewPacket :: "Packet \<Rightarrow> 'b TcpController \<Rightarrow> 'b TcpController" where
  "ReceiveNewPacket pkt c = c\<lparr>pkt_recv_buffer := snd (Push (pkt_recv_buffer c) pkt)\<rparr>"

text \<open>\<^verbatim>\<open>recv_buffer_.Write(pkt->payload(), pkt->payload_size())\<close>.\<close>

definition write_payload :: "'b ring_ops \<Rightarrow> 'b \<Rightarrow> Packet \<Rightarrow> (uint32 \<times> 'b) checked" where
  "write_payload ops buf pkt =
     (case payload pkt of
        None \<Rightarrow> if payload_size pkt = 0 then Inr (rb_Write ops buf [] 0)
                else Inl (Null_pointer ''payload'')
      | Some bs \<Rightarrow> if pkt_len pkt \<le> length bs then Inr (rb_Write ops buf bs (uint (payload_size pkt)))
                   else Inl (Undefined_behaviour ''payload shorter than its size''))"

text \<open>The loop over the overflow queue, \<open>n\<close> rounds at most.\<close>

fun push_overflowed ::
  "'b ring_ops \<Rightarrow> nat \<Rightarrow> 'b \<Rightarrow> Packet list \<Rightarrow> ('b \<times> Packet list) checked" where
  "push_overflowed ops 0 buf pkts = Inr (buf, pkts)"
| "push_overflowed ops (Suc n) buf [] = Inr (buf, [])"
| "push_overflowed ops (Suc n) buf (pkt # pkts) =
     (if rb_free_space ops buf \<ge> payload_size pkt then
        bindR (write_payload ops buf pkt) (\<lambda>(writen, buf').
          if writen > 0 then push_overflowed ops n buf' pkts else Inr (buf', pkt # pkts))
      else Inr (buf, pkt # pkts))"

definition PushOverflowedPacketsToSocketBuffer ::
  "'b ring_ops \<Rightarrow> 'b TcpController \<Rightarrow> 'b TcpController checked" where
  "PushOverflowedPacketsToSocketBuffer ops c =
     (let overflowed_pkts_size = of_nat (length (overflow_pkts c)) :: uint32
      in bindR (push_overflowed ops (unat overflowed_pkts_size) (recv_buffer c) (overflow_pkts c))
           (\<lambda>(buf, pkts). Inr (c\<lparr>recv_buffer := buf, overflow_pkts := pkts\<rparr>)))"

text \<open>
  The loop over the received nodes. A SYN among them makes the loop spin: its \<^verbatim>\<open>continue\<close>
  does not advance \<^verbatim>\<open>node\<close>.
\<close>

fun stream_nodes :: "'b ring_ops \<Rightarrow> Packet list \<Rightarrow> 'b TcpController \<Rightarrow> 'b TcpController checked" where
  "stream_nodes ops [] c = Inr c"
| "stream_nodes ops (pkt # nodes) c =
     (if sync (tcp_header pkt) then Inl (Diverges ''StreamDataToReceiveBuffer'')
      else if fin (tcp_header pkt) then Inr (c\<lparr>pipe_state := EOF_NOT_CONSUMED\<rparr>)
      else if rb_free_space ops (recv_buffer c) \<ge> payload_size pkt then
        bindR (write_payload ops (recv_buffer c) pkt) (\<lambda>(writen, buf).
          let c1 = c\<lparr>recv_buffer := buf\<rparr>
          in stream_nodes ops nodes
               (if writen \<le> 0 then c1\<lparr>overflow_pkts := overflow_pkts c1 @ [pkt]\<rparr> else c1))
      else stream_nodes ops nodes (c\<lparr>overflow_pkts := overflow_pkts c @ [pkt]\<rparr>))"

definition StreamDataToReceiveBuffer ::
  "'b ring_ops \<Rightarrow> Packet list \<Rightarrow> 'b TcpController \<Rightarrow> 'b TcpController checked" where
  "StreamDataToReceiveBuffer ops nodes c =
     bindR (PushOverflowedPacketsToSocketBuffer ops c) (stream_nodes ops nodes)"

text \<open>One round of \<^verbatim>\<open>ReceiveBufferListener\<close>, whose wait does not look at the shutdown flag.\<close>

definition ReceiveBufferListener_round ::
  "'b ring_ops \<Rightarrow> 'b TcpController \<Rightarrow> 'b TcpController waits checked option" where
  "ReceiveBufferListener_round ops c =
     (if shutdown_flag c then None
      else if rb_full ops (recv_buffer c) then Some (Inr Blocks)
      else Some (bindR (PushOverflowedPacketsToSocketBuffer ops c) (\<lambda>c1. Inr (Returns c1))))"

section \<open>Handlers\<close>

definition HandleRst :: "'b TcpController \<Rightarrow> bool \<times> 'b TcpController" where
  "HandleRst c = (True, CloseAndDelete c)"

definition HandleDataPacket ::
  "'b ring_ops \<Rightarrow> 'b TcpController \<Rightarrow> Packet \<Rightarrow> (bool \<times> 'b TcpController) checked" where
  "HandleDataPacket ops c pkt =
     (if payload_size pkt = 0
      then Inr (True, Tcp_SendPacket (Some (MakeAckPacket ops c (recv_base (recv_window c)))) c)
      else
        bindR (ReceivePacket (recv_window c) pkt) (\<lambda>(an, nodes, w).
        bindR (StreamDataToReceiveBuffer ops nodes (c\<lparr>recv_window := w\<rparr>)) (\<lambda>c1.
          Inr (True, Tcp_SendPacket (Some (MakeAckPacket ops c1 an)) c1))))"

definition HandleSYN ::
  "'b ring_ops \<Rightarrow> 'b TcpController \<Rightarrow> Packet \<Rightarrow> (bool \<times> 'b TcpController) checked" where
  "HandleSYN ops c pkt =
     (let client_seq_num = pkt_seq pkt
      in bindR (ReceivePacket (recv_window c) pkt) (\<lambda>(an, nodes, rw).
         bindR (guardR (an = client_seq_num + 1)
                  (Sanity_check ''Server's recv_base should be client_seq_num + 1'')) (\<lambda>_.
         let c1 = c\<lparr>recv_window := rw\<rparr>
         in if sw_size (send_window c1) > 0 then bindR (resend_base_packet c1) (\<lambda>c2. Inr (True, c2))
            else
              let sync_pkt = MakeSyncPacket ops c1 0;
                  sync_ack_pkt = sync_pkt\<lparr>tcp_header := (tcp_header sync_pkt)\<lparr>ack := True, ack_num := an\<rparr>\<rparr>
              in bindR (SendPacket (send_window c1) sync_ack_pkt) (\<lambda>(sent, w).
                 let c2 = c1\<lparr>send_window := w\<rparr>
                 in if \<not> sent then Inr (False, c2)
                    else
                      let c3 = c2\<lparr>tcp_state := SYN_RCVD\<rparr>
                      in bindR (Copy sync_ack_pkt) (\<lambda>copy.
                         let c4 = Tcp_SendPacket (Some copy) c3
                         in Inr (True, timer_op Syn_timer Timer_Restart
                              (timer_op Timer (Timer_Restart_in (CurrentTimeOut c4)) c4)))))))"

text \<open>
  The handlers that acknowledge packets of the send window also take and return
  \<^verbatim>\<open>max_duplicated_acks\<close>, the variable shared by all windows.
\<close>

definition stop_timer_if_clear :: "'b TcpController \<Rightarrow> 'b TcpController" where
  "stop_timer_if_clear c =
     (if NumPacketsToAck (send_window c) = 0 then timer_op Timer Timer_Stop c else c)"

definition HandleACKSYN ::
  "'b tcp_env \<Rightarrow> uint32 \<Rightarrow> 'b TcpController \<Rightarrow> Packet \<Rightarrow> (bool \<times> uint32 \<times> 'b TcpController) checked" where
  "HandleACKSYN env max_dups c pkt =
     bindR
       (if tcp_state c = SYN_SENT then
          let c1 = timer_op Syn_timer Timer_Stop c
          in bindR (NewAckedPacket (elapsed_time env) max_dups (send_window c1) (ack_num (tcp_header pkt)))
               (\<lambda>(_, w, m).
                 let c2 = stop_timer_if_clear (c1\<lparr>send_window := w\<rparr>);
                     cap = GetNewSendWindowSize c2 (ucast (window_size (tcp_header pkt)))
                 in Inr (m, c2\<lparr>send_window := set_capacity cap (send_window c2), tcp_state := ESTABLISHED\<rparr>))
        else Inr (max_dups, c))
       (\<lambda>(m, c3).
         let c4 = c3\<lparr>recv_window := set_recv_base (pkt_seq pkt + 1) (recv_window c3)\<rparr>
         in Inr (True, m, Tcp_SendPacket (Some (MakeAckPacket (ring env) c4 (pkt_seq pkt + 1))) c4))"

definition HandleFIN ::
  "'b ring_ops \<Rightarrow> 'b TcpController \<Rightarrow> Packet \<Rightarrow> (bool \<times> 'b TcpController) checked" where
  "HandleFIN ops c pkt =
     (let c1 = (if tcp_state c = ESTABLISHED then c\<lparr>tcp_state := CLOSE_WAIT\<rparr>
                else if tcp_state c = FIN_WAIT_2
                then detach_thread Kill_after_sleep (c\<lparr>tcp_state := TIME_WAIT\<rparr>)
                else if tcp_state c = FIN_WAIT_1 then c\<lparr>tcp_state := CLOSING\<rparr>
                else c)
      in bindR (ReceivePacket (recv_window c1) pkt) (\<lambda>(an, nodes, w).
         bindR (StreamDataToReceiveBuffer ops nodes (c1\<lparr>recv_window := w\<rparr>)) (\<lambda>c2.
           Inr (True, Tcp_SendPacket (Some (MakeAckPacket ops c2 an)) c2))))"

text \<open>The transitions at the end of \<^verbatim>\<open>HandleACK\<close>.\<close>

definition ack_transition :: "bool \<Rightarrow> 'b TcpController \<Rightarrow> 'b TcpController" where
  "ack_transition send_window_empty c =
     (if tcp_state c = SYN_RCVD then timer_op Syn_timer Timer_Stop (c\<lparr>tcp_state := ESTABLISHED\<rparr>)
      else if tcp_state c = FIN_WAIT_1 \<and> send_window_empty
      then timer_op Fin_timer Timer_Stop (c\<lparr>tcp_state := FIN_WAIT_2\<rparr>)
      else if tcp_state c = LAST_ACK \<and> send_window_empty
      then CloseAndDelete (timer_op Fin_timer Timer_Stop (c\<lparr>tcp_state := CLOSED\<rparr>))
      else if tcp_state c = CLOSING
      then detach_thread Kill_after_sleep (c\<lparr>tcp_state := TIME_WAIT\<rparr>)
      else c)"

text \<open>The middle of \<^verbatim>\<open>HandleACK\<close>: the timer, and the window size the receiver indicated.\<close>

definition ack_flow_control :: "Packet \<Rightarrow> 'b TcpController \<Rightarrow> 'b TcpController" where
  "ack_flow_control pkt c1 =
     (let c2 = (if NumPacketsToAck (send_window c1) = 0 then timer_op Timer Timer_Stop c1
                else timer_op Timer (Timer_Restart_in (CurrentTimeOut c1)) c1);
          cap = GetNewSendWindowSize c2 (ucast (window_size (tcp_header pkt)));
          c3 = c2\<lparr>send_window := set_capacity cap (send_window c2)\<rparr>
      in if cap > 0 then timer_op Prober_timer Timer_Stop c3 else c3)"

definition HandleACK ::
  "'b tcp_env \<Rightarrow> uint32 \<Rightarrow> 'b TcpController \<Rightarrow> Packet \<Rightarrow> (bool \<times> uint32 \<times> 'b TcpController) checked" where
  "HandleACK env max_dups c pkt =
     bindR (NewAckedPacket (elapsed_time env) max_dups (send_window c) (ack_num (tcp_header pkt)))
       (\<lambda>(ack_re, w, m).
     bindR (if re_transmit ack_re then resend_base_packet (c\<lparr>send_window := w\<rparr>)
            else Inr (c\<lparr>send_window := w\<rparr>)) (\<lambda>c1.
     let c2 = ack_flow_control pkt c1
     in Inr (True, m, ack_transition (NumPacketsToAck (send_window c2) = 0) c2)))"

section \<open>Dispatch\<close>

definition HandleReceivedPacket ::
  "'b tcp_env \<Rightarrow> uint32 \<Rightarrow> 'b TcpController \<Rightarrow> Packet \<Rightarrow> (uint32 \<times> 'b TcpController) checked" where
  "HandleReceivedPacket env m c pkt =
     (let h = tcp_header pkt
      in if sync h \<and> \<not> ack h then bindR (HandleSYN (ring env) c pkt) (\<lambda>(_, c'). Inr (m, c'))
         else if sync h \<and> ack h then bindR (HandleACKSYN env m c pkt) (\<lambda>(_, r). Inr r)
         else if fin h then bindR (HandleFIN (ring env) c pkt) (\<lambda>(_, c'). Inr (m, c'))
         else if ack h then bindR (HandleACK env m c pkt) (\<lambda>(_, r). Inr r)
         else if rst h then Inr (m, snd (HandleRst c))
         else bindR (HandleDataPacket (ring env) c pkt) (\<lambda>(_, c'). Inr (m, c')))"

fun HandleReceivedPackets ::
  "'b tcp_env \<Rightarrow> uint32 \<Rightarrow> 'b TcpController \<Rightarrow> Packet list \<Rightarrow> (uint32 \<times> 'b TcpController) checked" where
  "HandleReceivedPackets env m c [] = Inr (m, c)"
| "HandleReceivedPackets env m c (pkt # pkts) =
     bindR (HandleReceivedPacket env m c pkt) (\<lambda>(m', c'). HandleReceivedPackets env m' c' pkts)"

definition PacketReceiveBufferListener_round ::
  "'b tcp_env \<Rightarrow> uint32 \<Rightarrow> 'b TcpController \<Rightarrow> (uint32 \<times> 'b TcpController) waits checked option" where
  "PacketReceiveBufferListener_round env m c =
     (if shutdown_flag c then None
      else Some (case DeQueueAllTo True (pkt_recv_buffer c) [] of
          (Blocks, q) \<Rightarrow> Inr Blocks
        | (Returns (_, new_packets), q) \<Rightarrow>
            bindR (HandleReceivedPackets env m (c\<lparr>pkt_recv_buffer := q\<rparr>) new_packets)
              (\<lambda>r. Inr (Returns r))))"

section \<open>The application's calls\<close>

text \<open>
  \<^verbatim>\<open>ReadData\<close> returns the call's result and the bytes stored in the caller's buffer;
  \<^verbatim>\<open>WriteData\<close> takes the bytes behind the caller's pointer.
\<close>

definition ReadData ::
  "'b ring_ops \<Rightarrow> 'b TcpController \<Rightarrow> int32 \<Rightarrow> ((int32 \<times> byte list) \<times> 'b TcpController) waits checked" where
  "ReadData ops c sz =
     (if pipe_state c = EOF_CONSUMED then Inl (Log_fatal ''There should be no data after EOF.'')
      else if \<not> (shutdown_flag c \<or> pipe_state c = EOF_NOT_CONSUMED \<or> \<not> rb_empty ops (recv_buffer c))
      then Inr Blocks
      else if shutdown_flag c then Inr (Returns ((-1, []), c))
      else if pipe_state c \<noteq> EOF_NOT_CONSUMED \<and> rb_empty ops (recv_buffer c)
      then Inr (Returns ((-1, []), c))
      else if pipe_state c = EOF_NOT_CONSUMED \<and> rb_empty ops (recv_buffer c)
      then Inr (Returns ((0, []), c\<lparr>pipe_state := EOF_CONSUMED\<rparr>))
      else let (bs, buf) = rb_Read ops (recv_buffer c) sz; readn = of_nat (length bs) :: uint32
           in Inr (Returns ((int32_of_uint32 readn, bs), c\<lparr>recv_buffer := buf\<rparr>)))"

definition WriteData ::
  "'b ring_ops \<Rightarrow> 'b TcpController \<Rightarrow> byte list \<Rightarrow> int32 \<Rightarrow> (int32 \<times> 'b TcpController) waits" where
  "WriteData ops c buf sz =
     (if InClosingState c then Returns (-1, c)
      else if \<not> (shutdown_flag c \<or> \<not> rb_full ops (send_buffer c)) then Blocks
      else if shutdown_flag c then Returns (-1, c)
      else let (writen, b) = rb_Write ops (send_buffer c) buf sz
           in Returns (int32_of_uint32 writen, c\<lparr>send_buffer := b\<rparr>))"

section \<open>The send pipeline\<close>

text \<open>
  Take \<open>sz\<close> bytes from the send buffer, register them as a packet in the send window, and
  queue a copy for the host. If the window refuses the packet, its bytes are gone. The
  second component tells whether it was accepted.
\<close>

definition send_from_buffer ::
  "'b ring_ops \<Rightarrow> bool \<Rightarrow> uint32 \<Rightarrow> 'b TcpController \<Rightarrow> (bool \<times> 'b TcpController) checked" where
  "send_from_buffer ops restart_timer sz c =
     (let (pkt, buf) = MakeDataPacket_from ops c (NextSeqNumberToSend (send_window c)) (send_buffer c) sz;
          c1 = c\<lparr>send_buffer := buf\<rparr>
      in bindR (SendPacket (send_window c1) pkt) (\<lambda>(sent, w).
           let c2 = c1\<lparr>send_window := w\<rparr>
           in if \<not> sent then Inr (False, c2)
              else bindR (Copy pkt) (\<lambda>copy.
                let c3 = Tcp_SendPacket (Some copy) c2
                in Inr (True, if restart_timer
                              then timer_op Timer (Timer_Restart_in (CurrentTimeOut c3)) c3 else c3))))"

fun send_full_packets ::
  "'b ring_ops \<Rightarrow> nat \<Rightarrow> 'b TcpController \<Rightarrow> 'b TcpController checked" where
  "send_full_packets ops 0 c = Inr c"
| "send_full_packets ops (Suc n) c =
     bindR (send_from_buffer ops (NumPacketsToAck (send_window c) = 0) kDefaultDataPacketSize c)
       (\<lambda>(_, c'). send_full_packets ops n c')"

text \<open>
  \<^verbatim>\<open>SendBufferListener\<close> first waits for the connection, then loops. A round ends the
  thread (\<open>None\<close>) or leaves the state for the next one.
\<close>

definition SendBufferListener_start :: "'b TcpController \<Rightarrow> bool waits" where
  "SendBufferListener_start c =
     (if \<not> (shutdown_flag c \<or> \<not> InConnectingState c) then Blocks
      else Returns (\<not> shutdown_flag c))"

text \<open>
  Creating and sending the data packets. \<^verbatim>\<open>size_to_send\<close> is an \<^verbatim>\<open>int\<close> that is divided by a
  \<^verbatim>\<open>uint32\<close>: the division is unsigned, on the same 32 bits.
\<close>

definition SendBufferListener_send ::
  "'b ring_ops \<Rightarrow> 'b TcpController \<Rightarrow> 'b TcpController checked" where
  "SendBufferListener_send ops c =
     (let size_to_send = min (free_space (send_window c)) (rb_size ops (send_buffer c));
          num_pkts = size_to_send div kDefaultDataPacketSize;
          last_pkt_size = size_to_send mod kDefaultDataPacketSize
      in bindR (send_full_packets ops (unat num_pkts) c) (\<lambda>c1.
           if last_pkt_size > 0
           then bindR (send_from_buffer ops (sw_size (send_window c1) = 0) last_pkt_size c1)
                  (\<lambda>(_, c2). Inr c2)
           else Inr c1))"

text \<open>
  The rest of a round, from the moment both locks are held: the window may have changed
  since the first wait, so its free space is tested again.
\<close>

definition SendBufferListener_locked ::
  "'b tcp_env \<Rightarrow> 'b TcpController \<Rightarrow> 'b TcpController checked" where
  "SendBufferListener_locked env c =
     (let w = send_window c
      in if free_space w \<le> 0 \<and> capacity w > 0 then Inr c
         else if capacity w = 0
         then Inr (if prober_started env then c else timer_op Prober_timer Timer_Restart c)
         else SendBufferListener_send (ring env) c)"

definition SendBufferListener_round ::
  "'b tcp_env \<Rightarrow> 'b TcpController \<Rightarrow> 'b TcpController waits checked option" where
  "SendBufferListener_round env c =
     (let w = send_window c
      in if shutdown_flag c then None
         else if \<not> (free_space w > 0 \<or> (capacity w \<le> 0 \<and> \<not> prober_started env)) then Some (Inr Blocks)
         else if rb_empty (ring env) (send_buffer c) then Some (Inr Blocks)
         else Some (bindR (SendBufferListener_locked env c) (\<lambda>c1. Inr (Returns c1))))"

definition ProbeWindowSize :: "'b TcpController \<Rightarrow> 'b TcpController checked" where
  "ProbeWindowSize c =
     (if capacity (send_window c) = 0 then
        bindR (MakeDataPacket c (NextSeqNumberToSend (send_window c)) None 0) (\<lambda>prober_pkt.
        bindR (Copy prober_pkt) (\<lambda>copy. Inr (Tcp_SendPacket (Some copy) c)))
      else Inr c)"

text \<open>
  One round of \<^verbatim>\<open>PacketSendBufferListener\<close>: the packets to hand to
  \<^verbatim>\<open>Host::MultiplexPacketsFromTcp\<close>.
\<close>

definition PacketSendBufferListener_round ::
  "'b TcpController \<Rightarrow> (Packet list \<times> 'b TcpController) waits option" where
  "PacketSendBufferListener_round c =
     (if shutdown_flag c then None
      else Some (case DeQueueAllTo True (pkt_send_buffer c) [] of
          (Blocks, q) \<Rightarrow> Blocks
        | (Returns (_, packets_to_send), q) \<Rightarrow> Returns (packets_to_send, c\<lparr>pkt_send_buffer := q\<rparr>)))"

end
