(* ===== verification/Tcp_Sending.thy ===== *)
theory Tcp_Sending
  imports Tcp_Controller
begin

text \<open>
  The send pipeline of a controller: what \<^verbatim>\<open>WriteData\<close> and the rounds of
  \<^verbatim>\<open>SendBufferListener\<close> do to the bytes of the application, for any ring buffer that obeys
  its laws.
\<close>

section \<open>Segmentation\<close>

text \<open>A packet with data: a buffer of at least its size, and neither SYN nor FIN.\<close>

definition data_pkt :: "Packet \<Rightarrow> bool" where
  "data_pkt p \<longleftrightarrow> \<not> sync (tcp_header p) \<and> \<not> fin (tcp_header p) \<and> 0 < pkt_len p \<and>
     (\<exists>bs. payload p = Some bs \<and> pkt_len p \<le> length bs)"

text \<open>A data packet as the controller makes it, with no flag set.\<close>

definition plain_pkt :: "Packet \<Rightarrow> bool" where
  "plain_pkt p \<longleftrightarrow> pkt_normal p \<and> data_pkt p \<and> \<not> ack (tcp_header p) \<and> \<not> rst (tcp_header p)"

text \<open>The window after registering a list of packets, one after the other.\<close>

definition registered :: "SendWindow \<Rightarrow> Packet list \<Rightarrow> SendWindow \<Rightarrow> bool" where
  "registered w ps w' \<longleftrightarrow> w' = fold (\<lambda>p w. register_pkt w p) ps w"

lemma registered_trans:
  "registered w ps w1 \<Longrightarrow> registered w1 qs w2 \<Longrightarrow> registered w (ps @ qs) w2"
  by (simp add: registered_def)

lemma registered_fields:
  "registered w ps w' \<Longrightarrow> window_pkts w' = window_pkts w @ ps \<and> duplicated_acks w' = duplicated_acks w"
  unfolding registered_def by (induction ps arbitrary: w) simp_all

lemma registered_simps [simp]: "registered w [] w" "registered w [p] (register_pkt w p)"
  by (simp_all add: registered_def)

text \<open>
  \<open>segmented c ps n c'\<close>: between \<open>c\<close> and \<open>c'\<close> the first \<open>n\<close> bytes of the send buffer have
  become the packets \<open>ps\<close>, registered in the send window behind the others and queued for
  the host in the same order.
\<close>

definition segmented ::
  "('b \<Rightarrow> bool) \<Rightarrow> ('b \<Rightarrow> byte list) \<Rightarrow> 'b TcpController \<Rightarrow> Packet list \<Rightarrow> nat \<Rightarrow> 'b TcpController \<Rightarrow> bool" where
  "segmented ok contents c ps n c' \<longleftrightarrow>
     ok (send_buffer c') \<and> contents (send_buffer c') = drop n (contents (send_buffer c)) \<and>
     concat (map pkt_bytes ps) = take n (contents (send_buffer c)) \<and> seq_span ps = n \<and>
     window_pkts (send_window c') = window_pkts (send_window c) @ ps \<and>
     packets (pkt_send_buffer c') = packets (pkt_send_buffer c) @ ps \<and>
     sw_wf (send_window c') \<and> capacity (send_window c') = capacity (send_window c) \<and>
     send_base (send_window c') = send_base (send_window c) \<and> tcp_state c' = tcp_state c \<and>
     registered (send_window c) ps (send_window c') \<and> (\<forall>p \<in> set ps. plain_pkt p) \<and>
     shutdown_flag c' = shutdown_flag c \<and> destroy (pkt_send_buffer c') = destroy (pkt_send_buffer c)"

lemma segmented_trans:
  assumes "segmented ok contents c ps n c1" "segmented ok contents c1 qs m c2"
  shows "segmented ok contents c (ps @ qs) (n + m) c2"
proof -
  have "drop m (drop n xs) = drop (n + m) xs" for xs :: "byte list"
    by (simp add: add.commute)
  moreover have "registered (send_window c) (ps @ qs) (send_window c2)"
    using assms by (auto simp: segmented_def intro: registered_trans)
  ultimately show ?thesis
    using assms unfolding segmented_def by (auto simp: take_add simp del: drop_drop)
qed

lemma segmented_refl:
  "ok (send_buffer c) \<Longrightarrow> sw_wf (send_window c) \<Longrightarrow> segmented ok contents c [] 0 c"
  by (simp add: segmented_def)

lemma segmented_size:
  "segmented ok contents c ps n c' \<Longrightarrow> sw_wf (send_window c) \<Longrightarrow>
    unat (sw_size (send_window c')) = unat (sw_size (send_window c)) + n"
  by (auto simp: segmented_def sw_wf_def)

lemma free_space_eq:
  "sw_size w \<le> capacity w \<Longrightarrow> unat (free_space w) = unat (capacity w) - unat (sw_size w)"
  by (auto simp: free_space_def word_less_nat_alt word_le_nat_alt unat_sub)

lemma free_space_pos: "0 < free_space w \<Longrightarrow> sw_size w \<le> capacity w"
  by (auto simp: free_space_def split: if_splits)

lemma timer_op_simps [simp]:
  "send_buffer (timer_op t call c) = send_buffer c"
  "send_window (timer_op t call c) = send_window c"
  "pkt_send_buffer (timer_op t call c) = pkt_send_buffer c"
  "recv_window (timer_op t call c) = recv_window c"
  "recv_buffer (timer_op t call c) = recv_buffer c"
  "tcp_state (timer_op t call c) = tcp_state c"
  "tcp_key (timer_op t call c) = tcp_key c"
  "shutdown_flag (timer_op t call c) = shutdown_flag c"
  "timeout_interval (timer_op t call c) = timeout_interval c"
  "pkt_recv_buffer (timer_op t call c) = pkt_recv_buffer c"
  "overflow_pkts (timer_op t call c) = overflow_pkts c"
  "pipe_state (timer_op t call c) = pipe_state c"
  "tcp_socket (timer_op t call c) = tcp_socket c"
  "tasks (timer_op t call c) = tasks c"
  "threads (timer_op t call c) = threads c"
  "release_port (timer_op t call c) = release_port c"
  by (simp_all add: timer_op_def)

lemma Tcp_SendPacket_Some [simp]:
  "Tcp_SendPacket (Some p) c =
    c\<lparr>pkt_send_buffer := (pkt_send_buffer c)\<lparr>packets := packets (pkt_send_buffer c) @ [p]\<rparr>\<rparr>"
  "Tcp_SendPacket None c = c"
  by (simp_all add: Tcp_SendPacket_def Push_def)

lemma MakeDataPacket_from_spec:
  assumes laws: "ring_laws ops ok contents" and buf: "ok buf" "0 < unat sz" "unat sz \<le> length (contents buf)"
  obtains pkt buf' where "MakeDataPacket_from ops c seq buf sz = (pkt, buf')"
    "ok buf'" "contents buf' = drop (unat sz) (contents buf)"
    "pkt_normal pkt" "pkt_seq pkt = seq" "payload_size pkt = sz"
    "pkt_bytes pkt = take (unat sz) (contents buf)" "plain_pkt pkt"
proof -
  obtain bs buf' where rd: "rb_Read ops buf (uint sz) = (bs, buf')" by force
  note r = ring_readD [OF laws buf(1), of "unat sz" bs buf']
  have "rb_Read ops buf (int (unat sz)) = (bs, buf')" using rd by simp
  note r = r [OF this]
  have len: "length bs = unat sz" using r(2) buf(3) by simp
  have "length bs < 2147483648"
    using len buf ring_boundsD(4) [OF laws buf(1)] by simp
  moreover have "sz \<noteq> 0" using buf(2) by auto
  moreover have "bs \<noteq> []" using len buf(2) by auto
  ultimately show thesis
    using that [of _ buf'] r rd len
    by (simp add: MakeDataPacket_from_def InjectPayloadFromBuffer_def pkt_normal_def pkt_bytes_def plain_pkt_def
        data_pkt_def key_tcp_header_def TcpHeader_default_def word_gt_0)
qed

lemma send_from_buffer_spec:
  assumes laws: "ring_laws ops ok contents"
    and c: "ok (send_buffer c)" "sw_wf (send_window c)" "capacity (send_window c) \<noteq> 0"
    and sz: "0 < unat sz" "unat sz \<le> length (contents (send_buffer c))" "sz \<le> free_space (send_window c)"
  shows "\<exists>p c'. send_from_buffer ops restart sz c = Inr (True, c') \<and> payload_size p = sz \<and>
    segmented ok contents c [p] (unat sz) c'"
proof -
  let ?w = "send_window c"
  obtain pkt buf' where mk: "MakeDataPacket_from ops c (NextSeqNumberToSend ?w) (send_buffer c) sz = (pkt, buf')"
    "ok buf'" "contents buf' = drop (unat sz) (contents (send_buffer c))"
    "pkt_normal pkt" "pkt_seq pkt = NextSeqNumberToSend ?w" "payload_size pkt = sz"
    "pkt_bytes pkt = take (unat sz) (contents (send_buffer c))" "plain_pkt pkt"
    using MakeDataPacket_from_spec [OF laws c(1) sz(1,2), of c "NextSeqNumberToSend ?w"] by metis
  have "sw_accepts ?w pkt" using mk sz by (simp add: sw_accepts_def)
  then have send: "SendPacket ?w pkt = Inr (True, register_pkt ?w pkt)"
    using SendPacket_wf [OF c(2)] by simp
  have "0 < free_space ?w" using sz(1,3) by (auto simp: word_less_nat_alt word_le_nat_alt)
  then have "unat (free_space ?w) = unat (capacity ?w) - unat (sw_size ?w)"
    by (intro free_space_eq free_space_pos)
  then have "seq_span (window_pkts ?w) + pkt_len pkt < 4294967296"
    using c(2) sz mk(6) uint32_less [of "capacity ?w"] by (auto simp: sw_wf_def word_le_nat_alt)
  then have "sw_wf (register_pkt ?w pkt)"
    using c(2) mk sz by (intro sw_wf_register) auto
  with mk send show ?thesis
    by (auto simp: send_from_buffer_def Let_def Copy_normal segmented_def intro!: exI [of _ pkt])
qed

lemma segmented_free:
  assumes "segmented ok contents c ps n c'" "sw_wf (send_window c)" "0 < free_space (send_window c)"
    and "n \<le> unat (free_space (send_window c))"
  shows "unat (free_space (send_window c')) = unat (free_space (send_window c)) - n"
proof -
  have "unat (free_space (send_window c)) = unat (capacity (send_window c)) - unat (sw_size (send_window c))"
    "unat (sw_size (send_window c)) \<le> unat (capacity (send_window c))"
    using assms(3) free_space_eq free_space_pos by (auto simp: word_le_nat_alt)
  moreover have "capacity (send_window c') = capacity (send_window c)"
    using assms(1) by (simp add: segmented_def)
  ultimately show ?thesis
    using segmented_size [OF assms(1,2)] assms(4) by (subst free_space_eq) (auto simp: word_le_nat_alt)
qed

lemma send_full_packets_spec:
  assumes "ring_laws ops ok contents" "ok (send_buffer c)" "sw_wf (send_window c)"
    and "10 * n \<le> length (contents (send_buffer c))" "10 * n \<le> unat (free_space (send_window c))"
  shows "\<exists>ps c'. send_full_packets ops n c = Inr c' \<and> segmented ok contents c ps (10 * n) c' \<and>
    length ps = n \<and> (\<forall>p \<in> set ps. pkt_len p = 10)"
  using assms
proof (induction n arbitrary: c)
  case 0
  then show ?case by (auto intro!: segmented_refl)
next
  case (Suc n)
  let ?w = "send_window c"
  have pos: "0 < free_space ?w" using Suc.prems(5) by (simp add: word_less_nat_alt)
  then have cap: "capacity ?w \<noteq> 0" by (auto simp: free_space_def)
  obtain p c1 where c1: "send_from_buffer ops (NumPacketsToAck ?w = 0) kDefaultDataPacketSize c = Inr (True, c1)"
      "payload_size p = 10" "segmented ok contents c [p] 10 c1"
    using send_from_buffer_spec [OF Suc.prems(1-3) cap, of kDefaultDataPacketSize "NumPacketsToAck ?w = 0"]
      Suc.prems(4,5) by (auto simp: kDefaultDataPacketSize_def word_le_nat_alt)
  have seg: "ok (send_buffer c1)" "sw_wf (send_window c1)" "capacity (send_window c1) = capacity ?w"
    "contents (send_buffer c1) = drop 10 (contents (send_buffer c))"
    using c1(3) by (simp_all add: segmented_def)
  have "unat (free_space (send_window c1)) = unat (free_space ?w) - 10"
    using segmented_free [OF c1(3) Suc.prems(3) pos] Suc.prems(5) by simp
  moreover have "10 * n \<le> length (contents (send_buffer c1))" using Suc.prems(4) seg(4) by simp
  ultimately obtain ps c' where "send_full_packets ops n c1 = Inr c'"
      "segmented ok contents c1 ps (10 * n) c'" "length ps = n" "\<forall>p \<in> set ps. pkt_len p = 10"
    using Suc.IH [OF Suc.prems(1) seg(1,2)] Suc.prems(5) by fastforce
  with c1 segmented_trans [OF c1(3), of ps "10 * n" c'] show ?case
    by (intro exI [of _ "p # ps"] exI [of _ c']) auto
qed

lemma packet_count:
  assumes "n = 10 * q + r" "r < 10"
  shows "(n + 9) div 10 = (if r = 0 then q else Suc q)"
proof -
  have "n + 9 = (r + 9) + q * 10" using assms(1) by simp
  then have "(n + 9) div 10 = q + (r + 9) div 10" by simp
  moreover have "(r + 9) div 10 = (if r = 0 then 0 else 1)" using assms(2) by (auto intro: div_nat_eqI)
  ultimately show ?thesis by simp
qed

lemma SendBufferListener_send_split:
  assumes laws: "ring_laws ops ok contents" and c: "ok (send_buffer c)" "sw_wf (send_window c)"
    and le: "10 * q + r \<le> unat (free_space (send_window c))" "10 * q + r \<le> length (contents (send_buffer c))"
    and r: "r < 10"
    and s: "unat (min (free_space (send_window c)) (rb_size ops (send_buffer c)) div 10) = q"
      "unat (min (free_space (send_window c)) (rb_size ops (send_buffer c)) mod 10) = r"
  shows "\<exists>ps c'. SendBufferListener_send ops c = Inr c' \<and> segmented ok contents c ps (10 * q + r) c' \<and>
    length ps = (if r = 0 then q else Suc q) \<and> (\<forall>p \<in> set ps. 0 < pkt_len p \<and> pkt_len p \<le> 10)"
proof -
  let ?w = "send_window c" and ?rest = "min (free_space (send_window c)) (rb_size ops (send_buffer c)) mod 10"
  obtain ps c1 where c1: "send_full_packets ops q c = Inr c1"
      "segmented ok contents c ps (10 * q) c1" "length ps = q" "\<forall>p \<in> set ps. pkt_len p = 10"
    using send_full_packets_spec [OF laws c, of q] le by force
  have step: "SendBufferListener_send ops c =
      (if 0 < ?rest then bindR (send_from_buffer ops (sw_size (send_window c1) = 0) ?rest c1) (\<lambda>(_, c2). Inr c2)
       else Inr c1)"
    using c1(1) s(1) by (simp add: SendBufferListener_send_def kDefaultDataPacketSize_def Let_def)
  show ?thesis
  proof (cases "r = 0")
    case True
    with s(2) have "?rest = 0" by (simp add: u32_eq_iff)
    with True c1 step show ?thesis by auto
  next
    case False
    have seg: "ok (send_buffer c1)" "sw_wf (send_window c1)" "capacity (send_window c1) = capacity ?w"
      using c1(2) by (simp_all add: segmented_def)
    have "0 < ?rest" using s(2) False by (simp add: word_less_nat_alt)
    have pos: "0 < free_space ?w" using le(1) False by (simp add: word_less_nat_alt)
    have "unat (free_space (send_window c1)) = unat (free_space ?w) - 10 * q"
      using segmented_free [OF c1(2) c(2) pos] le(1) by simp
    with le(1) s(2) have "?rest \<le> free_space (send_window c1)" by (simp add: word_le_nat_alt)
    moreover have "unat ?rest \<le> length (contents (send_buffer c1))"
      using c1(2) le(2) s(2) by (simp add: segmented_def)
    moreover have "capacity (send_window c1) \<noteq> 0" using pos seg(3) by (auto simp: free_space_def)
    ultimately obtain p c2 where c2:
        "send_from_buffer ops (sw_size (send_window c1) = 0) ?rest c1 = Inr (True, c2)"
        "payload_size p = ?rest" "segmented ok contents c1 [p] (unat ?rest) c2"
      using send_from_buffer_spec [OF laws seg(1,2), of ?rest "sw_size (send_window c1) = 0"] False s(2)
      by auto
    have "segmented ok contents c (ps @ [p]) (10 * q + r) c2"
      using segmented_trans [OF c1(2) c2(3)] s(2) by simp
    moreover have "0 < pkt_len p \<and> pkt_len p \<le> 10" using c2(2) s(2) False r by simp
    ultimately show ?thesis
      using c1(3,4) c2(1) step \<open>0 < ?rest\<close> False
      by (intro exI [of _ "ps @ [p]"] exI [of _ c2]) auto
  qed
qed

lemma SendBufferListener_send_spec:
  assumes laws: "ring_laws ops ok contents" and c: "ok (send_buffer c)" "sw_wf (send_window c)"
    and n: "n = min (unat (free_space (send_window c))) (length (contents (send_buffer c)))"
  shows "\<exists>ps c'. SendBufferListener_send ops c = Inr c' \<and> segmented ok contents c ps n c' \<and>
    length ps = (n + 9) div 10 \<and> (\<forall>p \<in> set ps. 0 < pkt_len p \<and> pkt_len p \<le> 10)"
proof -
  let ?s = "min (free_space (send_window c)) (rb_size ops (send_buffer c))"
  define q r where "q = n div 10" and "r = n mod 10"
  have qr: "n = 10 * q + r" "r < 10" by (simp_all add: q_def r_def)
  have "unat ?s = n"
    using n ring_boundsD(1) [OF laws c(1)] by (auto simp: min_def word_le_nat_alt)
  then have "unat (?s div 10) = q" "unat (?s mod 10) = r"
    by (simp_all add: unat_div_distrib unat_mod_distrib q_def r_def)
  moreover have "10 * q + r \<le> unat (free_space (send_window c))"
    "10 * q + r \<le> length (contents (send_buffer c))"
    using n qr(1) by simp_all
  ultimately show ?thesis
    using SendBufferListener_send_split [OF laws c _ _ qr(2), of q] packet_count [OF qr] qr(1) by metis
qed

text \<open>
  C21. A round of \<^verbatim>\<open>SendBufferListener\<close> that holds both locks, with an open window, cuts the
  front of the send buffer into packets: as many bytes as the window and the buffer allow,
  in packets of at most ten bytes, none empty and all but the last full. Their payloads,
  one after the other, are exactly the bytes taken; they carry consecutive sequence numbers
  behind the packets in flight, are all registered in the send window, which stays well
  formed and within its capacity, and are queued for the host in this order. Nothing is
  refused, nothing is lost.
\<close>

theorem send_round_segments_the_stream:
  assumes "ring_laws (ring env) ok contents" "ok (send_buffer c)" "sw_wf (send_window c)"
    and "capacity (send_window c) \<noteq> 0" "0 < free_space (send_window c)"
  shows "\<exists>ps c'. SendBufferListener_locked env c = Inr c' \<and>
    (let n = min (unat (free_space (send_window c))) (length (contents (send_buffer c))) in
      concat (map pkt_bytes ps) = take n (contents (send_buffer c)) \<and>
      contents (send_buffer c') = drop n (contents (send_buffer c)) \<and>
      length ps = (n + 9) div 10 \<and> (\<forall>p \<in> set ps. 0 < pkt_len p \<and> pkt_len p \<le> 10) \<and>
      contiguous (NextSeqNumberToSend (send_window c)) ps \<and>
      window_pkts (send_window c') = window_pkts (send_window c) @ ps \<and>
      packets (pkt_send_buffer c') = packets (pkt_send_buffer c) @ ps \<and>
      sw_wf (send_window c') \<and> unat (sw_size (send_window c')) \<le> unat (capacity (send_window c')))"
proof -
  let ?w = "send_window c"
  define n where "n = min (unat (free_space ?w)) (length (contents (send_buffer c)))"
  obtain ps c' where send: "SendBufferListener_send (ring env) c = Inr c'" and
      seg: "segmented ok contents c ps n c'" and
      ps: "length ps = (n + 9) div 10" "\<forall>p \<in> set ps. 0 < pkt_len p \<and> pkt_len p \<le> 10"
    using SendBufferListener_send_spec [OF assms(1-3) n_def] by blast
  have "SendBufferListener_locked env c = Inr c'"
    using send assms(4,5) by (auto simp: SendBufferListener_locked_def Let_def word_gt_0)
  moreover have "contiguous (NextSeqNumberToSend ?w) ps"
    using seg sw_wf_next [OF assms(3)] by (auto simp: segmented_def sw_wf_def contiguous_append)
  moreover have "unat (sw_size (send_window c')) \<le> unat (capacity (send_window c'))"
  proof -
    have "n \<le> unat (capacity ?w) - unat (sw_size ?w)" "sw_size ?w \<le> capacity ?w"
      using free_space_eq free_space_pos assms(5) by (auto simp: n_def min.coboundedI1)
    then show ?thesis
      using segmented_size [OF seg assms(3)] seg by (auto simp: segmented_def word_le_nat_alt)
  qed
  ultimately show ?thesis
    using seg ps unfolding n_def [symmetric] segmented_def Let_def by blast
qed

text \<open>
  A controller with twelve bytes in a list buffer and an open window, and a library to run
  it on.
\<close>

definition list_env :: "list_buffer tcp_env" where
  "list_env = \<lparr>ring = list_ring, elapsed_time = (\<lambda>_. 0), prober_started = False\<rparr>"

definition sending_controller :: "list_buffer TcpController" where
  "sending_controller = (TcpController_new list_ring False 0 TcpControllerKey_default GetDefaultOptions)
     \<lparr>send_buffer := (100, [1, 2, 3, 4, 5, 6, 7, 8, 9, 10, 11, 12])\<rparr>"

theorem send_round_segments_the_stream_witness:
  "\<exists>ps c'. SendBufferListener_locked list_env sending_controller = Inr c' \<and> length ps = 2 \<and>
     concat (map pkt_bytes ps) = [1, 2, 3, 4, 5, 6, 7, 8, 9, 10, 11, 12] \<and>
     packets (pkt_send_buffer c') = ps"
  using send_round_segments_the_stream [of list_env list_ring_inv snd sending_controller]
  by (auto simp: list_env_def sending_controller_def TcpController_new_def GetDefaultOptions_def
      kDefaultWindowSize_def kDefaultWindowBase_def list_ring_laws list_ring_inv_def free_space_def
      SendWindow_new_def PacketQueue_new_def Let_def sw_wf_def)

text \<open>
  \<^verbatim>\<open>WriteData\<close> on every branch: it fails on a closing or shut down connection, blocks while
  the send buffer is full, and otherwise appends as much of the data as fits.
\<close>

lemma WriteData_spec:
  assumes laws: "ring_laws ops ok contents" and c: "ok (send_buffer c)"
    and sz: "0 \<le> sz" "sz < 2147483648" "nat sz \<le> length data"
  shows "\<exists>b. WriteData ops c data sz =
      (if InClosingState c \<or> shutdown_flag c then Returns (-1, c)
       else if rb_free_space ops (send_buffer c) = 0 then Blocks
       else Returns (int (min (nat sz) (unat (rb_free_space ops (send_buffer c)))), c\<lparr>send_buffer := b\<rparr>)) \<and>
    ok b \<and> contents b = contents (send_buffer c) @ take (unat (rb_free_space ops (send_buffer c))) (take (nat sz) data)"
proof -
  obtain r b where wr: "rb_Write ops (send_buffer c) data (int (nat sz)) = (r, b)" by force
  note w = ring_writeD [OF laws c sz(3) wr]
  let ?m = "min (nat sz) (unat (rb_free_space ops (send_buffer c)))"
  have "int32_of_uint32 r = int ?m"
  proof -
    have "unat r < 2147483648" using w(2) sz by simp
    then show ?thesis unfolding w(2) [symmetric] by (simp add: int32_of_uint32_def sint_u32_small)
  qed
  with w wr sz(1) ring_boundsD(3) [OF laws c] show ?thesis
    by (intro exI [of _ b]) (auto simp: WriteData_def min.commute)
qed

end
