(* ===== verification/Tcp_Receiving.thy ===== *)
theory Tcp_Receiving
  imports Tcp_Sending
begin

text \<open>
  The receive pipeline of a controller: from a data packet through the receive window and
  the overflow queue into the socket's receive buffer, and from there to the application.
\<close>

section \<open>Writing payloads\<close>

abbreviation pkts_bytes :: "Packet list \<Rightarrow> byte list" where
  "pkts_bytes ps \<equiv> concat (map pkt_bytes ps)"

lemma length_pkt_bytes: "data_pkt p \<Longrightarrow> length (pkt_bytes p) = pkt_len p"
  by (auto simp: data_pkt_def pkt_bytes_def)

lemma length_pkts_bytes: "\<forall>p \<in> set ps. data_pkt p \<Longrightarrow> length (pkts_bytes ps) = seq_span ps"
  by (induction ps) (auto simp: length_pkt_bytes)

lemma write_payload_spec:
  assumes laws: "ring_laws ops ok contents" and buf: "ok buf" and p: "data_pkt p"
    and fits: "payload_size p \<le> rb_free_space ops buf"
  shows "\<exists>buf'. write_payload ops buf p = Inr (payload_size p, buf') \<and> ok buf' \<and>
    contents buf' = contents buf @ pkt_bytes p \<and>
    unat (rb_free_space ops buf') = unat (rb_free_space ops buf) - pkt_len p"
proof -
  obtain bs where bs: "payload p = Some bs" "pkt_len p \<le> length bs"
    using p by (auto simp: data_pkt_def)
  obtain r buf' where wr: "rb_Write ops buf bs (int (pkt_len p)) = (r, buf')" by force
  have min: "min (pkt_len p) (unat (rb_free_space ops buf)) = pkt_len p"
    using fits by (simp add: word_le_nat_alt)
  note w = ring_writeD [OF laws buf bs(2) wr, unfolded min]
  have "r = payload_size p" using w(2) by (simp add: u32_eq_iff)
  with w wr bs show ?thesis
    by (simp add: write_payload_def pkt_bytes_def)
qed

section \<open>The overflow queue\<close>

lemma push_overflowed_spec:
  assumes "ring_laws ops ok contents" "ok buf" "\<forall>p \<in> set ps. data_pkt p" "length ps \<le> n"
  shows "\<exists>pre rest buf'. push_overflowed ops n buf ps = Inr (buf', rest) \<and> ps = pre @ rest \<and> ok buf' \<and>
    contents buf' = contents buf @ pkts_bytes pre \<and>
    unat (rb_free_space ops buf') = unat (rb_free_space ops buf) - seq_span pre \<and>
    seq_span pre \<le> unat (rb_free_space ops buf) \<and>
    (rest = [] \<or> rb_free_space ops buf' < payload_size (hd rest))"
  using assms
proof (induction ops n buf ps rule: push_overflowed.induct)
  case (3 ops n buf p ps)
  show ?case
  proof (cases "payload_size p \<le> rb_free_space ops buf")
    case True
    have p: "data_pkt p" using "3.prems" by simp
    obtain buf1 where b1: "write_payload ops buf p = Inr (payload_size p, buf1)" "ok buf1"
        "contents buf1 = contents buf @ pkt_bytes p"
        "unat (rb_free_space ops buf1) = unat (rb_free_space ops buf) - pkt_len p"
      using write_payload_spec [OF "3.prems"(1,2) p True] by blast
    have pos: "payload_size p > 0" using p by (auto simp: data_pkt_def word_less_nat_alt)
    obtain pre rest buf' where "push_overflowed ops n buf1 ps = Inr (buf', rest)" "ps = pre @ rest" "ok buf'"
        "contents buf' = contents buf1 @ pkts_bytes pre"
        "unat (rb_free_space ops buf') = unat (rb_free_space ops buf1) - seq_span pre"
        "seq_span pre \<le> unat (rb_free_space ops buf1)"
        "rest = [] \<or> rb_free_space ops buf' < payload_size (hd rest)"
      using "3.IH" [OF True pos "3.prems"(1) b1(2)] "3.prems" by auto
    then show ?thesis
      using b1 True pos
      by (intro exI [of _ "p # pre"] exI [of _ rest] exI [of _ buf']) (auto simp: word_le_nat_alt)
  next
    case False
    then have "push_overflowed ops (Suc n) buf (p # ps) = Inr (buf, p # ps)" by simp
    moreover have "rb_free_space ops buf < payload_size (hd (p # ps))" using False by simp
    ultimately show ?thesis
      using "3.prems" by (rule_tac exI [of _ "[]"], rule_tac exI [of _ "p # ps"]) auto
  qed
qed auto

lemma PushOverflowed_spec:
  assumes "ring_laws ops ok contents" "ok (recv_buffer c)" "\<forall>p \<in> set (overflow_pkts c). data_pkt p"
    and "length (overflow_pkts c) < 4294967296"
  shows "\<exists>pre rest buf'. PushOverflowedPacketsToSocketBuffer ops c =
      Inr (c\<lparr>recv_buffer := buf', overflow_pkts := rest\<rparr>) \<and> overflow_pkts c = pre @ rest \<and> ok buf' \<and>
    contents buf' = contents (recv_buffer c) @ pkts_bytes pre \<and>
    unat (rb_free_space ops buf') = unat (rb_free_space ops (recv_buffer c)) - seq_span pre \<and>
    (rest = [] \<or> rb_free_space ops buf' < payload_size (hd rest))"
proof -
  from push_overflowed_spec [OF assms(1-3) order_refl] obtain pre rest buf' where
    "push_overflowed ops (length (overflow_pkts c)) (recv_buffer c) (overflow_pkts c) = Inr (buf', rest)"
    "overflow_pkts c = pre @ rest" "ok buf'" "contents buf' = contents (recv_buffer c) @ pkts_bytes pre"
    "unat (rb_free_space ops buf') = unat (rb_free_space ops (recv_buffer c)) - seq_span pre"
    "rest = [] \<or> rb_free_space ops buf' < payload_size (hd rest)"
    by blast
  moreover from this(1) assms(4) have "PushOverflowedPacketsToSocketBuffer ops c =
      Inr (c\<lparr>recv_buffer := buf', overflow_pkts := rest\<rparr>)"
    by (simp only: PushOverflowedPacketsToSocketBuffer_def unat_of_nat_u32 Let_def bindR_simps case_prod_conv)
  ultimately show ?thesis by blast
qed

section \<open>Streaming a run\<close>

text \<open>
  Without a limit on the free space, each packet of the run goes either to the buffer or to
  the overflow queue: a shuffle of the two gives the run back.
\<close>

lemma stream_nodes_spec:
  assumes "ring_laws ops ok contents" "ok (recv_buffer c)" "\<forall>p \<in> set ns. data_pkt p"
  shows "\<exists>ws os buf'. stream_nodes ops ns c =
      Inr (c\<lparr>recv_buffer := buf', overflow_pkts := overflow_pkts c @ os\<rparr>) \<and> ns \<in> shuffles ws os \<and> ok buf' \<and>
    contents buf' = contents (recv_buffer c) @ pkts_bytes ws \<and>
    unat (rb_free_space ops buf') = unat (rb_free_space ops (recv_buffer c)) - seq_span ws \<and>
    (seq_span ns \<le> unat (rb_free_space ops (recv_buffer c)) \<longrightarrow> os = [])"
  using assms
proof (induction ns arbitrary: c)
  case Nil
  then show ?case by (intro exI [of _ "[]"] exI [of _ "recv_buffer c"]) auto
next
  case (Cons p ns)
  have p: "data_pkt p" using Cons.prems by simp
  show ?case
  proof (cases "payload_size p \<le> rb_free_space ops (recv_buffer c)")
    case True
    obtain buf1 where b1: "write_payload ops (recv_buffer c) p = Inr (payload_size p, buf1)" "ok buf1"
        "contents buf1 = contents (recv_buffer c) @ pkt_bytes p"
        "unat (rb_free_space ops buf1) = unat (rb_free_space ops (recv_buffer c)) - pkt_len p"
      using write_payload_spec [OF Cons.prems(1,2) p True] by blast
    obtain ws os buf' where IH: "stream_nodes ops ns (c\<lparr>recv_buffer := buf1\<rparr>) =
        Inr (c\<lparr>recv_buffer := buf', overflow_pkts := overflow_pkts c @ os\<rparr>)" "ns \<in> shuffles ws os" "ok buf'"
        "contents buf' = contents buf1 @ pkts_bytes ws"
        "unat (rb_free_space ops buf') = unat (rb_free_space ops buf1) - seq_span ws"
        "seq_span ns \<le> unat (rb_free_space ops buf1) \<longrightarrow> os = []"
      using Cons.IH [of "c\<lparr>recv_buffer := buf1\<rparr>"] Cons.prems b1(2) by auto
    have "\<not> payload_size p \<le> 0" using p by (auto simp: data_pkt_def)
    moreover have "p # ns \<in> shuffles (p # ws) os"
      using IH(2) by (rule Cons_in_shuffles_leftI)
    ultimately show ?thesis
      using True p b1 IH
      by (intro exI [of _ "p # ws"] exI [of _ os] exI [of _ buf'])
         (auto simp: data_pkt_def word_le_nat_alt)
  next
    case False
    obtain ws os buf' where IH: "stream_nodes ops ns (c\<lparr>overflow_pkts := overflow_pkts c @ [p]\<rparr>) =
        Inr (c\<lparr>recv_buffer := buf', overflow_pkts := overflow_pkts c @ p # os\<rparr>)" "ns \<in> shuffles ws os" "ok buf'"
        "contents buf' = contents (recv_buffer c) @ pkts_bytes ws"
        "unat (rb_free_space ops buf') = unat (rb_free_space ops (recv_buffer c)) - seq_span ws"
      using Cons.IH [of "c\<lparr>overflow_pkts := overflow_pkts c @ [p]\<rparr>"] Cons.prems by auto
    moreover have "p # ns \<in> shuffles ws (p # os)"
      using IH(2) by (rule Cons_in_shuffles_rightI)
    moreover have "\<not> seq_span (p # ns) \<le> unat (rb_free_space ops (recv_buffer c))"
      using False by (simp add: word_le_nat_alt)
    ultimately show ?thesis
      using False p
      by (intro exI [of _ ws] exI [of _ "p # os"] exI [of _ buf']) (auto simp: data_pkt_def)
  qed
qed

lemma StreamData_spec:
  assumes laws: "ring_laws ops ok contents" and c: "ok (recv_buffer c)"
    and ov: "\<forall>p \<in> set (overflow_pkts c). data_pkt p" "length (overflow_pkts c) < 4294967296"
    and ns: "\<forall>p \<in> set ns. data_pkt p"
  shows "\<exists>pre rest ws os buf'. StreamDataToReceiveBuffer ops ns c =
      Inr (c\<lparr>recv_buffer := buf', overflow_pkts := rest @ os\<rparr>) \<and>
    overflow_pkts c = pre @ rest \<and> ns \<in> shuffles ws os \<and> ok buf' \<and>
    contents buf' = contents (recv_buffer c) @ pkts_bytes pre @ pkts_bytes ws \<and>
    (seq_span (overflow_pkts c) + seq_span ns \<le> unat (rb_free_space ops (recv_buffer c)) \<longrightarrow>
      rest = [] \<and> os = [])"
proof -
  obtain pre rest buf1 where p: "PushOverflowedPacketsToSocketBuffer ops c =
        Inr (c\<lparr>recv_buffer := buf1, overflow_pkts := rest\<rparr>)" "overflow_pkts c = pre @ rest" "ok buf1"
      "contents buf1 = contents (recv_buffer c) @ pkts_bytes pre"
      "unat (rb_free_space ops buf1) = unat (rb_free_space ops (recv_buffer c)) - seq_span pre"
      "rest = [] \<or> rb_free_space ops buf1 < payload_size (hd rest)"
    using PushOverflowed_spec [OF laws c ov] by blast
  obtain ws os buf' where n: "stream_nodes ops ns (c\<lparr>recv_buffer := buf1, overflow_pkts := rest\<rparr>) =
        Inr (c\<lparr>recv_buffer := buf', overflow_pkts := rest @ os\<rparr>)" "ns \<in> shuffles ws os" "ok buf'"
      "contents buf' = contents buf1 @ pkts_bytes ws"
      "seq_span ns \<le> unat (rb_free_space ops buf1) \<longrightarrow> os = []"
    using stream_nodes_spec [OF laws, of "c\<lparr>recv_buffer := buf1, overflow_pkts := rest\<rparr>" ns] p(3) ns by auto
  have fits: "rest = [] \<and> os = []"
    if "seq_span (overflow_pkts c) + seq_span ns \<le> unat (rb_free_space ops (recv_buffer c))"
  proof -
    have "rest = []"
    proof (rule ccontr)
      assume "rest \<noteq> []"
      with p(6) have "unat (rb_free_space ops buf1) < pkt_len (hd rest)" by (simp add: word_less_nat_alt)
      moreover have "pkt_len (hd rest) \<le> seq_span rest" using \<open>rest \<noteq> []\<close> by (cases rest) auto
      ultimately show False using that p(2,5) by simp
    qed
    then show ?thesis using that p(2,5) n(5) by auto
  qed
  have "StreamDataToReceiveBuffer ops ns c = Inr (c\<lparr>recv_buffer := buf', overflow_pkts := rest @ os\<rparr>)"
    using p(1) n(1) by (simp add: StreamDataToReceiveBuffer_def)
  with p(2,4) n(2-4) fits show ?thesis by (metis append.assoc)
qed

section \<open>Properties\<close>

text \<open>
  C22. A data packet that the receive window expects, with room in the socket's buffer for
  it and what it completes: the handler passes every check, appends to the receive buffer
  the payloads of the longest run of packets contiguous from the receive base, in sequence
  order, and advances the base by exactly the number of bytes appended. It answers with one
  acknowledgement that carries the new base and the space left in the buffer after the
  bytes were stored.
\<close>

theorem data_packet_reaches_socket_in_order:
  assumes laws: "ring_laws ops ok contents" and c: "ok (recv_buffer c)" "overflow_pkts c = []"
    and w: "rw_wf (recv_window c)" "in_space p" "\<forall>q \<in> set (rw_nodes (recv_window c)). disjoint_pkts p q"
      "pkt_seq p = recv_base (recv_window c)"
    and data: "\<forall>q \<in> set (p # rw_nodes (recv_window c)). data_pkt q"
    and room: "seq_span (p # rw_nodes (recv_window c)) \<le> unat (rb_free_space ops (recv_buffer c))"
  shows "\<exists>run rest c'. HandleDataPacket ops c p = Inr (True, c') \<and>
    p # rw_nodes (recv_window c) = run @ rest \<and> contiguous (recv_base (recv_window c)) run \<and>
    contents (recv_buffer c') = contents (recv_buffer c) @ pkts_bytes run \<and> overflow_pkts c' = [] \<and>
    rw_nodes (recv_window c') = rest \<and> rw_wf (recv_window c') \<and>
    recv_base (recv_window c') = recv_base (recv_window c) + of_nat (length (pkts_bytes run)) \<and>
    packets (pkt_send_buffer c') =
      packets (pkt_send_buffer c) @ [MakeAckPacket ops c' (recv_base (recv_window c'))]"
proof -
  obtain run rest where run: "in_order_run p (rw_nodes (recv_window c)) = (run, rest)" by fastforce
  let ?b = "pkt_seq (last run) + payload_size (last run)"
  let ?w = "(recv_window c)\<lparr>rw_nodes := rest, recv_base := ?b\<rparr>"
  note rcv = ReceivePacket_expected [OF w run]
  have split: "p # rw_nodes (recv_window c) = run @ rest"
    using in_order_run_split [OF run] by simp
  have data_run: "\<forall>q \<in> set run. data_pkt q" using data unfolding split by simp
  have "seq_span run \<le> unat (rb_free_space ops (recv_buffer c))"
    using room unfolding split by simp
  then obtain buf' where st: "StreamDataToReceiveBuffer ops run (c\<lparr>recv_window := ?w\<rparr>) =
      Inr (c\<lparr>recv_window := ?w, recv_buffer := buf', overflow_pkts := []\<rparr>)"
      "contents buf' = contents (recv_buffer c) @ pkts_bytes run"
    using StreamData_spec [OF laws, of "c\<lparr>recv_window := ?w\<rparr>" run] c data_run
    by (force simp: shuffles.simps)
  have base: "?b = recv_base (recv_window c) + of_nat (length (pkts_bytes run))"
    using run_end [OF run] w(4) length_pkts_bytes [OF data_run] by simp
  have "payload_size p \<noteq> 0" using data by (auto simp: data_pkt_def)
  then have "HandleDataPacket ops c p = Inr (True, Tcp_SendPacket
      (Some (MakeAckPacket ops (c\<lparr>recv_window := ?w, recv_buffer := buf', overflow_pkts := []\<rparr>) ?b))
      (c\<lparr>recv_window := ?w, recv_buffer := buf', overflow_pkts := []\<rparr>))"
    using rcv st(1) by (simp add: HandleDataPacket_def)
  moreover have "contiguous (recv_base (recv_window c)) run"
    using in_order_run_contiguous [OF run] w(4) by simp
  ultimately show ?thesis
    using split st(2) rcv base
    by (intro exI [of _ run] exI [of _ rest]) (auto simp: MakeAckPacket_def)
qed

text \<open>A controller in the middle of the out-of-order sequence of the receive window's test.\<close>

definition receiving_controller :: "list_buffer TcpController" where
  "receiving_controller = (TcpController_new list_ring False 0 TcpControllerKey_default GetDefaultOptions)
     \<lparr>recv_window := test_recv_window, tcp_state := ESTABLISHED\<rparr>"

lemmas receiving_eval = receiving_controller_def TcpController_new_def GetDefaultOptions_def
  kDefaultSocketBufferSize_def list_ring_def list_ring_inv_def data_pkt_def recv_window_eval

theorem data_packet_reaches_socket_in_order_witness:
  "\<exists>run rest c'. HandleDataPacket list_ring receiving_controller (test_pkt 5 [1, 2, 3, 4, 5]) = Inr (True, c') \<and>
    snd (recv_buffer c') = pkts_bytes run \<and>
    test_pkt 5 [1, 2, 3, 4, 5] # rw_nodes test_recv_window = run @ rest \<and> rw_wf (recv_window c')"
proof -
  have "contiguous (recv_base (recv_window receiving_controller)) [] \<and> snd (recv_buffer receiving_controller) = []"
    by (simp add: receiving_eval)
  moreover have "recv_window receiving_controller = test_recv_window"
    by (simp add: receiving_controller_def)
  ultimately show ?thesis
    using data_packet_reaches_socket_in_order
      [OF list_ring_laws, of receiving_controller "test_pkt 5 [1, 2, 3, 4, 5]"]
    by (force simp: receiving_eval)
qed

text \<open>
  C23. Whatever the space in the socket's buffer, streaming a run loses no byte and repeats
  none: a front part of the overflow queue and a part of the run are appended to the
  buffer, the rest of both makes up the new overflow queue, and when everything fits it
  arrives in order with nothing left over.
\<close>

theorem streaming_loses_nothing:
  assumes "ring_laws ops ok contents" "ok (recv_buffer c)"
    and "\<forall>p \<in> set (overflow_pkts c). data_pkt p" "length (overflow_pkts c) < 4294967296"
    and "\<forall>p \<in> set ns. data_pkt p"
  shows "\<exists>c' stored. StreamDataToReceiveBuffer ops ns c = Inr c' \<and>
    contents (recv_buffer c') = contents (recv_buffer c) @ pkts_bytes stored \<and>
    mset stored + mset (overflow_pkts c') = mset (overflow_pkts c) + mset ns \<and>
    (seq_span (overflow_pkts c @ ns) \<le> unat (rb_free_space ops (recv_buffer c)) \<longrightarrow>
      stored = overflow_pkts c @ ns \<and> overflow_pkts c' = [])"
proof -
  obtain pre rest ws os buf' where
    s: "StreamDataToReceiveBuffer ops ns c = Inr (c\<lparr>recv_buffer := buf', overflow_pkts := rest @ os\<rparr>)"
      "overflow_pkts c = pre @ rest" "ns \<in> shuffles ws os"
      "contents buf' = contents (recv_buffer c) @ pkts_bytes pre @ pkts_bytes ws"
      "seq_span (overflow_pkts c) + seq_span ns \<le> unat (rb_free_space ops (recv_buffer c)) \<longrightarrow>
        rest = [] \<and> os = []"
    using StreamData_spec [OF assms] by blast
  have "mset ns = mset ws + mset os" using s(3) by (rule mset_shuffles)
  moreover have "os = [] \<Longrightarrow> ws = ns" using s(3) by simp
  ultimately show ?thesis
    using s by (intro exI [of _ "c\<lparr>recv_buffer := buf', overflow_pkts := rest @ os\<rparr>"] exI [of _ "pre @ ws"]) auto
qed

theorem streaming_loses_nothing_witness:
  "\<exists>c' stored. StreamDataToReceiveBuffer list_ring [test_pkt 5 [1, 2], test_pkt 7 [3]] receiving_controller = Inr c' \<and>
    snd (recv_buffer c') = pkts_bytes stored \<and> stored = [test_pkt 5 [1, 2], test_pkt 7 [3]]"
  using streaming_loses_nothing
    [OF list_ring_laws, of receiving_controller "[test_pkt 5 [1, 2], test_pkt 7 [3]]"]
  by (force simp: receiving_eval)


text \<open>
  \<^verbatim>\<open>ReadData\<close> on every branch: a shut down connection gives -1, data is handed over in order,
  the end of the stream is reported once and reading after it is fatal; otherwise it blocks.
\<close>

lemma ReadData_spec:
  assumes laws: "ring_laws ops ok contents" and c: "ok (recv_buffer c)" and sz: "0 \<le> sz" "sz < 2147483648"
  shows "ReadData ops c sz = Inl (Log_fatal ''There should be no data after EOF.'') \<and> pipe_state c = EOF_CONSUMED \<or>
    pipe_state c \<noteq> EOF_CONSUMED \<and>
    (\<exists>r c'. ReadData ops c sz = Inr r \<and>
      (let bs = contents (recv_buffer c); n = min (nat sz) (length bs) in
        if shutdown_flag c then r = Returns ((-1, []), c)
        else if bs \<noteq> [] then
          r = Returns ((int n, take n bs), c') \<and> contents (recv_buffer c') = drop n bs \<and> ok (recv_buffer c') \<and>
          pipe_state c' = pipe_state c
        else if pipe_state c = EOF_NOT_CONSUMED then
          r = Returns ((0, []), c\<lparr>pipe_state := EOF_CONSUMED\<rparr>)
        else r = Blocks))"
proof (cases "pipe_state c = EOF_CONSUMED")
  case True
  then show ?thesis by (simp add: ReadData_def)
next
  case False
  let ?bs = "contents (recv_buffer c)"
  obtain bs buf where rd: "rb_Read ops (recv_buffer c) sz = (bs, buf)" by force
  then have "rb_Read ops (recv_buffer c) (int (nat sz)) = (bs, buf)" using sz(1) by simp
  note r = ring_readD [OF laws c this]
  have len: "length bs = min (nat sz) (length ?bs)" "bs = take (min (nat sz) (length ?bs)) ?bs"
    "contents buf = drop (min (nat sz) (length ?bs)) ?bs"
    using r(2,3) by (auto simp: min_def)
  have "length bs < 2147483648" using len sz by simp
  then have "int32_of_uint32 (of_nat (length bs)) = int (length bs)"
    using int32_roundtrip [of "int (length bs)"] by simp
  with False rd r len ring_boundsD(2) [OF laws c] show ?thesis
    by (auto simp: ReadData_def Let_def split: if_splits)
qed

end
