(* ===== verification/Tcp_States.thy ===== *)
theory Tcp_States
  imports Tcp_Receiving
begin

text \<open>
  The controller as a state machine. First the send window's invariant under every
  acknowledgement the peer may send; then a transition system whose steps are the calls,
  packets, timers and listener rounds of one controller; then what every run of it keeps,
  and how its TCP state moves.
\<close>

section \<open>The send window under any acknowledgement\<close>

lemma ack_loop_split:
  assumes "ack_loop el an ov base q sz s l t = Inr (q', sz', s', l', t')"
  shows "\<exists>popped. q = popped @ q' \<and> sz' = sz - of_nat (seq_span (map node_pkt popped)) \<and>
    (q' \<noteq> [] \<longrightarrow> s' = pkt_seq (node_pkt (hd q')))"
  using assms
proof (induction q arbitrary: sz s l t)
  case (Cons n q)
  let ?s = "pkt_seq (node_pkt n)" and ?l = "payload_size (node_pkt n)"
  show ?case
  proof (cases "?s < an \<or> (ov \<and> base \<le> ?s)")
    case True
    with Cons.prems have "ack_loop el an ov base q (sz - ?l) ?s ?l (Some (el n)) = Inr (q', sz', s', l', t')"
      by (auto simp: Let_def split: if_splits)
    from Cons.IH [OF this] obtain popped where "q = popped @ q'"
        "sz' = sz - ?l - of_nat (seq_span (map node_pkt popped))" "q' \<noteq> [] \<longrightarrow> s' = pkt_seq (node_pkt (hd q'))"
      by blast
    then show ?thesis by (intro exI [of _ "n # popped"]) (simp add: diff_diff_eq)
  next
    case False
    with Cons.prems have "q' = n # q" "sz' = sz" "s' = ?s" by (auto simp: Let_def split: if_splits)
    then show ?thesis by (intro exI [of _ "[]"]) simp
  qed
qed simp

text \<open>Either acknowledged packets were popped from the front, or only the duplicate counter changed.\<close>

lemma NewAckedPacket_cases:
  assumes ack: "NewAckedPacket el m w an = Inr (re, w', m')"
  obtains (popped) popped q r where "pkts_to_ack w = popped @ q" "q = [] \<or> an = pkt_seq (node_pkt (hd q))"
      "w' = w\<lparr>pkts_to_ack := q, sw_size := sw_size w - of_nat (seq_span (map node_pkt popped)), send_base := an,
        last_acked_num := an, duplicated_acks := 0, has_retransmitted_pkt := r\<rparr>"
  | (counted) d where "\<not> send_base w < an" "w' = w\<lparr>duplicated_acks := d\<rparr>"
proof -
  define ov where "ov = (an < send_base w \<and> an \<le> send_base w + capacity w)"
  note ack' = ack [unfolded NewAckedPacket_def Let_def ov_def [symmetric]]
  show thesis
  proof (cases "send_base w < an \<or> ov")
    case True
    obtain q sz s l t where
      loop: "ack_loop el an ov (send_base w) (pkts_to_ack w) (sw_size w) 0 0 None = Inr (q, sz, s, l, t)" and
      fin: "(if an \<noteq> (if q = [] then s + l else s) then Inl (Sanity_check ''Ack num mismatch with expected ack'')
        else Inr (\<lparr>ack_refreshed = True, dup_ack = False, re_transmit = False,
                   rtt = (if \<not> has_retransmitted_pkt w then t else Some 0)\<rparr>,
             w\<lparr>pkts_to_ack := q, sw_size := sz, send_base := an, last_acked_num := an, duplicated_acks := 0,
               has_retransmitted_pkt := (if q = [] then False else has_retransmitted_pkt w)\<rparr>,
             kMaxDuplicatedAcksOrigin)) = Inr (re, w', m')"
      using ack' unfolding if_P [OF True] bindR_Inr_iff by auto
    from fin have an: "an = (if q = [] then s + l else s)" and
      w': "w' = w\<lparr>pkts_to_ack := q, sw_size := sz, send_base := an, last_acked_num := an, duplicated_acks := 0,
        has_retransmitted_pkt := (if q = [] then False else has_retransmitted_pkt w)\<rparr>"
      by (simp_all split: if_split_asm)
    from ack_loop_split [OF loop] obtain popped where
      p: "pkts_to_ack w = popped @ q" "sz = sw_size w - of_nat (seq_span (map node_pkt popped))"
        "q \<noteq> [] \<longrightarrow> s = pkt_seq (node_pkt (hd q))" by blast
    show thesis using popped [OF p(1) _ w' [unfolded p(2)]] an p(3) by auto
  next
    case False
    then have "w' = w\<lparr>duplicated_acks := duplicated_acks w'\<rparr>"
      using ack' unfolding if_not_P [OF False] by (auto simp: bindR_Inr_iff split: if_split_asm)
    then show thesis using False by (intro counted) auto
  qed
qed

lemma NewAckedPacket_keeps_wf:
  assumes wf: "sw_wf w" and ack: "NewAckedPacket el m w an = Inr (re, w', m')"
  shows "sw_wf w' \<and> capacity w' = capacity w \<and> seq_span (window_pkts w') \<le> seq_span (window_pkts w)"
  using ack
proof (cases rule: NewAckedPacket_cases)
  case (popped popped q r)
  have con: "contiguous (send_base w + of_nat (seq_span (map node_pkt popped))) (map node_pkt q)"
    using wf by (simp add: sw_wf_def popped(1) contiguous_append)
  then have "contiguous an (map node_pkt q)" using popped(2) by (cases q) auto
  moreover have "sw_size w - of_nat (seq_span (map node_pkt popped)) = of_nat (seq_span (map node_pkt q))"
    using sw_wf_size [OF wf] popped(1) by simp
  moreover have "seq_span (map node_pkt q) < 4294967296" "seq_span (map node_pkt q) \<le> seq_span (window_pkts w)"
    using wf by (auto simp: sw_wf_def popped(1))
  ultimately show ?thesis
    using wf unfolding popped(3) by (auto simp: sw_wf_def popped(1) unat_of_nat_u32)
next
  case (counted d)
  with wf show ?thesis by (simp add: sw_wf_def)
qed

lemma GetBase_keeps_wf:
  assumes "sw_wf w" "GetBasePakcketToReSend w = Inr (p, w')"
  shows "sw_wf w' \<and> window_pkts w' = window_pkts w \<and> capacity w' = capacity w"
  using assms by (auto simp: GetBasePakcketToReSend_def bindR_Inr_iff sw_wf_def split: list.splits)

lemma SendPacket_keeps_wf:
  assumes "sw_wf w" "SendPacket w p = Inr (sent, w')" "0 < pkt_len p"
    and "capacity w \<noteq> 0 \<or> seq_span (window_pkts w) + pkt_len p < 4294967296"
  shows "sw_wf w' \<and> capacity w' = capacity w"
proof -
  have *: "(sent, w') = (if sw_accepts w p then (True, register_pkt w p) else (False, w))"
    using assms(2) SendPacket_wf [OF assms(1), of p] by simp
  show ?thesis
  proof (cases "sw_accepts w p")
    case True
    have "seq_span (window_pkts w) + pkt_len p < 4294967296"
    proof (cases "capacity w = 0")
      case False
      with True have le: "payload_size p \<le> free_space w" by (simp add: sw_accepts_def)
      with assms(3) have "0 < free_space w" by (auto simp: word_less_nat_alt word_le_nat_alt)
      then have "unat (free_space w) = unat (capacity w) - unat (sw_size w)" "unat (sw_size w) \<le> unat (capacity w)"
        using free_space_eq free_space_pos by (auto simp: word_le_nat_alt)
      with le assms(1) show ?thesis
        using uint32_less [of "capacity w"] by (simp add: sw_wf_def word_le_nat_alt)
    qed (use assms(4) in simp)
    with True assms(1,3) have "sw_wf (register_pkt w p)"
      by (intro sw_wf_register) (auto simp: sw_accepts_def)
    with * True show ?thesis by simp
  next
    case False
    with * assms(1) show ?thesis by simp
  qed
qed

section \<open>The controller as a transition system\<close>

text \<open>
  One step per call, per packet handled, per timer callback and per listener round. A step
  is labelled with what it means for the TCP state. The state is the controller with the
  shared \<^verbatim>\<open>max_duplicated_acks\<close>. The host calls \<^verbatim>\<open>TryConnect\<close> once, on a fresh controller.
\<close>

datatype tcp_event =
    Active_open | Rcv_SYN | Rcv_SYN_ACK | Rcv_FIN | Rcv_ACK | Rcv_RST | Rcv_data
  | Send_FIN | Discard | Internal

definition packet_event :: "Packet \<Rightarrow> tcp_event" where
  "packet_event pkt =
     (let h = tcp_header pkt
      in if sync h \<and> \<not> ack h then Rcv_SYN else if sync h \<and> ack h then Rcv_SYN_ACK
         else if fin h then Rcv_FIN else if ack h then Rcv_ACK else if rst h then Rcv_RST else Rcv_data)"

inductive tcp_step ::
  "'b ring_ops \<Rightarrow> tcp_event \<Rightarrow> uint32 \<times> 'b TcpController \<Rightarrow> uint32 \<times> 'b TcpController \<Rightarrow> bool"
  for ops where
  connect: "pkts_to_ack (send_window c) = [] \<Longrightarrow> TryConnect ops c = Inr (r, c') \<Longrightarrow>
    tcp_step ops Active_open (m, c) (m, c')"
| arrive: "tcp_step ops Internal (m, c) (m, ReceiveNewPacket pkt c)"
| handle: "ring env = ops \<Longrightarrow> HandleReceivedPacket env m c pkt = Inr (m', c') \<Longrightarrow>
    tcp_step ops (packet_event pkt) (m, c) (m', c')"
| send_fin: "sw_size (send_window c) + 1 \<noteq> 0 \<Longrightarrow> SendFIN ops c = Inr (Returns c') \<Longrightarrow>
    tcp_step ops Send_FIN (m, c) (m, c')"
| discard: "SendRSTForClosedConnection_round ops c = Some (Returns c') \<Longrightarrow>
    tcp_step ops Discard (m, c) (m, c')"
| send_round: "ring env = ops \<Longrightarrow> SendBufferListener_round env c = Some (Inr (Returns c')) \<Longrightarrow>
    tcp_step ops Internal (m, c) (m, c')"
| recv_round: "ReceiveBufferListener_round ops c = Some (Inr (Returns c')) \<Longrightarrow>
    tcp_step ops Internal (m, c) (m, c')"
| host_round: "PacketSendBufferListener_round c = Some (Returns (pkts, c')) \<Longrightarrow>
    tcp_step ops Internal (m, c) (m, c')"
| timeout: "TimeoutReTransmitter c = Inr c' \<Longrightarrow> tcp_step ops Internal (m, c) (m, c')"
| probe: "ProbeWindowSize c = Inr c' \<Longrightarrow> tcp_step ops Internal (m, c) (m, c')"
| give_up: "tcp_step ops Internal (m, c) (m, CloseAndDelete c)"
| read: "0 \<le> sz \<Longrightarrow> ReadData ops c sz = Inr (Returns (r, c')) \<Longrightarrow> tcp_step ops Internal (m, c) (m, c')"
| write_data: "0 \<le> sz \<Longrightarrow> nat sz \<le> length bs \<Longrightarrow> WriteData ops c bs sz = Returns (r, c') \<Longrightarrow>
    tcp_step ops Internal (m, c) (m, c')"
| shut_down: "tcp_step ops Internal (m, c) (m, snd (TryShutDown c))"
| close: "tcp_step ops Internal (m, c) (m, snd (TryClose c))"
| set_release: "tcp_step ops Internal (m, c) (m, SetReleasePort b c)"

definition tcp_next :: "'b ring_ops \<Rightarrow> uint32 \<times> 'b TcpController \<Rightarrow> uint32 \<times> 'b TcpController \<Rightarrow> bool" where
  "tcp_next ops s t \<longleftrightarrow> (\<exists>e. tcp_step ops e s t)"

text \<open>
  The frame of the small helpers: what they leave alone.
\<close>

lemma frame_helpers [simp]:
  "send_window (AddTask t c) = send_window c" "send_buffer (AddTask t c) = send_buffer c"
  "recv_buffer (AddTask t c) = recv_buffer c" "tcp_state (AddTask t c) = tcp_state c"
  "send_window (detach_thread d c) = send_window c" "send_buffer (detach_thread d c) = send_buffer c"
  "recv_buffer (detach_thread d c) = recv_buffer c" "tcp_state (detach_thread d c) = tcp_state c"
  "recv_window (detach_thread d c) = recv_window c" "overflow_pkts (detach_thread d c) = overflow_pkts c"
  "send_window (CloseAndDelete c) = send_window c" "send_buffer (CloseAndDelete c) = send_buffer c"
  "recv_buffer (CloseAndDelete c) = recv_buffer c" "tcp_state (CloseAndDelete c) = tcp_state c"
  by (simp_all add: AddTask_def detach_thread_def CloseAndDelete_def)

lemma frame_Tcp_SendPacket [simp]:
  "send_window (Tcp_SendPacket p c) = send_window c" "send_buffer (Tcp_SendPacket p c) = send_buffer c"
  "recv_buffer (Tcp_SendPacket p c) = recv_buffer c" "tcp_state (Tcp_SendPacket p c) = tcp_state c"
  "recv_window (Tcp_SendPacket p c) = recv_window c" "tcp_key (Tcp_SendPacket p c) = tcp_key c"
  by (cases p; simp)+

lemma frame_push_overflowed:
  "PushOverflowedPacketsToSocketBuffer ops c = Inr c' \<Longrightarrow>
    send_window c' = send_window c \<and> send_buffer c' = send_buffer c \<and> tcp_state c' = tcp_state c"
  by (auto simp: PushOverflowedPacketsToSocketBuffer_def Let_def bindR_Inr_iff)

lemma frame_stream_nodes:
  "stream_nodes ops ns c = Inr c' \<Longrightarrow>
    send_window c' = send_window c \<and> send_buffer c' = send_buffer c \<and> tcp_state c' = tcp_state c"
proof (induction ns arbitrary: c)
  case (Cons p ns)
  then show ?case by (auto simp: bindR_Inr_iff Let_def split: if_splits)
qed simp

lemma frame_StreamData:
  "StreamDataToReceiveBuffer ops ns c = Inr c' \<Longrightarrow>
    send_window c' = send_window c \<and> send_buffer c' = send_buffer c \<and> tcp_state c' = tcp_state c"
  by (auto simp: StreamDataToReceiveBuffer_def bindR_Inr_iff dest!: frame_push_overflowed frame_stream_nodes)

lemma frame_resend:
  "resend_base_packet c = Inr c' \<Longrightarrow>
    send_buffer c' = send_buffer c \<and> tcp_state c' = tcp_state c \<and> recv_buffer c' = recv_buffer c \<and>
    (sw_wf (send_window c) \<longrightarrow> sw_wf (send_window c'))"
  by (auto simp: resend_base_packet_def bindR_Inr_iff dest: GetBase_keeps_wf)

section \<open>The send window stays well formed\<close>

definition send_inv :: "'b ring_ops \<Rightarrow> ('b \<Rightarrow> bool) \<Rightarrow> ('b \<Rightarrow> byte list) \<Rightarrow> uint32 \<times> 'b TcpController \<Rightarrow> bool" where
  "send_inv ops ok contents s \<longleftrightarrow> ring_laws ops ok contents \<and> ok (send_buffer (snd s)) \<and>
     sw_wf (send_window (snd s))"

lemma MakePacket_len [simp]:
  "payload_size (MakeSyncPacket ops c seq) = 1" "payload_size (MakeFinPacket c seq) = 1"
  by (simp_all add: MakeSyncPacket_def MakeFinPacket_def)

lemma Make_normal [simp]:
  "pkt_normal (MakeSyncPacket ops c seq)" "pkt_normal (MakeFinPacket c seq)"
  by (simp_all add: pkt_normal_def MakeSyncPacket_def MakeFinPacket_def)

lemma MakePacket_seq [simp]:
  "pkt_seq (MakeSyncPacket ops c seq) = seq" "pkt_seq (MakeFinPacket c seq) = seq"
  by (simp_all add: MakeSyncPacket_def MakeFinPacket_def)

text \<open>An empty window with some capacity takes any one-byte packet at its base.\<close>

lemma SendPacket_first:
  assumes "pkts_to_ack w = []" "sw_size w = 0" "capacity w \<noteq> 0" "pkt_seq p = send_base w" "payload_size p = 1"
  shows "SendPacket w p = Inr (True, register_pkt w p)"
proof -
  have "capacity w > 0" "\<not> capacity w < 1"
    using assms(3) by (auto simp: word_gt_0 word_less_nat_alt unat_gt_0)
  with assms show ?thesis by (simp add: SendPacket_def free_space_def)
qed

lemma TryConnect_fresh:
  fixes ops :: "'b ring_ops" and c :: "'b TcpController"
  assumes "tcp_state c = CLOSED" "pkts_to_ack (send_window c) = []" "sw_size (send_window c) = 0"
    and "capacity (send_window c) \<noteq> 0"
  defines "syn \<equiv> MakeSyncPacket ops c (send_base (send_window c))"
  shows "\<exists>log. TryConnect ops c = Inr (True, c\<lparr>send_window := register_pkt (send_window c) syn, tcp_state := SYN_SENT,
     pkt_send_buffer := (pkt_send_buffer c)\<lparr>packets := packets (pkt_send_buffer c) @ [syn]\<rparr>, timer_log := log\<rparr>)"
proof -
  have "SendPacket (send_window c) syn = Inr (True, register_pkt (send_window c) syn)"
    using assms(2-4) by (intro SendPacket_first) (simp_all add: syn_def)
  moreover have "Copy syn = Inr syn" by (simp add: syn_def Copy_normal)
  ultimately show ?thesis
    using assms(1) by (simp add: TryConnect_def syn_def [symmetric] timer_op_def Let_def) blast
qed

lemma TryConnect_wf:
  assumes "TryConnect ops c = Inr (r, c')" "sw_wf (send_window c)" "pkts_to_ack (send_window c) = []"
  shows "sw_wf (send_window c') \<and> send_buffer c' = send_buffer c"
  using assms SendPacket_keeps_wf [OF assms(2), of "MakeSyncPacket ops c (send_base (send_window c))"]
  by (auto simp: TryConnect_def Let_def bindR_Inr_iff split: if_splits)

lemma SendFIN_returns:
  assumes "SendFIN ops c = Inr (Returns c')"
  defines "w \<equiv> set_capacity (sw_size (send_window c) + 1) (send_window c)"
  shows "c' = c \<or> (\<exists>w'. SendPacket w (MakeFinPacket c (NextSeqNumberToSend w)) = Inr (True, w') \<and>
    send_window c' = w' \<and> send_buffer c' = send_buffer c \<and>
    tcp_state c' = (if tcp_state c = ESTABLISHED then FIN_WAIT_1
                    else if tcp_state c = CLOSE_WAIT then LAST_ACK else tcp_state c))"
proof (cases "shutdown_flag c \<or> \<not> rb_empty ops (send_buffer c)")
  case True
  with assms(1) show ?thesis by (auto simp: SendFIN_def split: if_splits)
next
  case False
  let ?p = "MakeFinPacket c (NextSeqNumberToSend w)"
  have "bindR (SendPacket w ?p) (\<lambda>(sent, w').
           if \<not> sent then Inl (Log_fatal ''Failed to send FIN segment'')
           else
             let c1 = c\<lparr>send_window := w'\<rparr>
             in if tcp_state c1 = ESTABLISHED \<or> tcp_state c1 = CLOSE_WAIT then
                  let c2 = c1\<lparr>tcp_state := (if tcp_state c1 = ESTABLISHED then FIN_WAIT_1 else LAST_ACK)\<rparr>
                  in bindR (Copy ?p) (\<lambda>copy.
                       let c3 = Tcp_SendPacket (Some copy) c2
                       in Inr (Returns (timer_op Fin_timer Timer_Restart
                            (timer_op Timer (Timer_Restart_in (CurrentTimeOut c3)) c3))))
                else Inr (Returns c1)) = Inr (Returns c')"
    using assms(1) False unfolding SendFIN_def w_def by (simp add: Let_def)
  then obtain w' where "SendPacket w ?p = Inr (True, w')"
    and "(let c1 = c\<lparr>send_window := w'\<rparr>
             in if tcp_state c1 = ESTABLISHED \<or> tcp_state c1 = CLOSE_WAIT then
                  let c2 = c1\<lparr>tcp_state := (if tcp_state c1 = ESTABLISHED then FIN_WAIT_1 else LAST_ACK)\<rparr>
                  in bindR (Copy ?p) (\<lambda>copy.
                       let c3 = Tcp_SendPacket (Some copy) c2
                       in Inr (Returns (timer_op Fin_timer Timer_Restart
                            (timer_op Timer (Timer_Restart_in (CurrentTimeOut c3)) c3))))
                else Inr (Returns c1)) = Inr (Returns c')"
    unfolding bindR_Inr_iff by (auto split: if_split_asm)
  then show ?thesis
    by (intro disjI2 exI [of _ w']) (auto simp: Let_def bindR_Inr_iff split: if_split_asm)
qed

lemma SendFIN_wf:
  assumes "SendFIN ops c = Inr (Returns c')" "sw_wf (send_window c)" "sw_size (send_window c) + 1 \<noteq> 0"
  shows "sw_wf (send_window c') \<and> send_buffer c' = send_buffer c"
proof -
  let ?w = "set_capacity (sw_size (send_window c) + 1) (send_window c)"
  have "sw_wf w'" if "SendPacket ?w (MakeFinPacket c (NextSeqNumberToSend ?w)) = Inr (True, w')" for w'
    using SendPacket_keeps_wf [OF _ that] assms(2,3) by simp
  with SendFIN_returns [OF assms(1)] assms(2) show ?thesis by blast
qed

lemma HandleSYN_wf:
  assumes "HandleSYN ops c pkt = Inr (r, c')" "sw_wf (send_window c)"
  shows "sw_wf (send_window c') \<and> send_buffer c' = send_buffer c"
proof -
  obtain an nodes rw where rcv: "ReceivePacket (recv_window c) pkt = Inr (an, nodes, rw)"
    using assms(1) by (auto simp: HandleSYN_def bindR_Inr_iff)
  let ?c1 = "c\<lparr>recv_window := rw\<rparr>"
  let ?p = "(MakeSyncPacket ops ?c1 0)\<lparr>tcp_header :=
    (tcp_header (MakeSyncPacket ops ?c1 0))\<lparr>ack := True, ack_num := an\<rparr>\<rparr>"
  show ?thesis
  proof (cases "sw_size (send_window c) > 0")
    case True
    with assms rcv show ?thesis
      by (auto simp: HandleSYN_def bindR_Inr_iff dest!: frame_resend)
  next
    case False
    then have "sw_size (send_window c) = 0" by (metis word_gt_0)
    then have "seq_span (window_pkts (send_window c)) = 0" using assms(2) by (simp add: sw_wf_def)
    then have "sw_wf w'" if "SendPacket (send_window c) ?p = Inr (sent, w')" for sent w'
      using SendPacket_keeps_wf [OF assms(2) that] by simp
    with False assms rcv show ?thesis
      by (auto simp: HandleSYN_def Let_def bindR_Inr_iff split: if_splits)
  qed
qed

lemma HandleACKSYN_wf:
  assumes "HandleACKSYN env m c pkt = Inr (r, m', c')" "sw_wf (send_window c)"
  shows "sw_wf (send_window c') \<and> send_buffer c' = send_buffer c"
  using assms NewAckedPacket_keeps_wf [OF assms(2)]
  by (auto simp: HandleACKSYN_def stop_timer_if_clear_def Let_def bindR_Inr_iff split: if_splits)

lemma ack_transition_frame [simp]:
  "send_window (ack_transition b c) = send_window c" "send_buffer (ack_transition b c) = send_buffer c"
  by (auto simp: ack_transition_def)

lemma ack_flow_control_frame [simp]:
  "send_window (ack_flow_control pkt c) =
    set_capacity (GetNewSendWindowSize c (ucast (window_size (tcp_header pkt)))) (send_window c)"
  "send_buffer (ack_flow_control pkt c) = send_buffer c" "tcp_state (ack_flow_control pkt c) = tcp_state c"
  "recv_buffer (ack_flow_control pkt c) = recv_buffer c" "pkt_send_buffer (ack_flow_control pkt c) = pkt_send_buffer c"
  by (simp_all add: ack_flow_control_def Let_def GetNewSendWindowSize_def kEnableCongestionControl_def)

lemma HandleACK_returns:
  assumes "HandleACK env m c pkt = Inr (r, m', c')"
  obtains re w c1 where
    "NewAckedPacket (elapsed_time env) m (send_window c) (ack_num (tcp_header pkt)) = Inr (re, w, m')"
    "(if re_transmit re then resend_base_packet (c\<lparr>send_window := w\<rparr>) else Inr (c\<lparr>send_window := w\<rparr>)) = Inr c1"
    "c' = ack_transition (NumPacketsToAck (send_window c1) = 0) (ack_flow_control pkt c1)"
proof -
  have "NumPacketsToAck (send_window (ack_flow_control pkt c1)) = 0 \<longleftrightarrow>
      NumPacketsToAck (send_window c1) = 0" for c1 :: "'a TcpController"
    by (auto simp: NumPacketsToAck_def)
  with assms that show thesis
    by (auto simp: HandleACK_def Let_def bindR_def simp del: ack_flow_control_frame split: sum.splits prod.splits)
qed

lemma HandleACK_wf:
  assumes "HandleACK env m c pkt = Inr (r, m', c')" "sw_wf (send_window c)"
  shows "sw_wf (send_window c') \<and> send_buffer c' = send_buffer c"
proof -
  from HandleACK_returns [OF assms(1)] obtain re w c1 where
    ack: "NewAckedPacket (elapsed_time env) m (send_window c) (ack_num (tcp_header pkt)) = Inr (re, w, m')" and
    c1: "(if re_transmit re then resend_base_packet (c\<lparr>send_window := w\<rparr>) else Inr (c\<lparr>send_window := w\<rparr>)) = Inr c1" and
    c': "c' = ack_transition (NumPacketsToAck (send_window c1) = 0)
      (ack_flow_control pkt c1)" .
  have "sw_wf w" using NewAckedPacket_keeps_wf [OF assms(2) ack] by simp
  then have "sw_wf (send_window c1) \<and> send_buffer c1 = send_buffer c"
    using c1 by (auto split: if_splits dest: frame_resend)
  then show ?thesis unfolding c' by simp
qed

lemma HandleData_wf:
  "HandleDataPacket ops c pkt = Inr (r, c') \<Longrightarrow>
    send_window c' = send_window c \<and> send_buffer c' = send_buffer c \<and> tcp_state c' = tcp_state c"
  by (auto simp: HandleDataPacket_def bindR_Inr_iff split: if_splits dest!: frame_StreamData)

lemma HandleFIN_wf:
  "HandleFIN ops c pkt = Inr (r, c') \<Longrightarrow> send_window c' = send_window c \<and> send_buffer c' = send_buffer c"
  by (auto simp: HandleFIN_def Let_def bindR_Inr_iff split: if_splits dest!: frame_StreamData)

lemma HandleReceivedPacket_wf:
  assumes "HandleReceivedPacket env m c pkt = Inr (m', c')" "sw_wf (send_window c)"
  shows "sw_wf (send_window c') \<and> send_buffer c' = send_buffer c"
  using assms
  by (auto simp: HandleReceivedPacket_def Let_def bindR_Inr_iff HandleRst_def split: if_splits
      dest: HandleSYN_wf HandleACKSYN_wf HandleACK_wf HandleData_wf HandleFIN_wf)

lemma SendBufferListener_round_wf:
  assumes "ring_laws (ring env) ok contents" "ok (send_buffer c)" "sw_wf (send_window c)"
    and "SendBufferListener_round env c = Some (Inr (Returns c'))"
  shows "sw_wf (send_window c') \<and> ok (send_buffer c') \<and> tcp_state c' = tcp_state c"
proof -
  have locked: "SendBufferListener_locked env c = Inr c'"
    using assms(4) by (auto simp: SendBufferListener_round_def Let_def bindR_Inr_iff split: if_splits)
  have "\<exists>ps n. segmented ok contents c ps n c'" if "SendBufferListener_send (ring env) c = Inr c'"
    using SendBufferListener_send_spec [OF assms(1-3) refl] that by auto
  then show ?thesis
    using locked assms(2,3) by (auto simp: SendBufferListener_locked_def Let_def segmented_def split: if_splits)
qed

lemma Timeout_wf:
  assumes "TimeoutReTransmitter c = Inr c'"
  shows "send_buffer c' = send_buffer c \<and> tcp_state c' = tcp_state c \<and>
    (sw_wf (send_window c) \<longrightarrow> sw_wf (send_window c'))"
proof -
  obtain c1 where "(if NumPacketsToAck (send_window c) > 0 then resend_base_packet c else Inr c) = Inr c1"
    "c' = c1\<lparr>ssthresh := cwnd c1 div 2, cwnd := kDefaultDataPacketSize, cc_state := SLOW_START\<rparr>"
    using assms by (auto simp: TimeoutReTransmitter_def bindR_Inr_iff)
  then show ?thesis by (auto split: if_splits dest: frame_resend)
qed

text \<open>Steps that leave the send pipeline and the TCP state alone.\<close>

lemma quiet_frames:
  "ReceiveBufferListener_round ops c = Some (Inr (Returns c')) \<Longrightarrow>
    send_window c' = send_window c \<and> send_buffer c' = send_buffer c \<and> tcp_state c' = tcp_state c"
  "PacketSendBufferListener_round c = Some (Returns (pkts, c')) \<Longrightarrow>
    send_window c' = send_window c \<and> send_buffer c' = send_buffer c \<and> tcp_state c' = tcp_state c"
  "ProbeWindowSize c = Inr c' \<Longrightarrow>
    send_window c' = send_window c \<and> send_buffer c' = send_buffer c \<and> tcp_state c' = tcp_state c"
  "ReadData ops c sz = Inr (Returns (r, c')) \<Longrightarrow>
    send_window c' = send_window c \<and> send_buffer c' = send_buffer c \<and> tcp_state c' = tcp_state c"
  "SendRSTForClosedConnection_round ops c = Some (Returns c') \<Longrightarrow>
    send_window c' = send_window c \<and> send_buffer c' = send_buffer c \<and> tcp_state c' = CLOSED"
  by (auto simp: ReceiveBufferListener_round_def PacketSendBufferListener_round_def ProbeWindowSize_def
      ReadData_def SendRSTForClosedConnection_round_def bindR_Inr_iff Let_def
      split: if_splits prod.splits waits.splits dest: frame_push_overflowed)

lemma quiet_calls [simp]:
  "send_window (ReceiveNewPacket pkt c) = send_window c" "send_buffer (ReceiveNewPacket pkt c) = send_buffer c"
  "tcp_state (ReceiveNewPacket pkt c) = tcp_state c"
  "send_window (snd (TryShutDown c)) = send_window c" "send_buffer (snd (TryShutDown c)) = send_buffer c"
  "tcp_state (snd (TryShutDown c)) = tcp_state c"
  "send_window (snd (TryClose c)) = send_window c" "send_buffer (snd (TryClose c)) = send_buffer c"
  "tcp_state (snd (TryClose c)) = tcp_state c"
  "send_window (SetReleasePort b c) = send_window c" "send_buffer (SetReleasePort b c) = send_buffer c"
  "tcp_state (SetReleasePort b c) = tcp_state c"
  by (simp_all add: ReceiveNewPacket_def TryShutDown_def TryClose_def CloseConnection_def SetReleasePort_def)

lemma WriteData_wf:
  assumes "ring_laws ops ok contents" "ok (send_buffer c)" "0 \<le> sz" "nat sz \<le> length bs"
    and "WriteData ops c bs sz = Returns (r, c')"
  shows "ok (send_buffer c') \<and> send_window c' = send_window c \<and> tcp_state c' = tcp_state c"
proof -
  obtain n b where wr: "rb_Write ops (send_buffer c) bs (int (nat sz)) = (n, b)" by force
  then have "ok b" using ring_writeD(1) [OF assms(1,2,4)] by blast
  with wr assms(2,3,5) show ?thesis by (auto simp: WriteData_def split: if_splits)
qed

lemma send_inv_step:
  assumes inv: "send_inv ops ok contents s" and step: "tcp_step ops e s t"
  shows "send_inv ops ok contents t"
proof -
  obtain m c m' c' where st: "s = (m, c)" "t = (m', c')" by fastforce
  have i: "ring_laws ops ok contents" "ok (send_buffer c)" "sw_wf (send_window c)"
    using inv by (simp_all add: send_inv_def st)
  have "sw_wf (send_window c') \<and> ok (send_buffer c')"
    using step i unfolding st
  proof cases
    case (connect r)
    then show ?thesis using TryConnect_wf i by metis
  next
    case (handle env pkt)
    then show ?thesis using HandleReceivedPacket_wf i by metis
  next
    case send_fin
    then show ?thesis using SendFIN_wf i by metis
  next
    case (send_round env)
    then show ?thesis using SendBufferListener_round_wf i by metis
  next
    case timeout
    then show ?thesis using Timeout_wf i by metis
  next
    case (write_data sz bs r)
    then show ?thesis using WriteData_wf i by metis
  qed (use i in \<open>auto dest: quiet_frames\<close>)
  with i(1) show ?thesis by (simp add: send_inv_def st)
qed

definition tcp_fresh :: "'b ring_ops \<Rightarrow> ('b \<Rightarrow> bool) \<Rightarrow> ('b \<Rightarrow> byte list) \<Rightarrow> uint32 \<times> 'b TcpController \<Rightarrow> bool" where
  "tcp_fresh ops ok contents s \<longleftrightarrow> ring_laws ops ok contents \<and>
     (\<exists>m sock key opts. unat (send_buffer_size opts) < 2147483648 \<and>
       s = (m, TcpController_new ops False sock key opts))"

interpretation tcp_send_side:
  invariant_system "tcp_fresh ops ok contents" "tcp_next ops" "send_inv ops ok contents"
proof
  show "send_inv ops ok contents s" if "tcp_fresh ops ok contents s" for s
    using that by (auto simp: tcp_fresh_def send_inv_def TcpController_new_def dest: ring_newD)
  show "send_inv ops ok contents t" if "send_inv ops ok contents s" "tcp_next ops s t" for s t
    using that unfolding tcp_next_def by (blast intro: send_inv_step)
qed

section \<open>The TCP state\<close>

text \<open>
  The state machine the code implements: which step may move the TCP state where. Every
  step may also leave it. There is no \<^verbatim>\<open>LISTEN\<close>: a listener is not a controller.
\<close>

inductive tcp_edge :: "tcp_event \<Rightarrow> TCP_STATE \<Rightarrow> TCP_STATE \<Rightarrow> bool" where
  stay: "tcp_edge e s s"
| open_active: "tcp_edge Active_open CLOSED SYN_SENT"
| open_passive: "tcp_edge Rcv_SYN s SYN_RCVD"
| synack: "tcp_edge Rcv_SYN_ACK SYN_SENT ESTABLISHED"
| ack_handshake: "tcp_edge Rcv_ACK SYN_RCVD ESTABLISHED"
| fin_sent: "tcp_edge Send_FIN ESTABLISHED FIN_WAIT_1"
| fin_sent_last: "tcp_edge Send_FIN CLOSE_WAIT LAST_ACK"
| fin_received: "tcp_edge Rcv_FIN ESTABLISHED CLOSE_WAIT"
| fin_received_last: "tcp_edge Rcv_FIN FIN_WAIT_2 TIME_WAIT"
| fin_simultaneous: "tcp_edge Rcv_FIN FIN_WAIT_1 CLOSING"
| fin_acked: "tcp_edge Rcv_ACK FIN_WAIT_1 FIN_WAIT_2"
| last_acked: "tcp_edge Rcv_ACK LAST_ACK CLOSED"
| closing_acked: "tcp_edge Rcv_ACK CLOSING TIME_WAIT"
| discarded: "tcp_edge Discard s CLOSED"

inductive_simps tcp_edge_iff: "tcp_edge e s t"

lemma HandleSYN_edge:
  assumes "HandleSYN ops c pkt = Inr (r, c')"
  shows "tcp_state c' = tcp_state c \<or> tcp_state c' = SYN_RCVD"
  using assms by (auto simp: HandleSYN_def Let_def bindR_Inr_iff split: if_splits dest!: frame_resend)

lemma HandleACKSYN_edge:
  assumes "HandleACKSYN env m c pkt = Inr (r, m', c')"
  shows "tcp_state c' = (if tcp_state c = SYN_SENT then ESTABLISHED else tcp_state c)"
  using assms by (auto simp: HandleACKSYN_def Let_def bindR_Inr_iff split: if_splits)

lemma HandleFIN_edge:
  assumes "HandleFIN ops c pkt = Inr (r, c')"
  shows "tcp_state c' = (if tcp_state c = ESTABLISHED then CLOSE_WAIT else if tcp_state c = FIN_WAIT_2 then TIME_WAIT
    else if tcp_state c = FIN_WAIT_1 then CLOSING else tcp_state c)"
  using assms by (auto simp: HandleFIN_def Let_def bindR_Inr_iff split: if_splits dest!: frame_StreamData)

lemma ack_transition_state:
  "tcp_state (ack_transition b c) = (if tcp_state c = SYN_RCVD then ESTABLISHED
    else if tcp_state c = FIN_WAIT_1 \<and> b then FIN_WAIT_2 else if tcp_state c = LAST_ACK \<and> b then CLOSED
    else if tcp_state c = CLOSING then TIME_WAIT else tcp_state c)"
  by (simp add: ack_transition_def)

lemma HandleACK_edge:
  assumes "HandleACK env m c pkt = Inr (r, m', c')"
  shows "tcp_edge Rcv_ACK (tcp_state c) (tcp_state c')"
proof -
  from HandleACK_returns [OF assms] obtain re w c1 where
    "NewAckedPacket (elapsed_time env) m (send_window c) (ack_num (tcp_header pkt)) = Inr (re, w, m')" and
    c1: "(if re_transmit re then resend_base_packet (c\<lparr>send_window := w\<rparr>) else Inr (c\<lparr>send_window := w\<rparr>)) = Inr c1" and
    c': "c' = ack_transition (NumPacketsToAck (send_window c1) = 0) (ack_flow_control pkt c1)" .
  have "tcp_state c1 = tcp_state c" using c1 by (auto split: if_splits dest: frame_resend)
  then show ?thesis
    unfolding c' by (cases "tcp_state c") (auto simp: ack_transition_state intro: tcp_edge.intros)
qed

lemma handle_edge:
  assumes "HandleReceivedPacket env m c pkt = Inr (m', c')"
  shows "tcp_edge (packet_event pkt) (tcp_state c) (tcp_state c')"
  using assms
  by (auto simp: HandleReceivedPacket_def packet_event_def Let_def bindR_Inr_iff HandleRst_def tcp_edge.stay
      split: if_splits dest!: HandleSYN_edge HandleACKSYN_edge HandleFIN_edge HandleData_wf
      intro: HandleACK_edge tcp_edge.intros)

lemma tcp_step_edge:
  assumes inv: "send_inv ops ok contents s" and step: "tcp_step ops e s t"
  shows "tcp_edge e (tcp_state (snd s)) (tcp_state (snd t))"
proof -
  obtain m c m' c' where st: "s = (m, c)" "t = (m', c')" by fastforce
  have i: "ring_laws ops ok contents" "ok (send_buffer c)" "sw_wf (send_window c)"
    using inv by (simp_all add: send_inv_def st)
  have "tcp_edge e (tcp_state c) (tcp_state c')"
    using step unfolding st
  proof cases
    case (connect r)
    then show ?thesis
      by (auto simp: TryConnect_def Let_def bindR_Inr_iff tcp_edge_iff split: if_splits)
  next
    case (handle env pkt)
    then show ?thesis using handle_edge by blast
  next
    case send_fin
    from SendFIN_returns [OF send_fin(4)] send_fin(1) show ?thesis
      by (auto simp: tcp_edge_iff split: if_splits)
  next
    case (send_round env)
    then show ?thesis using SendBufferListener_round_wf i tcp_edge.stay by metis
  next
    case timeout
    then show ?thesis using Timeout_wf tcp_edge.stay by metis
  next
    case (write_data sz bs r)
    then show ?thesis using WriteData_wf i tcp_edge.stay by metis
  qed (auto intro: tcp_edge.intros dest!: quiet_frames)
  then show ?thesis by (simp add: st)
qed

text \<open>Runs with the events that made them, latest last.\<close>

inductive tcp_run ::
  "'b ring_ops \<Rightarrow> uint32 \<times> 'b TcpController \<Rightarrow> tcp_event list \<Rightarrow> uint32 \<times> 'b TcpController \<Rightarrow> bool"
  for ops s where
  run_nil: "tcp_run ops s [] s"
| run_snoc: "tcp_run ops s es t \<Longrightarrow> tcp_step ops e t u \<Longrightarrow> tcp_run ops s (es @ [e]) u"

lemma tcp_run_reach: "tcp_run ops s es t \<Longrightarrow> (tcp_next ops)\<^sup>*\<^sup>* s t"
  by (induction rule: tcp_run.induct) (auto simp: tcp_next_def intro: rtranclp.rtrancl_into_rtrancl)

text \<open>What must have happened before a controller is in a given state.\<close>

definition history_ok :: "TCP_STATE \<Rightarrow> tcp_event set \<Rightarrow> bool" where
  "history_ok st E \<longleftrightarrow>
     (st = LISTEN \<longrightarrow> False) \<and>
     (st = SYN_SENT \<longrightarrow> Active_open \<in> E) \<and>
     (st = SYN_RCVD \<longrightarrow> Rcv_SYN \<in> E) \<and>
     (st \<notin> {CLOSED, SYN_SENT, SYN_RCVD} \<longrightarrow>
        Active_open \<in> E \<and> Rcv_SYN_ACK \<in> E \<or> Rcv_SYN \<in> E \<and> Rcv_ACK \<in> E) \<and>
     (st \<in> {FIN_WAIT_1, FIN_WAIT_2, CLOSING, TIME_WAIT, LAST_ACK} \<longrightarrow> Send_FIN \<in> E) \<and>
     (st \<in> {CLOSE_WAIT, CLOSING, TIME_WAIT, LAST_ACK} \<longrightarrow> Rcv_FIN \<in> E) \<and>
     (st \<in> {FIN_WAIT_2, TIME_WAIT} \<longrightarrow> Rcv_ACK \<in> E)"

lemma history_edge:
  assumes "history_ok st E" "tcp_edge e st st'"
  shows "history_ok st' (insert e E)"
  using assms(2,1) by cases (simp_all add: history_ok_def, blast+)

lemma tcp_run_history:
  assumes "tcp_run ops s es t" "tcp_fresh ops ok contents s"
  shows "history_ok (tcp_state (snd t)) (set es)"
  using assms
proof (induction rule: tcp_run.induct)
  case run_nil
  then show ?case by (auto simp: tcp_fresh_def TcpController_new_def history_ok_def)
next
  case (run_snoc es t e u)
  have "send_inv ops ok contents t"
    using tcp_send_side.reachable_inv [OF run_snoc.prems tcp_run_reach [OF run_snoc.hyps(1)]] .
  from history_edge [OF run_snoc.IH [OF run_snoc.prems] tcp_step_edge [OF this run_snoc.hyps(2)]]
  show ?case by simp
qed

section \<open>Properties\<close>

text \<open>
  C26. In every run of a controller, whatever packets the peer sends and in whatever order
  calls, timers and listener rounds come, the send window stays well formed: packets are
  contiguous from the send base, none is empty, the recorded size is their total, so
  registering a packet never trips the window's sanity check, and the window is recorded as
  empty exactly when no packet is left.
\<close>

theorem send_window_well_formed_in_all_runs:
  assumes "ring_laws ops ok contents" "unat (send_buffer_size opts) < 2147483648"
    and "tcp_run ops (m, TcpController_new ops False sock key opts) es (m', c)"
  shows "sw_wf (send_window c) \<and> (\<forall>p. \<exists>r. SendPacket (send_window c) p = Inr r) \<and>
    (sw_size (send_window c) = 0 \<longleftrightarrow> pkts_to_ack (send_window c) = [])"
proof -
  have "tcp_fresh ops ok contents (m, TcpController_new ops False sock key opts)"
    using assms(1,2) by (auto simp: tcp_fresh_def)
  from tcp_send_side.reachable_inv [OF this tcp_run_reach [OF assms(3)]]
  have wf: "sw_wf (send_window c)" by (simp add: send_inv_def)
  moreover have "pkts_to_ack (send_window c) = []" if "sw_size (send_window c) = 0"
  proof (rule ccontr)
    assume "pkts_to_ack (send_window c) \<noteq> []"
    then have "0 < seq_span (window_pkts (send_window c))"
      using wf by (intro span_pos) (auto simp: sw_wf_def)
    then show False using wf that by (simp add: sw_wf_def)
  qed
  moreover have "\<exists>r. SendPacket (send_window c) p = Inr r" for p
    using SendPacket_wf [OF wf, of p] by (rule exI)
  ultimately show ?thesis using sw_wf_empty_size [OF wf] by blast
qed


text \<open>A first step of a client, for the two theorems above.\<close>

definition client0 :: "list_buffer TcpController" where
  "client0 = TcpController_new list_ring False 0
     (TcpControllerKey_new ''10.0.0.2'' 80 ''10.0.0.1'' 7) GetDefaultOptions"

lemma client_connects:
  "\<exists>c. tcp_run list_ring (3, client0) [Active_open] (3, c) \<and> tcp_state c = SYN_SENT"
proof -
  have "\<exists>c r. TryConnect list_ring client0 = Inr (r, c) \<and> tcp_state c = SYN_SENT"
    using TryConnect_fresh [of client0 list_ring]
    by (auto simp: client0_def TcpController_new_def GetDefaultOptions_def SendWindow_new_def kDefaultWindowSize_def)
  then obtain c r where "TryConnect list_ring client0 = Inr (r, c)" "tcp_state c = SYN_SENT" by blast
  moreover from this(1) have "tcp_step list_ring Active_open (3, client0) (3, c)"
    by (intro tcp_step.connect) (simp add: client0_def TcpController_new_def SendWindow_new_def)
  ultimately show ?thesis
    using run_snoc [OF run_nil, of list_ring Active_open "(3, client0)" "(3, c)"] by auto
qed

theorem send_window_well_formed_in_all_runs_witness:
  "\<exists>c es. tcp_run list_ring (3, client0) es (3, c) \<and> sw_wf (send_window c)"
proof -
  obtain c where run: "tcp_run list_ring (3, client0) [Active_open] (3, c)" using client_connects by blast
  have "unat (send_buffer_size GetDefaultOptions) < 2147483648"
    by (simp add: GetDefaultOptions_def kDefaultSocketBufferSize_def)
  from send_window_well_formed_in_all_runs [OF list_ring_laws this run [unfolded client0_def]] run
  show ?thesis by blast
qed


end
