(* ===== verification/Tcp_Handshake.thy ===== *)
theory Tcp_Handshake
  imports Tcp_States
begin

text \<open>
  Opening and closing a connection: a client and a server controller exchange the packets
  their handlers queue, in order and without loss.
\<close>

section \<open>Single segments\<close>

lemma ReceivePacket_single:
  assumes "rw_nodes w = []" "pkt_seq p = recv_base w"
  shows "ReceivePacket w p = Inr (pkt_seq p + payload_size p, [p], w\<lparr>recv_base := pkt_seq p + payload_size p\<rparr>)"
  using assms by (cases w) (simp add: ReceivePacket_def Let_def)

text \<open>Acknowledging a window that holds one segment of length one.\<close>

lemma NewAckedPacket_single:
  assumes "pkts_to_ack w = []" "sw_size w = 0" "pkt_seq p = send_base w" "payload_size p = 1"
    and "unat (send_base w) < 4294967295"
  shows "\<exists>t w'. NewAckedPacket el m (register_pkt w p) (send_base w + 1) =
      Inr (\<lparr>ack_refreshed = True, dup_ack = False, re_transmit = False, rtt = t\<rparr>, w', kMaxDuplicatedAcksOrigin) \<and>
    pkts_to_ack w' = [] \<and> sw_size w' = 0 \<and> send_base w' = send_base w + 1 \<and> capacity w' = capacity w \<and>
    duplicated_acks w' = 0"
proof -
  let ?w = "register_pkt w p"
  have wf: "sw_wf ?w"
    using assms by (simp add: sw_wf_def register_pkt_def SendWindowNode_new_def)
  have "send_base w < send_base w + 1"
    using assms(5) by (simp add: word_less_nat_alt unat_add_u32)
  then obtain t where "NewAckedPacket el m ?w (send_base w + 1) =
      Inr (\<lparr>ack_refreshed = True, dup_ack = False, re_transmit = False, rtt = t\<rparr>,
           acked_window 1 (send_base w + 1) ?w, kMaxDuplicatedAcksOrigin)"
    using NewAckedPacket_prefix [OF wf, of 1 "send_base w + 1" el m] assms
    by (auto simp: register_pkt_def SendWindowNode_new_def)
  then show ?thesis
    using assms
    by (intro exI [of _ t] exI [of _ "acked_window 1 (send_base w + 1) ?w"])
       (simp add: acked_window_def register_pkt_def)
qed

section \<open>Connections that are ready\<close>

text \<open>
  A round of the thread that hands the queued packets to the host; a thread that would
  block changes nothing.
\<close>

fun unblocked :: "'a \<Rightarrow> 'a waits \<Rightarrow> 'a" where
  "unblocked x Blocks = x"
| "unblocked x (Returns y) = y"

definition emits :: "'b TcpController \<Rightarrow> Packet list \<times> 'b TcpController" where
  "emits c = (case PacketSendBufferListener_round c of
     None \<Rightarrow> ([], c) | Some r \<Rightarrow> unblocked ([], c) r)"

lemma emits_spec:
  assumes "emits c = (ps, c')"
  shows "ps @ packets (pkt_send_buffer c') = packets (pkt_send_buffer c) \<and>
    (\<exists>q. c' = c\<lparr>pkt_send_buffer := q\<rparr> \<and> destroy q = destroy (pkt_send_buffer c))"
proof (cases "shutdown_flag c \<or> packets (pkt_send_buffer c) = [] \<or> destroy (pkt_send_buffer c)")
  case True
  then have "ps = []" "c' = c"
    using assms by (auto simp: emits_def PacketSendBufferListener_round_def DeQueueAllTo_stopped
        DeQueueAllTo_def dequeue_all_locked_def IncReaders_def DecReaders_def split: if_splits)
  then show ?thesis by (auto intro: exI [of _ "pkt_send_buffer c"])
next
  case False
  then show ?thesis
    using assms by (auto simp: emits_def PacketSendBufferListener_round_def DeQueueAllTo_running)
qed

definition established :: "'b TcpController \<Rightarrow> bool" where
  "established c \<longleftrightarrow> tcp_state c = ESTABLISHED \<and> \<not> shutdown_flag c \<and> \<not> destroy (pkt_send_buffer c)"

text \<open>Ready to send from a sequence number, and to receive from one: nothing is on its way or stored.\<close>

definition ready_sender :: "('b \<Rightarrow> bool) \<Rightarrow> ('b \<Rightarrow> byte list) \<Rightarrow> uint32 \<Rightarrow> 'b TcpController \<Rightarrow> bool" where
  "ready_sender ok contents b c \<longleftrightarrow> established c \<and> packets (pkt_send_buffer c) = [] \<and>
     ok (send_buffer c) \<and> contents (send_buffer c) = [] \<and> send_base (send_window c) = b \<and>
     pkts_to_ack (send_window c) = [] \<and> sw_size (send_window c) = 0 \<and> duplicated_acks (send_window c) = 0"

definition ready_receiver :: "('b \<Rightarrow> bool) \<Rightarrow> ('b \<Rightarrow> byte list) \<Rightarrow> uint32 \<Rightarrow> 'b TcpController \<Rightarrow> bool" where
  "ready_receiver ok contents b c \<longleftrightarrow> established c \<and> packets (pkt_send_buffer c) = [] \<and> pipe_state c = Pipe_OPEN \<and>
     ok (recv_buffer c) \<and> contents (recv_buffer c) = [] \<and> overflow_pkts c = [] \<and>
     recv_base (recv_window c) = b \<and> rw_nodes (recv_window c) = []"

text \<open>What the handshake leaves alone.\<close>

definition same_data :: "'b TcpController \<Rightarrow> 'b TcpController \<Rightarrow> bool" where
  "same_data c c' \<longleftrightarrow> send_buffer c' = send_buffer c \<and> recv_buffer c' = recv_buffer c \<and>
     overflow_pkts c' = overflow_pkts c \<and> pipe_state c' = pipe_state c \<and> shutdown_flag c' = shutdown_flag c \<and>
     destroy (pkt_send_buffer c') = destroy (pkt_send_buffer c)"

lemma emits_all:
  assumes "\<not> shutdown_flag c" "\<not> destroy (pkt_send_buffer c)"
  shows "\<exists>c'. emits c = (packets (pkt_send_buffer c), c') \<and> same_data c c' \<and> packets (pkt_send_buffer c') = [] \<and>
    send_window c' = send_window c \<and> recv_window c' = recv_window c \<and> tcp_state c' = tcp_state c"
proof (cases "packets (pkt_send_buffer c) = []")
  case True
  then have "emits c = ([], c)"
    using assms by (simp add: emits_def PacketSendBufferListener_round_def DeQueueAllTo_def dequeue_all_locked_def
        IncReaders_def DecReaders_def)
  then show ?thesis using True by (simp add: same_data_def)
next
  case False
  then show ?thesis
    using assms by (auto simp: emits_def PacketSendBufferListener_round_def DeQueueAllTo_running same_data_def)
qed

section \<open>Handlers of the handshake\<close>

definition syn_ack_packet :: "'b ring_ops \<Rightarrow> 'b TcpController \<Rightarrow> uint32 \<Rightarrow> Packet" where
  "syn_ack_packet ops c an =
     (let p = MakeSyncPacket ops c 0 in p\<lparr>tcp_header := (tcp_header p)\<lparr>ack := True, ack_num := an\<rparr>\<rparr>)"

lemma syn_ack_simps [simp]:
  "pkt_seq (syn_ack_packet ops c an) = 0" "payload_size (syn_ack_packet ops c an) = 1"
  "sync (tcp_header (syn_ack_packet ops c an))" "ack (tcp_header (syn_ack_packet ops c an))"
  "ack_num (tcp_header (syn_ack_packet ops c an)) = an"
  "window_size (tcp_header (syn_ack_packet ops c an)) = ucast (rb_free_space ops (recv_buffer c))"
  "pkt_normal (syn_ack_packet ops c an)"
  by (simp_all add: syn_ack_packet_def MakeSyncPacket_def pkt_normal_def)

lemma MakeSync_header [simp]:
  "sync (tcp_header (MakeSyncPacket ops c seq))" "\<not> ack (tcp_header (MakeSyncPacket ops c seq))"
  by (simp_all add: MakeSyncPacket_def key_tcp_header_def TcpHeader_default_def)

lemma MakeAck_header [simp]:
  "\<not> sync (tcp_header (MakeAckPacket ops c an))" "\<not> fin (tcp_header (MakeAckPacket ops c an))"
  "ack (tcp_header (MakeAckPacket ops c an))" "ack_num (tcp_header (MakeAckPacket ops c an)) = an"
  "window_size (tcp_header (MakeAckPacket ops c an)) = ucast (rb_free_space ops (recv_buffer c))"
  by (simp_all add: MakeAckPacket_def key_tcp_header_def TcpHeader_default_def)

lemma HandleSYN_fresh:
  assumes "sync (tcp_header p)" "\<not> ack (tcp_header p)" "payload_size p = 1"
    and "rw_nodes (recv_window c) = []" "recv_base (recv_window c) = pkt_seq p"
    and "pkts_to_ack (send_window c) = []" "sw_size (send_window c) = 0" "send_base (send_window c) = 0"
    and "capacity (send_window c) \<noteq> 0"
  shows "\<exists>c'. HandleReceivedPacket env m c p = Inr (m, c') \<and> tcp_state c' = SYN_RCVD \<and>
    recv_window c' = (recv_window c)\<lparr>recv_base := pkt_seq p + 1\<rparr> \<and> same_data c c' \<and>
    send_window c' = register_pkt (send_window c) (syn_ack_packet (ring env) c (pkt_seq p + 1)) \<and>
    packets (pkt_send_buffer c') = packets (pkt_send_buffer c) @ [syn_ack_packet (ring env) c (pkt_seq p + 1)]"
proof -
  let ?c1 = "c\<lparr>recv_window := (recv_window c)\<lparr>recv_base := pkt_seq p + 1\<rparr>\<rparr>"
  let ?sa = "syn_ack_packet (ring env) c (pkt_seq p + 1)"
  have same: "syn_ack_packet (ring env) ?c1 (pkt_seq p + 1) = ?sa"
    by (simp add: syn_ack_packet_def MakeSyncPacket_def)
  have "SendPacket (send_window c) ?sa = Inr (True, register_pkt (send_window c) ?sa)"
    using assms by (intro SendPacket_first) simp_all
  then have "\<exists>c'. HandleSYN (ring env) c p = Inr (True, c') \<and> tcp_state c' = SYN_RCVD \<and>
      recv_window c' = (recv_window c)\<lparr>recv_base := pkt_seq p + 1\<rparr> \<and> same_data c c' \<and>
      send_window c' = register_pkt (send_window c) ?sa \<and>
      packets (pkt_send_buffer c') = packets (pkt_send_buffer c) @ [?sa]"
    using assms ReceivePacket_single [of "recv_window c" p] same
    by (simp add: HandleSYN_def Let_def Copy_normal same_data_def flip: syn_ack_packet_def [unfolded Let_def])
  with assms(1,2) show ?thesis by (auto simp: HandleReceivedPacket_def)
qed

lemma HandleACKSYN_first:
  assumes "sync (tcp_header p)" "ack (tcp_header p)" "ack_num (tcp_header p) = send_base w + 1"
    and "tcp_state c = SYN_SENT" "send_window c = register_pkt w syn"
    and "pkts_to_ack w = []" "sw_size w = 0" "pkt_seq syn = send_base w" "payload_size syn = 1"
    and "unat (send_base w) < 4294967295"
  shows "\<exists>c' m'. HandleReceivedPacket env m c p = Inr (m', c') \<and> tcp_state c' = ESTABLISHED \<and>
    recv_window c' = (recv_window c)\<lparr>recv_base := pkt_seq p + 1\<rparr> \<and> same_data c c' \<and>
    pkts_to_ack (send_window c') = [] \<and> sw_size (send_window c') = 0 \<and>
    send_base (send_window c') = send_base w + 1 \<and> duplicated_acks (send_window c') = 0 \<and>
    capacity (send_window c') = ucast (window_size (tcp_header p)) \<and>
    packets (pkt_send_buffer c') = packets (pkt_send_buffer c) @ [MakeAckPacket (ring env) c (pkt_seq p + 1)]"
proof -
  obtain t w' where ack: "NewAckedPacket (elapsed_time env) m (register_pkt w syn) (send_base w + 1) =
      Inr (\<lparr>ack_refreshed = True, dup_ack = False, re_transmit = False, rtt = t\<rparr>, w', kMaxDuplicatedAcksOrigin)"
      "pkts_to_ack w' = []" "sw_size w' = 0" "send_base w' = send_base w + 1" "duplicated_acks w' = 0"
    using NewAckedPacket_single [OF assms(6-10)] by blast
  show ?thesis
    using assms(1-5) ack
    by (simp add: HandleReceivedPacket_def HandleACKSYN_def Let_def stop_timer_if_clear_def
        GetNewSendWindowSize_def kEnableCongestionControl_def set_recv_base_def MakeAckPacket_def same_data_def)
qed

lemma HandleACK_handshake:
  assumes "\<not> sync (tcp_header p)" "\<not> fin (tcp_header p)" "ack (tcp_header p)"
    and "ack_num (tcp_header p) = send_base w + 1"
    and "tcp_state c = SYN_RCVD" "send_window c = register_pkt w syn"
    and "pkts_to_ack w = []" "sw_size w = 0" "pkt_seq syn = send_base w" "payload_size syn = 1"
    and "unat (send_base w) < 4294967295"
  shows "\<exists>c' m'. HandleReceivedPacket env m c p = Inr (m', c') \<and> tcp_state c' = ESTABLISHED \<and>
    recv_window c' = recv_window c \<and> same_data c c' \<and>
    pkts_to_ack (send_window c') = [] \<and> sw_size (send_window c') = 0 \<and>
    send_base (send_window c') = send_base w + 1 \<and> duplicated_acks (send_window c') = 0 \<and>
    capacity (send_window c') = ucast (window_size (tcp_header p)) \<and>
    packets (pkt_send_buffer c') = packets (pkt_send_buffer c)"
proof -
  obtain t w' where ack: "NewAckedPacket (elapsed_time env) m (register_pkt w syn) (send_base w + 1) =
      Inr (\<lparr>ack_refreshed = True, dup_ack = False, re_transmit = False, rtt = t\<rparr>, w', kMaxDuplicatedAcksOrigin)"
      "pkts_to_ack w' = []" "sw_size w' = 0" "send_base w' = send_base w + 1" "duplicated_acks w' = 0"
    using NewAckedPacket_single [OF assms(7-11)] by blast
  show ?thesis
    using assms(1-6) ack
    by (simp add: HandleReceivedPacket_def HandleACK_def Let_def ack_flow_control_def ack_transition_def
        GetNewSendWindowSize_def kEnableCongestionControl_def same_data_def)
qed

lemma HandleReceivedPackets_one:
  "HandleReceivedPacket env m c p = Inr (m', c') \<Longrightarrow> HandleReceivedPackets env m c [p] = Inr (m', c')"
  by simp

text \<open>
  The controllers as \<^verbatim>\<open>Host::SocketConnect\<close> and \<^verbatim>\<open>Host::HandleNewConnection\<close> make them: the
  server's receive base is the sequence number of the SYN.
\<close>

definition client_controller :: "'b ring_ops \<Rightarrow> int32 \<Rightarrow> TcpControllerKey \<Rightarrow> 'b TcpController" where
  "client_controller ops sock key =
     TcpController_new ops False sock key (GetDefaultOptions\<lparr>send_window_base := 0\<rparr>)"

definition server_controller :: "'b ring_ops \<Rightarrow> int32 \<Rightarrow> TcpControllerKey \<Rightarrow> Packet \<Rightarrow> 'b TcpController" where
  "server_controller ops sock key pkt =
     TcpController_new ops False sock key (GetDefaultOptions\<lparr>recv_window_base := pkt_seq pkt\<rparr>)"

lemma client_fields [simp]:
  "tcp_state (client_controller ops sock key) = CLOSED"
  "send_window (client_controller ops sock key) = SendWindow_new 0 100"
  "packets (pkt_send_buffer (client_controller ops sock key)) = []"
  "recv_window (client_controller ops sock key) = RecvWindow_new 0 100"
  "recv_buffer (client_controller ops sock key) = rb_new ops 100"
  by (simp_all add: client_controller_def TcpController_new_def GetDefaultOptions_def PacketQueue_new_def
      kDefaultWindowBase_def kDefaultWindowSize_def kDefaultSocketBufferSize_def)

lemma server_fields [simp]:
  "send_window (server_controller ops sock key pkt) = SendWindow_new 0 100"
  "packets (pkt_send_buffer (server_controller ops sock key pkt)) = []"
  "recv_window (server_controller ops sock key pkt) = RecvWindow_new (pkt_seq pkt) 100"
  "recv_buffer (server_controller ops sock key pkt) = rb_new ops 100"
  by (simp_all add: server_controller_def TcpController_new_def GetDefaultOptions_def PacketQueue_new_def
      kDefaultWindowBase_def kDefaultWindowSize_def kDefaultSocketBufferSize_def)

lemma window_new_fields [simp]:
  "pkts_to_ack (SendWindow_new b cap) = []" "sw_size (SendWindow_new b cap) = 0"
  "send_base (SendWindow_new b cap) = b" "capacity (SendWindow_new b cap) = cap"
  "rw_nodes (RecvWindow_new b cap) = []" "recv_base (RecvWindow_new b cap) = b"
  by (simp_all add: SendWindow_new_def RecvWindow_new_def)

section \<open>Properties\<close>

lemma new_controllers_open [simp]:
  "\<not> shutdown_flag (client_controller ops sock key)" "\<not> shutdown_flag (server_controller ops sock key p)"
  "\<not> destroy (pkt_send_buffer (client_controller ops sock key))"
  "\<not> destroy (pkt_send_buffer (server_controller ops sock key p))"
  "overflow_pkts (client_controller ops sock key) = []" "overflow_pkts (server_controller ops sock key p) = []"
  "pipe_state (client_controller ops sock key) = Pipe_OPEN" "pipe_state (server_controller ops sock key p) = Pipe_OPEN"
  "send_buffer (client_controller ops sock key) = rb_new ops 100" "send_buffer (server_controller ops sock key p) = rb_new ops 100"
  by (simp_all add: client_controller_def server_controller_def TcpController_new_def GetDefaultOptions_def
      PacketQueue_new_def kDefaultSocketBufferSize_def)

text \<open>A packet is handled and what it queued is handed to the host.\<close>

lemma handled_emits:
  assumes "HandleReceivedPacket env m c p = Inr (m', c')" "same_data c c'"
    and "\<not> shutdown_flag c" "\<not> destroy (pkt_send_buffer c)"
  obtains c'' where "emits c' = (packets (pkt_send_buffer c'), c'')" "same_data c c''" "packets (pkt_send_buffer c'') = []"
    "send_window c'' = send_window c'" "recv_window c'' = recv_window c'" "tcp_state c'' = tcp_state c'"
  using emits_all [of c'] assms by (force simp: same_data_def)

text \<open>
  C28. The three-way handshake. A client connects; its SYN, handed to a server controller
  made for it as the host does, its answer and the client's acknowledgement bring both
  controllers to ESTABLISHED through SYN-SENT and SYN-RCVD, each emitting exactly one packet
  at each step. Afterwards each side is ready to send from the base the other is ready to
  receive from, nothing is queued or in flight, and each side's send window has the capacity
  of the other's receive buffer.
\<close>

theorem three_way_handshake:
  fixes ops :: "'b ring_ops"
  assumes laws: "ring_laws ops ok contents" and env: "ring client_env = ops" "ring server_env = ops"
  shows "\<exists>syn synack ackp cl cl1 cl2 cl3 sv sv1 sv2 m' m''.
    TryConnect ops (client_controller ops s1 key1) = Inr (True, cl) \<and> tcp_state cl = SYN_SENT \<and> emits cl = ([syn], cl1) \<and>
    HandleReceivedPacket server_env m (server_controller ops s2 key2 syn) syn = Inr (m, sv) \<and>
      tcp_state sv = SYN_RCVD \<and> emits sv = ([synack], sv1) \<and>
    HandleReceivedPacket client_env m cl1 synack = Inr (m', cl2) \<and> emits cl2 = ([ackp], cl3) \<and>
    HandleReceivedPacket server_env m' sv1 ackp = Inr (m'', sv2) \<and>
    ready_sender ok contents 1 cl3 \<and> ready_receiver ok contents 1 cl3 \<and>
    ready_sender ok contents 1 sv2 \<and> ready_receiver ok contents 1 sv2 \<and>
    capacity (send_window cl3) = rb_free_space ops (recv_buffer sv2) \<and>
    capacity (send_window sv2) = rb_free_space ops (recv_buffer cl3)"
proof -
  let ?client = "client_controller ops s1 key1" and ?server = "server_controller ops s2 key2"
  have new: "rb_free_space ops (rb_new ops 100) = 100" "ok (rb_new ops 100)" "contents (rb_new ops 100) = []"
    using ring_newD [OF laws, of 100] by simp_all
  define syn where "syn = MakeSyncPacket ops ?client 0"
  have syn: "pkt_seq syn = 0" "payload_size syn = 1" "sync (tcp_header syn)" "\<not> ack (tcp_header syn)"
    by (simp_all add: syn_def)
  obtain cl where cl: "TryConnect ops ?client = Inr (True, cl)" "tcp_state cl = SYN_SENT" "same_data ?client cl"
      "packets (pkt_send_buffer cl) = [syn]" "send_window cl = register_pkt (SendWindow_new 0 100) syn"
      "recv_window cl = RecvWindow_new 0 100"
    using TryConnect_fresh [of ?client ops] by (auto simp: syn_def same_data_def)
  obtain cl1 where cl1: "emits cl = ([syn], cl1)" "same_data ?client cl1" "packets (pkt_send_buffer cl1) = []"
      "send_window cl1 = register_pkt (SendWindow_new 0 100) syn" "recv_window cl1 = RecvWindow_new 0 100" "tcp_state cl1 = SYN_SENT"
    using emits_all [of cl] cl by (auto simp: same_data_def)
  define synack where "synack = syn_ack_packet ops (?server syn) 1"
  obtain sv where sv: "HandleReceivedPacket server_env m (?server syn) syn = Inr (m, sv)" "tcp_state sv = SYN_RCVD"
      "same_data (?server syn) sv" "recv_window sv = RecvWindow_new 1 100"
      "send_window sv = register_pkt (SendWindow_new 0 100) synack" "packets (pkt_send_buffer sv) = [synack]"
    using HandleSYN_fresh [of syn "?server syn" server_env m] syn by (auto simp: env synack_def RecvWindow_new_def)
  obtain sv1 where sv1: "emits sv = ([synack], sv1)" "same_data (?server syn) sv1" "packets (pkt_send_buffer sv1) = []"
      "send_window sv1 = send_window sv" "recv_window sv1 = recv_window sv" "tcp_state sv1 = SYN_RCVD"
    using handled_emits [OF sv(1,3)] sv(2,6) by auto
  have synack: "pkt_seq synack = 0" "payload_size synack = 1" "sync (tcp_header synack)" "ack (tcp_header synack)"
      "ack_num (tcp_header synack) = 1" "window_size (tcp_header synack) = 100"
    by (simp_all add: synack_def new)
  define ackp where "ackp = MakeAckPacket ops cl1 1"
  obtain cl2 m' where cl2: "HandleReceivedPacket client_env m cl1 synack = Inr (m', cl2)" "tcp_state cl2 = ESTABLISHED"
      "same_data cl1 cl2" "recv_window cl2 = RecvWindow_new 1 100" "pkts_to_ack (send_window cl2) = []" "sw_size (send_window cl2) = 0"
      "duplicated_acks (send_window cl2) = 0" "send_base (send_window cl2) = 1" "capacity (send_window cl2) = 100"
      "packets (pkt_send_buffer cl2) = [ackp]"
    using HandleACKSYN_first [of synack "SendWindow_new 0 100" cl1 syn client_env m] syn synack cl1
    by (auto simp: env ackp_def RecvWindow_new_def)
  obtain cl3 where cl3: "emits cl2 = ([ackp], cl3)" "same_data cl1 cl3" "packets (pkt_send_buffer cl3) = []"
      "send_window cl3 = send_window cl2" "recv_window cl3 = recv_window cl2" "tcp_state cl3 = ESTABLISHED"
    using handled_emits [OF cl2(1,3)] cl1(2) cl2(2,10) by (auto simp: same_data_def)
  have ackp: "\<not> sync (tcp_header ackp)" "\<not> fin (tcp_header ackp)" "ack (tcp_header ackp)"
      "ack_num (tcp_header ackp) = 1" "window_size (tcp_header ackp) = 100"
    using cl1(2) by (simp_all add: ackp_def new same_data_def)
  obtain sv2 m'' where sv2: "HandleReceivedPacket server_env m' sv1 ackp = Inr (m'', sv2)" "tcp_state sv2 = ESTABLISHED"
      "same_data sv1 sv2" "recv_window sv2 = recv_window sv1" "pkts_to_ack (send_window sv2) = []" "sw_size (send_window sv2) = 0"
      "duplicated_acks (send_window sv2) = 0" "send_base (send_window sv2) = 1" "capacity (send_window sv2) = 100"
      "packets (pkt_send_buffer sv2) = []"
    using HandleACK_handshake [of ackp "SendWindow_new 0 100" sv1 synack server_env m'] sv1 sv(5) ackp synack by auto
  have client: "ready_sender ok contents 1 cl3" "ready_receiver ok contents 1 cl3" "rb_free_space ops (recv_buffer cl3) = 100"
    using cl1(2) cl2 cl3 new by (simp_all add: ready_sender_def ready_receiver_def established_def same_data_def)
  have server: "ready_sender ok contents 1 sv2" "ready_receiver ok contents 1 sv2" "rb_free_space ops (recv_buffer sv2) = 100"
    using sv(4) sv1 sv2 new by (simp_all add: ready_sender_def ready_receiver_def established_def same_data_def)
  show ?thesis
    using cl(1,2) cl1(1) sv(1,2) sv1(1) cl2(1,9) cl3(1,4) sv2(1,9) client server
    by (intro exI conjI) (assumption | simp)+
qed

theorem three_way_handshake_witness:
  "\<exists>syn cl cl1 sv.
    TryConnect list_ring (client_controller list_ring 0 (TcpControllerKey_new ''s'' 80 ''c'' 7)) = Inr (True, cl) \<and>
    tcp_state cl = SYN_SENT \<and> emits cl = ([syn], cl1) \<and>
    HandleReceivedPacket list_env 3
      (server_controller list_ring 0 (TcpControllerKey_new ''c'' 7 ''s'' 80) syn) syn = Inr (3, sv) \<and>
    tcp_state sv = SYN_RCVD"
  using three_way_handshake [OF list_ring_laws, of list_env list_env 0 "TcpControllerKey_new ''s'' 80 ''c'' 7"
      3 0 "TcpControllerKey_new ''c'' 7 ''s'' 80"]
  by (simp add: list_env_def) blast

section \<open>Closing\<close>

lemma SendFIN_idle:
  fixes ops :: "'b ring_ops" and c :: "'b TcpController"
  assumes "\<not> shutdown_flag c" "rb_empty ops (send_buffer c)"
    and "pkts_to_ack (send_window c) = []" "sw_size (send_window c) = 0"
    and "tcp_state c = ESTABLISHED \<or> tcp_state c = CLOSE_WAIT"
  defines "w \<equiv> set_capacity 1 (send_window c)"
  defines "fin_pkt \<equiv> MakeFinPacket c (send_base (send_window c))"
  shows "\<exists>log. SendFIN ops c = Inr (Returns (c\<lparr>send_window := register_pkt w fin_pkt,
      tcp_state := (if tcp_state c = ESTABLISHED then FIN_WAIT_1 else LAST_ACK),
      pkt_send_buffer := (pkt_send_buffer c)\<lparr>packets := packets (pkt_send_buffer c) @ [fin_pkt]\<rparr>, timer_log := log\<rparr>))"
proof -
  have "SendPacket w fin_pkt = Inr (True, register_pkt w fin_pkt)"
    using assms(3,4) by (intro SendPacket_first) (simp_all add: w_def fin_pkt_def)
  moreover have "NextSeqNumberToSend w = send_base (send_window c)"
    using assms(4) by (simp add: NextSeqNumberToSend_def w_def)
  moreover have "Copy fin_pkt = Inr fin_pkt" by (simp add: fin_pkt_def Copy_normal)
  ultimately show ?thesis
    using assms(1,2,4,5)
    by (auto simp: SendFIN_def Let_def timer_op_def w_def [symmetric] fin_pkt_def [symmetric])
qed

lemma MakeFin_header [simp]:
  "fin (tcp_header (MakeFinPacket c seq))" "\<not> sync (tcp_header (MakeFinPacket c seq))"
  by (simp_all add: MakeFinPacket_def key_tcp_header_def TcpHeader_default_def)

lemma HandleFIN_expected:
  assumes "fin (tcp_header p)" "\<not> sync (tcp_header p)" "payload_size p = 1"
    and "rw_nodes (recv_window c) = []" "recv_base (recv_window c) = pkt_seq p" "overflow_pkts c = []"
    and "tcp_state c = ESTABLISHED \<or> tcp_state c = FIN_WAIT_2"
  shows "\<exists>c'. HandleReceivedPacket env m c p = Inr (m, c') \<and>
    tcp_state c' = (if tcp_state c = ESTABLISHED then CLOSE_WAIT else TIME_WAIT) \<and>
    threads c' = (if tcp_state c = ESTABLISHED then threads c else threads c @ [Kill_after_sleep]) \<and>
    pipe_state c' = EOF_NOT_CONSUMED \<and> recv_base (recv_window c') = pkt_seq p + 1 \<and>
    recv_buffer c' = recv_buffer c \<and> send_window c' = send_window c \<and> send_buffer c' = send_buffer c \<and>
    shutdown_flag c' = shutdown_flag c \<and> tcp_key c' = tcp_key c \<and>
    packets (pkt_send_buffer c') = packets (pkt_send_buffer c) @ [MakeAckPacket (ring env) c (pkt_seq p + 1)]"
  using assms ReceivePacket_single [of "recv_window c" p]
  by (auto simp: HandleReceivedPacket_def HandleFIN_def Let_def StreamDataToReceiveBuffer_def
      PushOverflowedPacketsToSocketBuffer_def MakeAckPacket_def detach_thread_def)

lemma HandleACK_of_FIN:
  assumes "\<not> sync (tcp_header p)" "\<not> fin (tcp_header p)" "ack (tcp_header p)"
    and "ack_num (tcp_header p) = send_base w + 1"
    and "tcp_state c = FIN_WAIT_1 \<or> tcp_state c = LAST_ACK" "send_window c = register_pkt w fin_pkt"
    and "pkts_to_ack w = []" "sw_size w = 0" "pkt_seq fin_pkt = send_base w" "payload_size fin_pkt = 1"
    and "unat (send_base w) < 4294967295" "\<not> shutdown_flag c"
  shows "\<exists>c' m'. HandleReceivedPacket env m c p = Inr (m', c') \<and>
    tcp_state c' = (if tcp_state c = FIN_WAIT_1 then FIN_WAIT_2 else CLOSED) \<and>
    shutdown_flag c' = (tcp_state c = LAST_ACK) \<and>
    threads c' = threads c @ (if tcp_state c = LAST_ACK then [Shut_down] else []) \<and>
    pkts_to_ack (send_window c') = [] \<and> pipe_state c' = pipe_state c \<and>
    recv_window c' = recv_window c \<and> overflow_pkts c' = overflow_pkts c \<and> recv_buffer c' = recv_buffer c"
proof -
  obtain t w' where ack: "NewAckedPacket (elapsed_time env) m (register_pkt w fin_pkt) (send_base w + 1) =
      Inr (\<lparr>ack_refreshed = True, dup_ack = False, re_transmit = False, rtt = t\<rparr>, w', kMaxDuplicatedAcksOrigin)"
      "pkts_to_ack w' = []"
    using NewAckedPacket_single [OF assms(7-11)] by blast
  have "NumPacketsToAck w' = 0" using ack(2) by (simp add: NumPacketsToAck_def)
  with ack assms(1-6,12) show ?thesis
    by (auto simp: HandleReceivedPacket_def HandleACK_def Let_def ack_flow_control_def ack_transition_def
        CloseAndDelete_def detach_thread_def NumPacketsToAck_def timer_op_def)
qed

text \<open>Two connected controllers with nothing buffered or in flight between them.\<close>

definition idle_half :: "'b ring_ops \<Rightarrow> 'b TcpController \<Rightarrow> 'b TcpController \<Rightarrow> bool" where
  "idle_half ops a b \<longleftrightarrow> tcp_state a = ESTABLISHED \<and> \<not> shutdown_flag a \<and> rb_empty ops (send_buffer a) \<and>
     pkts_to_ack (send_window a) = [] \<and> sw_size (send_window a) = 0 \<and> rw_nodes (recv_window a) = [] \<and>
     overflow_pkts a = [] \<and> send_base (send_window a) = recv_base (recv_window b) \<and>
     unat (send_base (send_window a)) < 4294967295"

text \<open>
  C29. Orderly release. Of two idle connected controllers, the first sends a FIN, the second
  acknowledges it, sends its own, and is acknowledged. The first passes through FIN-WAIT-1
  and FIN-WAIT-2 to TIME-WAIT, where the thread that will delete the connection is started;
  the second passes through CLOSE-WAIT and LAST-ACK to CLOSED, where it shuts down. Both
  applications will read the end of the stream, and both send windows are empty at the end.
\<close>

theorem orderly_release:
  assumes idle: "idle_half ops a b" "idle_half ops b a" and env: "ring env_a = ops" "ring env_b = ops"
  shows "\<exists>fin1 ack1 fin2 ack2 a1 a2 a3 b1 b2 b3 m1 m2.
    SendFIN ops a = Inr (Returns a1) \<and> packets (pkt_send_buffer a1) = packets (pkt_send_buffer a) @ [fin1] \<and>
      tcp_state a1 = FIN_WAIT_1 \<and>
    HandleReceivedPackets env_b m b [fin1] = Inr (m, b1) \<and>
      packets (pkt_send_buffer b1) = packets (pkt_send_buffer b) @ [ack1] \<and> tcp_state b1 = CLOSE_WAIT \<and>
    HandleReceivedPackets env_a m a1 [ack1] = Inr (m1, a2) \<and> tcp_state a2 = FIN_WAIT_2 \<and>
    SendFIN ops b1 = Inr (Returns b2) \<and>
      packets (pkt_send_buffer b2) = packets (pkt_send_buffer b) @ [ack1, fin2] \<and> tcp_state b2 = LAST_ACK \<and>
    HandleReceivedPackets env_a m1 a2 [fin2] = Inr (m1, a3) \<and> tcp_state a3 = TIME_WAIT \<and>
      packets (pkt_send_buffer a3) = packets (pkt_send_buffer a2) @ [ack2] \<and>
      threads a3 = threads a @ [Kill_after_sleep] \<and>
    HandleReceivedPackets env_b m1 b2 [ack2] = Inr (m2, b3) \<and> tcp_state b3 = CLOSED \<and>
      shutdown_flag b3 \<and> threads b3 = threads b @ [Shut_down] \<and>
    pipe_state a3 = EOF_NOT_CONSUMED \<and> pipe_state b3 = EOF_NOT_CONSUMED \<and>
    pkts_to_ack (send_window a3) = [] \<and> pkts_to_ack (send_window b3) = []"
proof -
  let ?fin = "\<lambda>c. MakeFinPacket c (send_base (send_window c))"
  let ?w = "\<lambda>c. set_capacity 1 (send_window c)"
  obtain a1 where a1: "SendFIN ops a = Inr (Returns a1)" "tcp_state a1 = FIN_WAIT_1"
      "packets (pkt_send_buffer a1) = packets (pkt_send_buffer a) @ [?fin a]"
      "send_window a1 = register_pkt (?w a) (?fin a)" "\<not> shutdown_flag a1" "threads a1 = threads a"
      "recv_window a1 = recv_window a" "overflow_pkts a1 = []" "recv_buffer a1 = recv_buffer a"
    using SendFIN_idle [of a ops] idle(1) by (auto simp: idle_half_def)
  obtain b1 ack1 where b1: "HandleReceivedPacket env_b m b (?fin a) = Inr (m, b1)" "tcp_state b1 = CLOSE_WAIT"
      "packets (pkt_send_buffer b1) = packets (pkt_send_buffer b) @ [ack1]"
      "ack1 = MakeAckPacket ops b (send_base (send_window a) + 1)"
      "pipe_state b1 = EOF_NOT_CONSUMED" "send_window b1 = send_window b" "send_buffer b1 = send_buffer b"
      "\<not> shutdown_flag b1" "threads b1 = threads b"
    using HandleFIN_expected [of "?fin a" b env_b m] idle env by (auto simp: idle_half_def)
  obtain a2 m1 where a2: "HandleReceivedPacket env_a m a1 ack1 = Inr (m1, a2)" "tcp_state a2 = FIN_WAIT_2"
      "threads a2 = threads a" "pkts_to_ack (send_window a2) = []" "recv_window a2 = recv_window a" "overflow_pkts a2 = []"
    using HandleACK_of_FIN [of ack1 "?w a" a1 "?fin a" env_a m] idle(1) a1 b1(4) by (auto simp: idle_half_def)
  obtain b2 where b2: "SendFIN ops b1 = Inr (Returns b2)" "tcp_state b2 = LAST_ACK"
      "packets (pkt_send_buffer b2) = packets (pkt_send_buffer b) @ [ack1, ?fin b1]"
      "send_window b2 = register_pkt (?w b) (?fin b1)" "\<not> shutdown_flag b2" "threads b2 = threads b"
      "pipe_state b2 = EOF_NOT_CONSUMED"
    using SendFIN_idle [of b1 ops] idle(2) b1 by (auto simp: idle_half_def)
  obtain a3 ack2 where a3: "HandleReceivedPacket env_a m1 a2 (?fin b1) = Inr (m1, a3)" "tcp_state a3 = TIME_WAIT"
      "packets (pkt_send_buffer a3) = packets (pkt_send_buffer a2) @ [ack2]"
      "ack2 = MakeAckPacket ops a2 (send_base (send_window b) + 1)"
      "threads a3 = threads a @ [Kill_after_sleep]" "pipe_state a3 = EOF_NOT_CONSUMED" "pkts_to_ack (send_window a3) = []"
    using HandleFIN_expected [of "?fin b1" a2 env_a m1] idle a2 b1(6) env by (auto simp: idle_half_def)
  obtain b3 m2 where b3: "HandleReceivedPacket env_b m1 b2 ack2 = Inr (m2, b3)" "tcp_state b3 = CLOSED" "shutdown_flag b3"
      "threads b3 = threads b @ [Shut_down]" "pkts_to_ack (send_window b3) = []" "pipe_state b3 = EOF_NOT_CONSUMED"
    using HandleACK_of_FIN [of ack2 "?w b" b2 "?fin b1" env_b m1] idle(2) a3(4) b1(6) b2 by (auto simp: idle_half_def)
  show ?thesis
    using a1(1-3) b1(2,3,5) a2(2) b2(1-3) a3(2,3,5-7) b3(2-6)
      HandleReceivedPackets_one [OF b1(1)] HandleReceivedPackets_one [OF a2(1)]
      HandleReceivedPackets_one [OF a3(1)] HandleReceivedPackets_one [OF b3(1)]
    by (intro exI conjI) (assumption | simp)+
qed

definition idle_peer :: "TcpControllerKey \<Rightarrow> list_buffer TcpController" where
  "idle_peer key = (client_controller list_ring 0 key)\<lparr>tcp_state := ESTABLISHED\<rparr>"

theorem orderly_release_witness:
  "\<exists>fin1 a1 b1. SendFIN list_ring (idle_peer (TcpControllerKey_new ''s'' 80 ''c'' 7)) = Inr (Returns a1) \<and>
    packets (pkt_send_buffer a1) = [fin1] \<and> tcp_state a1 = FIN_WAIT_1 \<and>
    HandleReceivedPackets list_env 3 (idle_peer (TcpControllerKey_new ''c'' 7 ''s'' 80)) [fin1] = Inr (3, b1) \<and>
    tcp_state b1 = CLOSE_WAIT"
proof -
  have "\<not> shutdown_flag (client_controller list_ring 0 key)" "snd (send_buffer (client_controller list_ring 0 key)) = []"
    "overflow_pkts (client_controller list_ring 0 key) = []" for key
    by (simp_all add: client_controller_def TcpController_new_def list_ring_def)
  then have idle: "idle_half list_ring (idle_peer k1) (idle_peer k2)" for k1 k2
    by (auto simp: idle_half_def idle_peer_def list_ring_def split_beta)
  have env: "ring list_env = list_ring" by (simp add: list_env_def)
  have "packets (pkt_send_buffer (idle_peer key)) = []" for key by (simp add: idle_peer_def)
  with orderly_release [OF idle [of "TcpControllerKey_new ''s'' 80 ''c'' 7" "TcpControllerKey_new ''c'' 7 ''s'' 80"]
      idle env env, of 3]
  show ?thesis by (simp only: append_Nil) blast
qed

end
