(* ===== verification/Connection.thy ===== *)
theory Connection
  imports Transport Tcp_Handshake
begin

text \<open>
  One direction of a connection between two whole controllers: an application that writes,
  the sender's listeners and timers, a first-in first-out path that may lose packets in
  both directions, the receiver's handlers, and an application that reads. Every step is a
  run of the controller's code. The system refines the one of two windows and two channels,
  and flow control keeps the receiver's overflow queue empty, so that the bytes read are
  always a prefix of the bytes written.
\<close>

section \<open>The system\<close>

record 'b conn =
  sender :: "'b TcpController"
  receiver :: "'b TcpController"
  wire_data :: "Packet list"
  wire_acks :: "Packet list"
  dup_limit :: uint32
  written :: "byte list"
  got :: "byte list"

datatype conn_event =
    App_write "byte list"
  | App_read nat
  | Send_loop bool            \<comment> \<open>with whether the prober timer is running\<close>
  | Timer_fires
  | Prober_fires
  | Sender_emits
  | Receiver_emits
  | Lose_data_pkt nat
  | Lose_ack_pkt nat
  | Data_arrives
  | Ack_arrives
  | Receive_loop

text \<open>
  A call or a thread that would block changes nothing. The two directions of the path carry
  a packet from a controller's send queue through both hosts and the channel to the other
  controller's handlers.
\<close>

definition conn_env :: "'b ring_ops \<Rightarrow> (SendWindowNode \<Rightarrow> nanoseconds) \<Rightarrow> bool \<Rightarrow> 'b tcp_env" where
  "conn_env ops el started = \<lparr>ring = ops, elapsed_time = el, prober_started = started\<rparr>"

fun running_round :: "'a \<Rightarrow> 'a waits checked option \<Rightarrow> 'a checked" where
  "running_round x None = Inr x"
| "running_round x (Some r) = bindR r (\<lambda>w. Inr (unblocked x w))"

fun conn_step ::
  "'b ring_ops \<Rightarrow> (SendWindowNode \<Rightarrow> nanoseconds) \<Rightarrow> 'b conn \<Rightarrow> conn_event \<Rightarrow> 'b conn checked" where
  "conn_step ops el s (App_write bs) =
     (let (r, c) = unblocked (0, sender s) (WriteData ops (sender s) bs (int (length bs)))
      in Inr (s\<lparr>sender := c, written := written s @ take (nat r) bs\<rparr>))"
| "conn_step ops el s (App_read n) =
     bindR (ReadData ops (receiver s) (int n)) (\<lambda>w.
       let ((r, bs), c) = unblocked ((0, []), receiver s) w
       in Inr (s\<lparr>receiver := c, got := got s @ bs\<rparr>))"
| "conn_step ops el s (Send_loop started) =
     bindR (running_round (sender s) (SendBufferListener_round (conn_env ops el started) (sender s)))
       (\<lambda>c. Inr (s\<lparr>sender := c\<rparr>))"
| "conn_step ops el s Timer_fires = bindR (TimeoutReTransmitter (sender s)) (\<lambda>c. Inr (s\<lparr>sender := c\<rparr>))"
| "conn_step ops el s Prober_fires = bindR (ProbeWindowSize (sender s)) (\<lambda>c. Inr (s\<lparr>sender := c\<rparr>))"
| "conn_step ops el s Sender_emits =
     (let (ps, c) = emits (sender s) in Inr (s\<lparr>sender := c, wire_data := wire_data s @ ps\<rparr>))"
| "conn_step ops el s Receiver_emits =
     (let (ps, c) = emits (receiver s) in Inr (s\<lparr>receiver := c, wire_acks := wire_acks s @ ps\<rparr>))"
| "conn_step ops el s (Lose_data_pkt i) = Inr (s\<lparr>wire_data := remove_nth i (wire_data s)\<rparr>)"
| "conn_step ops el s (Lose_ack_pkt i) = Inr (s\<lparr>wire_acks := remove_nth i (wire_acks s)\<rparr>)"
| "conn_step ops el s Data_arrives =
     (case wire_data s of [] \<Rightarrow> Inr s
      | p # ps \<Rightarrow>
          bindR (HandleReceivedPacket (conn_env ops el False) (dup_limit s) (receiver s) p) (\<lambda>(m, c).
            Inr (s\<lparr>receiver := c, dup_limit := m, wire_data := ps\<rparr>)))"
| "conn_step ops el s Ack_arrives =
     (case wire_acks s of [] \<Rightarrow> Inr s
      | p # ps \<Rightarrow>
          bindR (HandleReceivedPacket (conn_env ops el False) (dup_limit s) (sender s) p) (\<lambda>(m, c).
            Inr (s\<lparr>sender := c, dup_limit := m, wire_acks := ps\<rparr>)))"
| "conn_step ops el s Receive_loop =
     bindR (running_round (receiver s) (ReceiveBufferListener_round ops (receiver s)))
       (\<lambda>c. Inr (s\<lparr>receiver := c\<rparr>))"

fun conn_run ::
  "'b ring_ops \<Rightarrow> (SendWindowNode \<Rightarrow> nanoseconds) \<Rightarrow> 'b conn \<Rightarrow> conn_event list \<Rightarrow> 'b conn checked" where
  "conn_run ops el s [] = Inr s"
| "conn_run ops el s (e # es) = bindR (conn_step ops el s e) (\<lambda>s'. conn_run ops el s' es)"

section \<open>The simulation relation\<close>

definition no_flags :: "Packet \<Rightarrow> bool" where
  "no_flags p \<longleftrightarrow> \<not> sync (tcp_header p) \<and> \<not> fin (tcp_header p) \<and> \<not> ack (tcp_header p) \<and> \<not> rst (tcp_header p)"

definition pure_ack :: "Packet \<Rightarrow> bool" where
  "pure_ack p \<longleftrightarrow> \<not> sync (tcp_header p) \<and> \<not> fin (tcp_header p) \<and> ack (tcp_header p)"

text \<open>The packets on their way, with those still in the controllers' send queues.\<close>

definition data_flight :: "'b conn \<Rightarrow> Packet list" where
  "data_flight s = wire_data s @ packets (pkt_send_buffer (sender s))"

definition ack_flight :: "'b conn \<Rightarrow> Packet list" where
  "ack_flight s = wire_acks s @ packets (pkt_send_buffer (receiver s))"

text \<open>The windows and the channels are those of the abstract system.\<close>

definition sim_net :: "'b conn \<Rightarrow> net \<Rightarrow> bool" where
  "sim_net s n \<longleftrightarrow> tx n = send_window (sender s) \<and> max_dups n = dup_limit s \<and>
     rx n = recv_window (receiver s) \<and> data_ch n = data_flight s \<and>
     ack_ch n = map (\<lambda>p. ack_num (tcp_header p)) (ack_flight s)"

definition sim_pkts :: "'b conn \<Rightarrow> net \<Rightarrow> bool" where
  "sim_pkts s n \<longleftrightarrow> established (sender s) \<and> established (receiver s) \<and> pipe_state (receiver s) = Pipe_OPEN \<and>
     (\<forall>p \<in> set (data_flight s). no_flags p) \<and> (\<forall>p \<in> set (ack_flight s). pure_ack p) \<and>
     (\<forall>p \<in> set (sent n). plain_pkt p)"

text \<open>The bytes are either read, or in a buffer, or in packets that are on their way.\<close>

definition sim_bytes :: "('b \<Rightarrow> bool) \<Rightarrow> ('b \<Rightarrow> byte list) \<Rightarrow> 'b conn \<Rightarrow> net \<Rightarrow> bool" where
  "sim_bytes ok contents s n \<longleftrightarrow> ok (send_buffer (sender s)) \<and> ok (recv_buffer (receiver s)) \<and>
     overflow_pkts (receiver s) = [] \<and>
     written s = pkts_bytes (sent n) @ contents (send_buffer (sender s)) \<and>
     pkts_bytes (delivered n) = got s @ contents (recv_buffer (receiver s))"

text \<open>
  Flow control. The right edge is the first sequence number for which the receiver has no
  room; it never moves back. What was sent, what the sender may send, and what any
  acknowledgement on its way allows, stays below it.
\<close>

definition right_edge :: "'b ring_ops \<Rightarrow> 'b conn \<Rightarrow> nat" where
  "right_edge ops s = unat (recv_base (recv_window (receiver s))) + unat (rb_free_space ops (recv_buffer (receiver s)))"

definition ack_edge :: "Packet \<Rightarrow> nat" where
  "ack_edge p = unat (ack_num (tcp_header p)) + unat (window_size (tcp_header p))"

definition sim_flow :: "'b ring_ops \<Rightarrow> uint32 \<Rightarrow> 'b conn \<Rightarrow> net \<Rightarrow> bool" where
  "sim_flow ops b s n \<longleftrightarrow> unat b + seq_span (sent n) \<le> right_edge ops s \<and>
     unat (send_base (send_window (sender s))) + unat (capacity (send_window (sender s))) \<le> right_edge ops s \<and>
     (\<forall>p \<in> set (ack_flight s). ack_edge p \<le> right_edge ops s)"

definition sim :: "'b ring_ops \<Rightarrow> ('b \<Rightarrow> bool) \<Rightarrow> ('b \<Rightarrow> byte list) \<Rightarrow> uint32 \<Rightarrow> 'b conn \<Rightarrow> net \<Rightarrow> bool" where
  "sim ops ok contents b s n \<longleftrightarrow> sim_net s n \<and> sim_pkts s n \<and> sim_bytes ok contents s n \<and> sim_flow ops b s n"

lemmas sim_defs = sim_def sim_net_def sim_pkts_def sim_bytes_def sim_flow_def

section \<open>Every step is simulated\<close>

text \<open>
  A step never faults; it is matched by events of the abstract system that send no more
  bytes than were written, and no more packets than bytes. The size of the receive buffer
  stays what it is: the right edge moves by the number of bytes read. What is in flight is
  paid for: only timers and new data add to the measure of the channels, all other events
  of the abstract system make it smaller.
\<close>

fun charge :: "conn_event \<Rightarrow> nat" where
  "charge Timer_fires = 1"
| "charge Prober_fires = 1"
| "charge _ = 0"

definition same_room :: "'b ring_ops \<Rightarrow> 'b conn \<Rightarrow> 'b conn \<Rightarrow> bool" where
  "same_room ops s s' \<longleftrightarrow> right_edge ops s' + length (got s) = right_edge ops s + length (got s')"

lemma same_room_refl [simp]: "same_room ops s s"
  by (simp add: same_room_def)

definition simulated ::
  "'b ring_ops \<Rightarrow> ('b \<Rightarrow> bool) \<Rightarrow> ('b \<Rightarrow> byte list) \<Rightarrow> uint32 \<Rightarrow> (SendWindowNode \<Rightarrow> nanoseconds) \<Rightarrow>
   'b conn \<Rightarrow> net \<Rightarrow> conn_event \<Rightarrow> bool" where
  "simulated ops ok contents b el s n e \<longleftrightarrow>
     (\<exists>s' fs n'. conn_step ops el s e = Inr s' \<and> net_run el n fs = Inr n' \<and> list_all valid_event fs \<and>
        length fs \<le> 1 + load fs \<and> seq_span (sent n) + load fs \<le> length (written s) \<and>
        seq_span (sent n') = seq_span (sent n) + load fs \<and> sim ops ok contents b s' n' \<and> same_room ops s s' \<and>
        drain_measure n' + length fs \<le> drain_measure n + 5 * charge e + 5 * load fs)"

text \<open>A step that is matched by one event.\<close>

definition matched ::
  "'b ring_ops \<Rightarrow> ('b \<Rightarrow> bool) \<Rightarrow> ('b \<Rightarrow> byte list) \<Rightarrow> uint32 \<Rightarrow> (SendWindowNode \<Rightarrow> nanoseconds) \<Rightarrow>
   'b conn \<Rightarrow> net \<Rightarrow> conn_event \<Rightarrow> net_event \<Rightarrow> 'b conn \<Rightarrow> bool" where
  "matched ops ok contents b el s n e f s' \<longleftrightarrow>
     conn_step ops el s e = Inr s' \<and> same_room ops s s' \<and>
     (\<exists>n'. net_step el n f = Inr n' \<and> sim ops ok contents b s' n' \<and> drain_measure n' < drain_measure n + 5 * charge e)"

lemma simulated_stutter:
  assumes "conn_step ops el s e = Inr s'" "sim ops ok contents b s' n" "same_room ops s s'"
    and "seq_span (sent n) \<le> length (written s)"
  shows "simulated ops ok contents b el s n e"
  unfolding simulated_def using assms by (intro exI [of _ s'] exI [of _ "[]"] exI [of _ n]) simp

lemma net_step_sent:
  assumes "net_step el n f = Inr n'" "valid_event f" "load [f] = 0"
  shows "sent n' = sent n"
  using assms
  by (cases f) (auto simp: resend_base_def recv_data_step_def recv_ack_step_def bindR_Inr_iff Let_def
      split: if_splits list.splits)

lemma simulated_step:
  assumes "matched ops ok contents b el s n e f s'" "valid_event f" "load [f] = 0"
    and "seq_span (sent n) \<le> length (written s)"
  shows "simulated ops ok contents b el s n e"
proof -
  obtain n' where n': "conn_step ops el s e = Inr s'" "same_room ops s s'" "net_step el n f = Inr n'"
    "sim ops ok contents b s' n'" "drain_measure n' < drain_measure n + 5 * charge e"
    using assms(1) by (auto simp: matched_def)
  then show ?thesis
    unfolding simulated_def using assms net_step_sent [OF n'(3) assms(2,3)]
    by (intro exI [of _ s'] exI [of _ "[f]"] exI [of _ n']) simp
qed

lemma sim_written:
  assumes "sim ops ok contents b s n"
  shows "length (written s) = seq_span (sent n) + length (contents (send_buffer (sender s)))"
proof -
  have "\<forall>p \<in> set (sent n). data_pkt p" using assms by (auto simp: sim_defs plain_pkt_def)
  then show ?thesis using assms length_pkts_bytes by (simp add: sim_defs)
qed

lemma sim_flow_grow:
  assumes "right_edge ops s \<le> right_edge ops s'" "sim_flow ops b s n" "set (ack_flight s') \<subseteq> set (ack_flight s)"
    and "send_window (sender s') = send_window (sender s)"
  shows "sim_flow ops b s' n"
  using assms by (force simp: sim_flow_def)

subsection \<open>The applications\<close>

lemma app_write_simulated:
  assumes laws: "ring_laws ops ok contents" and s: "sim ops ok contents b s n" and len: "length bs < 2147483648"
  shows "simulated ops ok contents b el s n (App_write bs)"
proof -
  let ?c = "sender s"
  have st: "\<not> InClosingState ?c" "\<not> shutdown_flag ?c" and ok: "ok (send_buffer ?c)"
    using s by (auto simp: sim_defs established_def InClosingState_def)
  let ?f = "unat (rb_free_space ops (send_buffer ?c))"
  obtain buf where wr: "WriteData ops ?c bs (int (length bs)) =
      (if InClosingState ?c \<or> shutdown_flag ?c then Returns (-1, ?c)
       else if rb_free_space ops (send_buffer ?c) = 0 then Blocks
       else Returns (int (min (nat (int (length bs))) ?f), ?c\<lparr>send_buffer := buf\<rparr>))"
    "ok buf" "contents buf = contents (send_buffer ?c) @ take ?f bs"
    using WriteData_spec [OF laws ok, of "int (length bs)" bs] len by auto
  show ?thesis
  proof (cases "rb_free_space ops (send_buffer ?c) = 0")
    case True
    then have "conn_step ops el s (App_write bs) = Inr s" using wr(1) st by simp
    then show ?thesis using s sim_written [OF s] by (intro simulated_stutter) auto
  next
    case False
    let ?s = "s\<lparr>sender := ?c\<lparr>send_buffer := buf\<rparr>, written := written s @ take (min (length bs) ?f) bs\<rparr>"
    have "conn_step ops el s (App_write bs) = Inr ?s" using wr(1) st False by simp
    moreover have "sim ops ok contents b ?s n"
      using s wr by (auto simp: sim_defs established_def data_flight_def ack_flight_def right_edge_def min_def)
    moreover have "same_room ops s ?s" by (simp add: same_room_def right_edge_def)
    ultimately show ?thesis using sim_written [OF s] by (intro simulated_stutter) auto
  qed
qed

lemma app_read_step:
  assumes laws: "ring_laws ops ok contents" and s: "sim ops ok contents b s n"
    and ne: "contents (recv_buffer (receiver s)) \<noteq> []"
  obtains s' where "conn_step ops el s (App_read k) = Inr s'" "sim ops ok contents b s' n" "same_room ops s s'"
    "contents (recv_buffer (receiver s')) = drop k (contents (recv_buffer (receiver s)))"
proof -
  let ?c = "receiver s" and ?bs = "contents (recv_buffer (receiver s))"
  have st: "pipe_state ?c = Pipe_OPEN" "\<not> shutdown_flag ?c" and ok: "ok (recv_buffer ?c)"
    using s by (auto simp: sim_defs established_def)
  obtain xs buf where rd: "rb_Read ops (recv_buffer ?c) (int k) = (xs, buf)" by force
  note r = ring_readD [OF laws ok rd]
  let ?s = "s\<lparr>receiver := ?c\<lparr>recv_buffer := buf\<rparr>, got := got s @ xs\<rparr>"
  have "conn_step ops el s (App_read k) = Inr ?s"
    using st ne rd ring_boundsD(2) [OF laws ok] by (simp add: ReadData_def Let_def)
  moreover have "right_edge ops s \<le> right_edge ops ?s" using r(4) by (simp add: right_edge_def)
  then have "sim_flow ops b ?s n"
    by (rule sim_flow_grow) (use s in \<open>simp_all add: sim_def ack_flight_def\<close>)
  then have "sim ops ok contents b ?s n"
    using s r by (auto simp: sim_def sim_net_def sim_pkts_def sim_bytes_def established_def data_flight_def ack_flight_def)
  moreover have "same_room ops s ?s" using r(4) by (simp add: same_room_def right_edge_def)
  ultimately show thesis using that [of ?s] r(3) by simp
qed

lemma app_read_simulated:
  assumes laws: "ring_laws ops ok contents" and s: "sim ops ok contents b s n"
  shows "simulated ops ok contents b el s n (App_read k)"
proof (cases "contents (recv_buffer (receiver s)) = []")
  case True
  have "pipe_state (receiver s) = Pipe_OPEN" "\<not> shutdown_flag (receiver s)" "ok (recv_buffer (receiver s))"
    using s by (auto simp: sim_defs established_def)
  then have "conn_step ops el s (App_read k) = Inr s"
    using True ring_boundsD(2) [OF laws] by (simp add: ReadData_def)
  then show ?thesis using s sim_written [OF s] by (intro simulated_stutter) auto
next
  case False
  from app_read_step [OF laws s False] obtain s' where "conn_step ops el s (App_read k) = Inr s'"
    "sim ops ok contents b s' n" "same_room ops s s'" by blast
  then show ?thesis using sim_written [OF s] by (intro simulated_stutter) auto
qed

subsection \<open>The path\<close>

lemma sender_emits_simulated:
  assumes s: "sim ops ok contents b s n"
  shows "simulated ops ok contents b el s n Sender_emits"
proof -
  obtain ps c where em: "emits (sender s) = (ps, c)" by force
  obtain q where q: "ps @ packets (pkt_send_buffer c) = packets (pkt_send_buffer (sender s))"
      "c = (sender s)\<lparr>pkt_send_buffer := q\<rparr>" "destroy q = destroy (pkt_send_buffer (sender s))"
    using emits_spec [OF em] by blast
  let ?s = "s\<lparr>sender := c, wire_data := wire_data s @ ps\<rparr>"
  have "data_flight ?s = data_flight s" "ack_flight ?s = ack_flight s" "right_edge ops ?s = right_edge ops s"
    using q by (simp_all add: data_flight_def ack_flight_def right_edge_def)
  then have "sim ops ok contents b ?s n" "same_room ops s ?s"
    using s q(3) unfolding sim_defs same_room_def by (simp_all add: q(2) established_def)
  moreover have "conn_step ops el s Sender_emits = Inr ?s" using em by simp
  ultimately show ?thesis using sim_written [OF s] by (intro simulated_stutter) auto
qed

lemma receiver_emits_simulated:
  assumes s: "sim ops ok contents b s n"
  shows "simulated ops ok contents b el s n Receiver_emits"
proof -
  obtain ps c where em: "emits (receiver s) = (ps, c)" by force
  obtain q where q: "ps @ packets (pkt_send_buffer c) = packets (pkt_send_buffer (receiver s))"
      "c = (receiver s)\<lparr>pkt_send_buffer := q\<rparr>" "destroy q = destroy (pkt_send_buffer (receiver s))"
    using emits_spec [OF em] by blast
  let ?s = "s\<lparr>receiver := c, wire_acks := wire_acks s @ ps\<rparr>"
  have "data_flight ?s = data_flight s" "ack_flight ?s = ack_flight s" "right_edge ops ?s = right_edge ops s"
    using q by (simp_all add: data_flight_def ack_flight_def right_edge_def)
  then have "sim ops ok contents b ?s n" "same_room ops s ?s"
    using s q(3) unfolding sim_defs same_room_def by (simp_all add: q(2) established_def)
  moreover have "conn_step ops el s Receiver_emits = Inr ?s" using em by simp
  ultimately show ?thesis using sim_written [OF s] by (intro simulated_stutter) auto
qed

lemma remove_nth_append:
  "remove_nth i (xs @ ys) = (if i < length xs then remove_nth i xs @ ys else xs @ remove_nth (i - length xs) ys)"
  by (induction i xs rule: remove_nth.induct) auto

lemma remove_nth_beyond: "length xs \<le> i \<Longrightarrow> remove_nth i xs = xs"
  by (induction i xs rule: remove_nth.induct) auto

lemma length_remove_nth: "i < length xs \<Longrightarrow> length (remove_nth i xs) < length xs"
  by (induction i xs rule: remove_nth.induct) auto

lemma map_remove_nth: "map f (remove_nth i xs) = remove_nth i (map f xs)"
  by (induction i xs rule: remove_nth.induct) auto

lemma lose_data_simulated:
  assumes s: "sim ops ok contents b s n"
  shows "simulated ops ok contents b el s n (Lose_data_pkt i)"
proof (cases "i < length (wire_data s)")
  case True
  let ?s = "s\<lparr>wire_data := remove_nth i (wire_data s)\<rparr>" and ?n = "n\<lparr>data_ch := remove_nth i (data_ch n)\<rparr>"
  have in_range: "i < length (data_ch n)" using True s by (simp add: sim_defs data_flight_def)
  have "data_flight ?s = remove_nth i (data_flight s)" "ack_flight ?s = ack_flight s"
      "right_edge ops ?s = right_edge ops s"
    using True by (simp_all add: data_flight_def ack_flight_def right_edge_def remove_nth_append)
  then have "sim ops ok contents b ?s ?n"
    using s set_remove_nth [of i "data_flight s"] unfolding sim_defs by auto
  then have "matched ops ok contents b el s n (Lose_data_pkt i) (Lose_data i) ?s"
    using in_range by (simp add: matched_def same_room_def right_edge_def drain_measure_def length_remove_nth)
  then show ?thesis using sim_written [OF s] by (intro simulated_step) auto
next
  case False
  then show ?thesis using s sim_written [OF s] by (intro simulated_stutter [where s' = s]) (auto simp: remove_nth_beyond)
qed

lemma lose_ack_simulated:
  assumes s: "sim ops ok contents b s n"
  shows "simulated ops ok contents b el s n (Lose_ack_pkt i)"
proof (cases "i < length (wire_acks s)")
  case True
  let ?s = "s\<lparr>wire_acks := remove_nth i (wire_acks s)\<rparr>" and ?n = "n\<lparr>ack_ch := remove_nth i (ack_ch n)\<rparr>"
  have in_range: "i < length (ack_ch n)" using True s by (simp add: sim_defs ack_flight_def)
  have "ack_flight ?s = remove_nth i (ack_flight s)" "data_flight ?s = data_flight s"
      "right_edge ops ?s = right_edge ops s"
    using True by (simp_all add: data_flight_def ack_flight_def right_edge_def remove_nth_append)
  then have "sim ops ok contents b ?s ?n"
    using s set_remove_nth [of i "ack_flight s"] unfolding sim_defs by (auto simp: map_remove_nth)
  then have "matched ops ok contents b el s n (Lose_ack_pkt i) (Lose_ack i) ?s"
    using in_range by (simp add: matched_def same_room_def right_edge_def drain_measure_def length_remove_nth)
  then show ?thesis using sim_written [OF s] by (intro simulated_step) auto
next
  case False
  then show ?thesis using s sim_written [OF s] by (intro simulated_stutter [where s' = s]) (auto simp: remove_nth_beyond)
qed

subsection \<open>The sender's threads\<close>

lemma sim_sender_update:
  assumes "sim ops ok contents b s n" "established c'"
    and "packets (pkt_send_buffer c') = packets (pkt_send_buffer (sender s)) @ ps" "\<forall>p \<in> set ps. no_flags p"
    and "ok (send_buffer c')" "contents (send_buffer (sender s)) = pkts_bytes qs @ contents (send_buffer c')"
    and "send_base (send_window c') = send_base (send_window (sender s))"
    and "capacity (send_window c') = capacity (send_window (sender s))"
    and "\<forall>p \<in> set qs. plain_pkt p" "unat b + seq_span (sent n) + seq_span qs \<le> right_edge ops s"
  shows "sim ops ok contents b (s\<lparr>sender := c'\<rparr>) (n\<lparr>tx := send_window c', data_ch := data_ch n @ ps, sent := sent n @ qs\<rparr>)"
  using assms unfolding sim_defs by (auto simp: data_flight_def ack_flight_def right_edge_def)

lemma sim_sender_resent:
  assumes "sim ops ok contents b s n" "established c'"
    and "packets (pkt_send_buffer c') = packets (pkt_send_buffer (sender s)) @ ps" "\<forall>p \<in> set ps. no_flags p"
    and "send_buffer c' = send_buffer (sender s)"
    and "send_base (send_window c') = send_base (send_window (sender s))"
    and "capacity (send_window c') = capacity (send_window (sender s))"
  shows "sim ops ok contents b (s\<lparr>sender := c'\<rparr>) (n\<lparr>tx := send_window c', data_ch := data_ch n @ ps\<rparr>)"
  using sim_sender_update [OF assms(1-4), of "[]"] assms by (simp add: sim_defs)

lemma sent_end:
  assumes "streams_inv b n"
  shows "unat b + seq_span (sent n) = unat (send_base (tx n)) + seq_span (window_pkts (tx n))"
proof -
  obtain acked where a: "sent n = acked @ window_pkts (tx n)" "send_base (tx n) = b + of_nat (seq_span acked)"
    using assms by (auto simp: streams_inv_def)
  have "stream b acked" using assms a(1) by (simp add: streams_inv_def stream_append)
  then show ?thesis using a by (simp add: unat_stream_end)
qed

lemma next_seq_register: "NextSeqNumberToSend (register_pkt w p) = NextSeqNumberToSend w + payload_size p"
  by (simp add: NextSeqNumberToSend_def)

lemma register_fits:
  assumes "sw_wf w" "0 < pkt_len p" "pkt_seq p = NextSeqNumberToSend w" "pkt_len p + k \<le> unat (free_space w)"
  shows "sw_wf (register_pkt w p) \<and> k \<le> unat (free_space (register_pkt w p))"
proof -
  have "0 < free_space w" using assms(2,4) by (simp add: word_gt_0 unat_gt_0 [symmetric])
  then have f: "unat (free_space w) = unat (capacity w) - unat (sw_size w)" "unat (sw_size w) \<le> unat (capacity w)"
    using free_space_eq free_space_pos by (auto simp: word_le_nat_alt)
  then have le: "unat (sw_size w) + pkt_len p + k \<le> unat (capacity w)" using assms(4) by simp
  then have sz: "unat (sw_size w + payload_size p) = unat (sw_size w) + pkt_len p"
    using uint32_less [of "capacity w"] by (intro unat_add_u32) simp
  have "sw_wf (register_pkt w p)"
    using assms le uint32_less [of "capacity w"] by (intro sw_wf_register) (auto simp: sw_wf_def)
  moreover have "k \<le> unat (free_space (register_pkt w p))"
    using le sz by (subst free_space_eq) (auto simp: word_le_nat_alt)
  ultimately show ?thesis by blast
qed

lemma net_run_sends:
  assumes "sw_wf (tx n)" "contiguous (NextSeqNumberToSend (tx n)) ps" "registered (tx n) ps w"
    and "\<forall>p \<in> set ps. pkt_normal p \<and> 0 < pkt_len p" "seq_span ps \<le> unat (free_space (tx n))"
  shows "net_run el n (map Send_data ps) = Inr (n\<lparr>tx := w, data_ch := data_ch n @ ps, sent := sent n @ ps\<rparr>)"
  using assms
proof (induction ps arbitrary: n)
  case Nil
  then show ?case by (simp add: registered_def)
next
  case (Cons p ps)
  let ?n = "n\<lparr>tx := register_pkt (tx n) p, data_ch := data_ch n @ [p], sent := sent n @ [p]\<rparr>"
  have p: "pkt_normal p" "0 < pkt_len p" "pkt_seq p = NextSeqNumberToSend (tx n)"
    "pkt_len p + seq_span ps \<le> unat (free_space (tx n))" using Cons.prems by auto
  have acc: "sw_accepts (tx n) p" using p by (simp add: sw_accepts_def word_le_nat_alt)
  have "net_step el n (Send_data p) = Inr ?n"
    using acc p(1) by (simp add: send_data_step_def SendPacket_wf [OF Cons.prems(1)] Copy_normal)
  moreover have "net_run el ?n (map Send_data ps) = Inr (?n\<lparr>tx := w, data_ch := data_ch ?n @ ps, sent := sent ?n @ ps\<rparr>)"
    using register_fits [OF Cons.prems(1) p(2-4)] Cons.prems
    by (intro Cons.IH) (auto simp: next_seq_register registered_def)
  ultimately show ?case by simp
qed

lemma send_simulated:
  assumes laws: "ring_laws ops ok contents" and s: "sim ops ok contents b s n" and inv: "net_inv b k n"
    and send: "SendBufferListener_send ops (sender s) = Inr c'"
  shows "\<exists>ps. net_run el n (map Send_data ps) =
      Inr (n\<lparr>tx := send_window c', data_ch := data_ch n @ ps, sent := sent n @ ps\<rparr>) \<and>
    list_all valid_event (map Send_data ps) \<and> length ps \<le> load (map Send_data ps) \<and>
    load (map Send_data ps) = seq_span ps \<and> seq_span (sent n) + load (map Send_data ps) \<le> length (written s) \<and>
    registered (tx n) ps (send_window c') \<and>
    seq_span ps = min (unat (free_space (tx n))) (length (contents (send_buffer (sender s)))) \<and>
    sim ops ok contents b (s\<lparr>sender := c'\<rparr>) (n\<lparr>tx := send_window c', data_ch := data_ch n @ ps, sent := sent n @ ps\<rparr>)"
proof -
  let ?c = "sender s" and ?buf = "contents (send_buffer (sender s))"
  have ok: "ok (send_buffer ?c)" and tx: "tx n = send_window ?c" using s by (simp_all add: sim_defs)
  have wf: "sw_wf (tx n)" and st: "streams_inv b n" using inv by (simp_all add: net_inv_def streams_inv_def)
  let ?m = "min (unat (free_space (send_window ?c))) (length ?buf)"
  obtain ps where seg: "segmented ok contents ?c ps ?m c'" "\<forall>p \<in> set ps. 0 < pkt_len p \<and> pkt_len p \<le> 10"
    using SendBufferListener_send_spec [OF laws ok wf [unfolded tx] refl] send by auto
  have plain: "\<forall>p \<in> set ps. plain_pkt p" and span: "seq_span ps = ?m" using seg(1) by (simp_all add: segmented_def)
  have load: "load (map Send_data ps) = seq_span ps" for ps by (induction ps) auto
  have len: "length ps \<le> seq_span ps" if "\<forall>p \<in> set ps. 0 < pkt_len p" for ps
    using that by (induction ps) (auto simp: Suc_le_eq)
  have "contiguous (send_base (tx n)) (window_pkts (tx n) @ ps)"
    using seg(1) unfolding tx segmented_def sw_wf_def by metis
  then have con: "contiguous (NextSeqNumberToSend (tx n)) ps"
    by (simp add: contiguous_append sw_wf_next [OF wf])
  have "net_run el n (map Send_data ps) = Inr (n\<lparr>tx := send_window c', data_ch := data_ch n @ ps, sent := sent n @ ps\<rparr>)"
    using seg plain span by (intro net_run_sends [OF wf con]) (auto simp: tx segmented_def plain_pkt_def)
  moreover have "unat b + seq_span (sent n) + seq_span ps \<le> right_edge ops s"
  proof (cases "free_space (send_window ?c) = 0")
    case False
    then have "unat (free_space (send_window ?c)) = unat (capacity (send_window ?c)) - unat (sw_size (send_window ?c))"
      "unat (sw_size (send_window ?c)) \<le> unat (capacity (send_window ?c))"
      using free_space_eq free_space_pos by (auto simp: word_le_nat_alt word_gt_0)
    moreover have "unat (sw_size (tx n)) = seq_span (window_pkts (tx n))" using wf by (simp add: sw_wf_def)
    moreover have "seq_span ps \<le> unat (free_space (send_window ?c))" using span by simp
    moreover have "unat (send_base (tx n)) + unat (capacity (send_window ?c)) \<le> right_edge ops s"
      using s by (simp add: tx sim_defs)
    ultimately show ?thesis using sent_end [OF st] unfolding tx by linarith
  qed (use span s in \<open>simp add: sim_defs\<close>)
  then have "sim ops ok contents b (s\<lparr>sender := c'\<rparr>) (n\<lparr>tx := send_window c', data_ch := data_ch n @ ps, sent := sent n @ ps\<rparr>)"
    using seg(1) s plain by (intro sim_sender_update)
      (auto simp: segmented_def sim_defs established_def plain_pkt_def data_pkt_def no_flags_def)
  moreover have "list_all valid_event (map Send_data ps)" using plain seg(2) by (auto simp: list_all_iff plain_pkt_def)
  moreover have "length ps \<le> load (map Send_data ps)" using load len seg(2) by simp
  moreover have "seq_span (sent n) + load (map Send_data ps) \<le> length (written s)"
    using sim_written [OF s] span load by simp
  moreover have "load (map Send_data ps) = seq_span ps" by (rule load)
  moreover have "registered (tx n) ps (send_window c')" using seg(1) by (simp add: segmented_def tx)
  moreover have "seq_span ps = min (unat (free_space (tx n))) (length ?buf)" using span by (simp add: tx)
  ultimately show ?thesis by blast
qed

lemma SendBufferListener_round_cases:
  assumes "\<not> shutdown_flag c"
  obtains (wait) "SendBufferListener_round env c = Some (Inr Blocks)"
    | (still) "SendBufferListener_round env c = Some (Inr (Returns c))"
    | (probe) "SendBufferListener_round env c = Some (Inr (Returns (timer_op Prober_timer Timer_Restart c)))"
    | (send) "SendBufferListener_round env c =
        Some (bindR (SendBufferListener_send (ring env) c) (\<lambda>c1. Inr (Returns c1)))"
proof -
  have "SendBufferListener_round env c \<in> {Some (Inr Blocks), Some (Inr (Returns c)),
      Some (Inr (Returns (timer_op Prober_timer Timer_Restart c))),
      Some (bindR (SendBufferListener_send (ring env) c) (\<lambda>c1. Inr (Returns c1)))}"
    using assms by (simp add: SendBufferListener_round_def SendBufferListener_locked_def Let_def)
  with that show thesis by blast
qed

lemma send_loop_simulated:
  assumes laws: "ring_laws ops ok contents" and s: "sim ops ok contents b s n" and inv: "net_inv b k n"
  shows "simulated ops ok contents b el s n (Send_loop started)"
proof -
  let ?c = "sender s" and ?env = "conn_env ops el started"
  have stutter: "simulated ops ok contents b el s n (Send_loop started)"
    if "conn_step ops el s (Send_loop started) = Inr (s\<lparr>sender := c\<rparr>)" "c = ?c \<or> c = timer_op Prober_timer Timer_Restart ?c" for c
  proof (rule simulated_stutter [OF that(1)])
    show "sim ops ok contents b (s\<lparr>sender := c\<rparr>) n"
      using sim_sender_resent [OF s, of c "[]"] that(2) s by (auto simp: sim_defs established_def)
  qed (use sim_written [OF s] in \<open>simp_all add: same_room_def right_edge_def\<close>)
  have run: "\<not> shutdown_flag ?c" using s by (simp add: sim_defs established_def)
  from run show ?thesis
  proof (cases rule: SendBufferListener_round_cases [where env = ?env])
    case send
    have "ok (send_buffer ?c)" "sw_wf (send_window ?c)"
      using s inv by (auto simp: sim_defs net_inv_def streams_inv_def)
    then obtain c' where c': "SendBufferListener_send ops ?c = Inr c'"
      using SendBufferListener_send_spec [OF laws _ _ refl] by blast
    obtain ps where "net_run el n (map Send_data ps) =
        Inr (n\<lparr>tx := send_window c', data_ch := data_ch n @ ps, sent := sent n @ ps\<rparr>)"
      "list_all valid_event (map Send_data ps)" "length ps \<le> load (map Send_data ps)"
      "load (map Send_data ps) = seq_span ps" "seq_span (sent n) + load (map Send_data ps) \<le> length (written s)"
      "registered (tx n) ps (send_window c')"
      "sim ops ok contents b (s\<lparr>sender := c'\<rparr>) (n\<lparr>tx := send_window c', data_ch := data_ch n @ ps, sent := sent n @ ps\<rparr>)"
      using send_simulated [OF laws s inv c'] by blast
    moreover have "conn_step ops el s (Send_loop started) = Inr (s\<lparr>sender := c'\<rparr>)" using send c' by (simp add: conn_env_def)
    moreover have "same_room ops s (s\<lparr>sender := c'\<rparr>)" by (simp add: same_room_def right_edge_def)
    moreover have "drain_measure (n\<lparr>tx := send_window c', data_ch := data_ch n @ ps, sent := sent n @ ps\<rparr>) + length ps \<le>
        drain_measure n + 5 * load (map Send_data ps)"
      using registered_fields [OF \<open>registered (tx n) ps (send_window c')\<close>] \<open>length ps \<le> load (map Send_data ps)\<close>
      by (simp add: drain_measure_def)
    ultimately show ?thesis
      unfolding simulated_def by (intro exI [of _ "s\<lparr>sender := c'\<rparr>"] exI [of _ "map Send_data ps"] exI conjI) auto
  next
    case probe
    then show ?thesis by (intro stutter [of "timer_op Prober_timer Timer_Restart ?c"]) simp_all
  qed (intro stutter [of ?c]; simp)+
qed

text \<open>The packet that is re-sent, if there is one.\<close>

definition resent :: "SendWindow \<Rightarrow> Packet list" where
  "resent w = take 1 (window_pkts w)"

lemma GetBase_spec:
  assumes "\<forall>p \<in> set (window_pkts w). pkt_normal p"
  obtains po w' where "GetBasePakcketToReSend w = Inr (po, w')" "(case po of None \<Rightarrow> [] | Some p \<Rightarrow> [p]) = resent w"
    "send_base w' = send_base w" "capacity w' = capacity w" "pkts_to_ack w' = pkts_to_ack w"
    "duplicated_acks w' = duplicated_acks w"
proof (cases "pkts_to_ack w")
  case Nil
  then show thesis using that [of None w] by (simp add: GetBasePakcketToReSend_def resent_def)
next
  case (Cons nd nds)
  with assms have "Copy (node_pkt nd) = Inr (node_pkt nd)" by (simp add: Copy_normal)
  with Cons show thesis
    using that [of "Some (node_pkt nd)" "w\<lparr>has_retransmitted_pkt := True\<rparr>"]
    by (simp add: GetBasePakcketToReSend_def resent_def)
qed

lemma resend_both:
  assumes tx: "send_window c = tx n" and plain: "\<forall>p \<in> set (window_pkts (tx n)). plain_pkt p"
  obtains w' q where "resend_base_packet c = Inr (c\<lparr>send_window := w', pkt_send_buffer := q\<rparr>)"
    "packets q = packets (pkt_send_buffer c) @ resent (tx n)" "destroy q = destroy (pkt_send_buffer c)"
    "resend_base n = Inr (n\<lparr>tx := w', data_ch := data_ch n @ resent (tx n)\<rparr>)"
    "send_base w' = send_base (tx n)" "capacity w' = capacity (tx n)" "pkts_to_ack w' = pkts_to_ack (tx n)"
    "duplicated_acks w' = duplicated_acks (tx n)"
proof -
  have "\<forall>p \<in> set (window_pkts (tx n)). pkt_normal p" using plain by (simp add: plain_pkt_def)
  then obtain po w' where g: "GetBasePakcketToReSend (tx n) = Inr (po, w')"
      "(case po of None \<Rightarrow> [] | Some p \<Rightarrow> [p]) = resent (tx n)"
      "send_base w' = send_base (tx n)" "capacity w' = capacity (tx n)" "pkts_to_ack w' = pkts_to_ack (tx n)"
      "duplicated_acks w' = duplicated_acks (tx n)"
    by (rule GetBase_spec)
  define q where "q = (pkt_send_buffer c)\<lparr>packets := packets (pkt_send_buffer c) @ resent (tx n)\<rparr>"
  have "resend_base_packet c = Inr (c\<lparr>send_window := w', pkt_send_buffer := q\<rparr>)"
    using g(1,2) tx by (cases po) (auto simp: resend_base_packet_def q_def)
  moreover have "resend_base n = Inr (n\<lparr>tx := w', data_ch := data_ch n @ resent (tx n)\<rparr>)"
    using g by (simp add: resend_base_def)
  ultimately show thesis using that g(3-6) by (simp add: q_def)
qed

lemma window_sent:
  assumes "sim ops ok contents b s n" "streams_inv b n" "p \<in> set (window_pkts (tx n))"
  shows "plain_pkt p"
  using assms by (auto simp: sim_defs streams_inv_def)

lemma resent_plain: "\<forall>p \<in> set (window_pkts w). plain_pkt p \<Longrightarrow> \<forall>p \<in> set (resent w). no_flags p"
  by (cases "window_pkts w") (auto simp: resent_def plain_pkt_def data_pkt_def no_flags_def)

lemma timer_matched:
  assumes s: "sim ops ok contents b s n" and inv: "net_inv b k n" and ne: "NumPacketsToAck (tx n) > 0"
  obtains s' where "matched ops ok contents b el s n Timer_fires Timeout s'"
proof -
  let ?c = "sender s" and ?reset = "\<lambda>c. c\<lparr>ssthresh := cwnd c div 2, cwnd := kDefaultDataPacketSize, cc_state := SLOW_START\<rparr>"
  have tx: "tx n = send_window ?c" and st: "streams_inv b n" and est: "established ?c"
    using s inv by (simp_all add: sim_defs net_inv_def)
  have plain: "\<forall>p \<in> set (window_pkts (tx n)). plain_pkt p" using window_sent [OF s st] by blast
  obtain w' q where q: "resend_base_packet ?c = Inr (?c\<lparr>send_window := w', pkt_send_buffer := q\<rparr>)"
      "packets q = packets (pkt_send_buffer ?c) @ resent (tx n)" "destroy q = destroy (pkt_send_buffer ?c)"
    and w': "resend_base n = Inr (n\<lparr>tx := w', data_ch := data_ch n @ resent (tx n)\<rparr>)"
      "send_base w' = send_base (tx n)" "capacity w' = capacity (tx n)" "duplicated_acks w' = duplicated_acks (tx n)"
    using resend_both [OF tx [symmetric] plain] by blast
  let ?c' = "?reset (?c\<lparr>send_window := w', pkt_send_buffer := q\<rparr>)"
  have "sim ops ok contents b (s\<lparr>sender := ?c'\<rparr>) (n\<lparr>tx := w', data_ch := data_ch n @ resent (tx n)\<rparr>)"
    using sim_sender_resent [OF s, of ?c' "resent (tx n)"] resent_plain [OF plain] q(2,3) w' est
    by (simp add: established_def tx)
  moreover have "conn_step ops el s Timer_fires = Inr (s\<lparr>sender := ?c'\<rparr>)"
    using q(1) ne tx by (simp add: TimeoutReTransmitter_def)
  ultimately show thesis
    using w'(1,4) ne that [of "s\<lparr>sender := ?c'\<rparr>"]
    by (simp add: matched_def same_room_def right_edge_def drain_measure_def resent_def)
qed

lemma timer_simulated:
  assumes s: "sim ops ok contents b s n" and inv: "net_inv b k n"
  shows "simulated ops ok contents b el s n Timer_fires"
proof (cases "NumPacketsToAck (tx n) > 0")
  case True
  from timer_matched [OF s inv True] obtain s' where "matched ops ok contents b el s n Timer_fires Timeout s'" .
  then show ?thesis using sim_written [OF s] by (intro simulated_step) auto
next
  case False
  let ?c = "sender s"
  let ?c' = "?c\<lparr>ssthresh := cwnd ?c div 2, cwnd := kDefaultDataPacketSize, cc_state := SLOW_START\<rparr>"
  have tx: "tx n = send_window ?c" and est: "established ?c" using s by (simp_all add: sim_defs)
  have "conn_step ops el s Timer_fires = Inr (s\<lparr>sender := ?c'\<rparr>)"
    using False tx by (simp add: TimeoutReTransmitter_def)
  moreover have "sim ops ok contents b (s\<lparr>sender := ?c'\<rparr>) n"
    using sim_sender_resent [OF s, of ?c' "[]"] est by (simp add: established_def tx [symmetric])
  moreover have "same_room ops s (s\<lparr>sender := ?c'\<rparr>)" by (simp add: same_room_def right_edge_def)
  ultimately show ?thesis using sim_written [OF s] by (intro simulated_stutter) auto
qed

lemma prober_matched:
  assumes s: "sim ops ok contents b s n" and cap: "capacity (send_window (sender s)) = 0"
  obtains p s' where "matched ops ok contents b el s n Prober_fires (Probe p) s'" "payload_size p = 0"
proof -
  let ?c = "sender s"
  let ?p = "Packet_headers (key_ip_header (tcp_key ?c))
    ((key_tcp_header (tcp_key ?c))\<lparr>seq_num := NextSeqNumberToSend (send_window ?c), ack := False\<rparr>)"
  let ?c' = "Tcp_SendPacket (Some ?p) ?c"
  have "conn_step ops el s Prober_fires = Inr (s\<lparr>sender := ?c'\<rparr>)"
    using cap by (simp add: ProbeWindowSize_def MakeDataPacket_def Packet_bytes_def InjectPayload_def Copy_normal pkt_normal_def)
  moreover have "no_flags ?p" by (simp add: no_flags_def key_tcp_header_def TcpHeader_default_def)
  then have "sim ops ok contents b (s\<lparr>sender := ?c'\<rparr>) (n\<lparr>data_ch := data_ch n @ [?p]\<rparr>)"
    using sim_sender_resent [OF s, of ?c' "[?p]"] s by (simp add: sim_defs established_def)
  ultimately have "matched ops ok contents b el s n Prober_fires (Probe ?p) (s\<lparr>sender := ?c'\<rparr>)"
    by (simp add: matched_def same_room_def right_edge_def drain_measure_def)
  then show thesis by (rule that) simp
qed

lemma prober_simulated:
  assumes s: "sim ops ok contents b s n"
  shows "simulated ops ok contents b el s n Prober_fires"
proof (cases "capacity (send_window (sender s)) = 0")
  case True
  from prober_matched [OF s True] obtain p s' where
    "matched ops ok contents b el s n Prober_fires (Probe p) s'" "payload_size p = 0" .
  then show ?thesis using sim_written [OF s] by (intro simulated_step) auto
next
  case False
  then have "conn_step ops el s Prober_fires = Inr s" by (simp add: ProbeWindowSize_def)
  then show ?thesis using s sim_written [OF s] by (intro simulated_stutter) auto
qed

subsection \<open>An acknowledgement arrives\<close>

lemma NewAckedPacket_base:
  assumes le: "send_base w \<le> an" and ack: "NewAckedPacket el m w an = Inr (re, w', m')"
  shows "send_base w' = an \<and> set (pkts_to_ack w') \<subseteq> set (pkts_to_ack w)"
  using ack by (cases rule: NewAckedPacket_cases) (use le in auto)

lemma unat_window_size: "unat (ucast (x :: uint16) :: uint32) = unat x"
proof -
  have "unat x < 65536" using unsigned_less [of x] by simp
  then show ?thesis by (simp add: unsigned_ucast_eq take_bit_nat_eq_self)
qed

lemma ack_flow_control_fields:
  assumes "established c"
    and "c' = ack_transition b (ack_flow_control p c)"
  shows "established c'" "send_window c' = set_capacity (ucast (window_size (tcp_header p))) (send_window c)"
    "pkt_send_buffer c' = pkt_send_buffer c" "send_buffer c' = send_buffer c"
  using assms
  by (simp_all add: ack_flow_control_def ack_transition_def GetNewSendWindowSize_def kEnableCongestionControl_def
      established_def Let_def)

lemma HandleACK_steps:
  assumes new: "NewAckedPacket el (max_dups n) (tx n) (ack_num (tcp_header p)) = Inr (re, w, m)"
    and tx: "tx n = send_window c" and est: "established c"
    and plain: "\<forall>p \<in> set (window_pkts w). plain_pkt p" and ch: "ack_ch n = ack_num (tcp_header p) # as"
  obtains c' ps where "HandleACK (conn_env ops el False) (max_dups n) c p = Inr (True, m, c')" "established c'"
    "send_buffer c' = send_buffer c" "packets (pkt_send_buffer c') = packets (pkt_send_buffer c) @ ps"
    "\<forall>p \<in> set ps. no_flags p" "send_base (send_window c') = send_base w"
    "capacity (send_window c') = ucast (window_size (tcp_header p))"
    "recv_ack_step el n (ucast (window_size (tcp_header p))) =
      Inr (n\<lparr>tx := send_window c', max_dups := m, ack_ch := as, data_ch := data_ch n @ ps\<rparr>)"
proof -
  let ?n = "n\<lparr>tx := w, max_dups := m, ack_ch := as\<rparr>" and ?c = "c\<lparr>send_window := w\<rparr>"
  have "\<exists>w' q ps. (if re_transmit re then resend_base_packet ?c else Inr ?c) =
        Inr (?c\<lparr>send_window := w', pkt_send_buffer := q\<rparr>) \<and>
      (if re_transmit re then resend_base ?n else Inr ?n) = Inr (?n\<lparr>tx := w', data_ch := data_ch n @ ps\<rparr>) \<and>
      packets q = packets (pkt_send_buffer c) @ ps \<and> destroy q = destroy (pkt_send_buffer c) \<and>
      (\<forall>p \<in> set ps. no_flags p) \<and> send_base w' = send_base w"
  proof (cases "re_transmit re")
    case True
    obtain w' q where "resend_base_packet ?c = Inr (?c\<lparr>send_window := w', pkt_send_buffer := q\<rparr>)"
        "packets q = packets (pkt_send_buffer ?c) @ resent w" "destroy q = destroy (pkt_send_buffer ?c)"
        "resend_base ?n = Inr (?n\<lparr>tx := w', data_ch := data_ch ?n @ resent w\<rparr>)" "send_base w' = send_base w"
      by (rule resend_both [of ?c ?n]) (use plain in simp_all)
    with True resent_plain [OF plain] show ?thesis
      by (intro exI [of _ w'] exI [of _ q] exI [of _ "resent w"]) simp
  next
    case False
    then show ?thesis
      by (intro exI [of _ w] exI [of _ "pkt_send_buffer c"] exI [of _ "[]"]) simp
  qed
  then obtain w' q ps where r: "(if re_transmit re then resend_base_packet ?c else Inr ?c) =
        Inr (?c\<lparr>send_window := w', pkt_send_buffer := q\<rparr>)"
      "(if re_transmit re then resend_base ?n else Inr ?n) = Inr (?n\<lparr>tx := w', data_ch := data_ch n @ ps\<rparr>)"
      "packets q = packets (pkt_send_buffer c) @ ps" "\<forall>p \<in> set ps. no_flags p" "send_base w' = send_base w"
      "destroy q = destroy (pkt_send_buffer c)" by blast
  let ?c1 = "?c\<lparr>send_window := w', pkt_send_buffer := q\<rparr>"
  define c2 where "c2 = ack_flow_control p ?c1"
  define c' where "c' = ack_transition (NumPacketsToAck (send_window c2) = 0) c2"
  have "established ?c1" using est r(6) by (simp add: established_def)
  note f = ack_flow_control_fields [OF this c'_def [unfolded c2_def], simplified]
  have "HandleACK (conn_env ops el False) (max_dups n) c p = Inr (True, m, c')"
    using new r(1) by (simp add: HandleACK_def conn_env_def tx [symmetric] c'_def c2_def Let_def)
  moreover have "recv_ack_step el n (ucast (window_size (tcp_header p))) =
      Inr (n\<lparr>tx := send_window c', max_dups := m, ack_ch := as, data_ch := data_ch n @ ps\<rparr>)"
    using new r(2) ch by (simp add: recv_ack_step_def f(2) Let_def)
  ultimately show thesis using that f r by simp
qed

lemma ack_arrives_matched:
  assumes s: "sim ops ok contents b s n" and inv: "net_inv b k n" and k: "k < 2147483648"
    and Cons: "wire_acks s = p # ps"
  obtains s' where "matched ops ok contents b el s n Ack_arrives (Recv_ack (ucast (window_size (tcp_header p)))) s'"
proof -
  let ?rwnd = "ucast (window_size (tcp_header p)) :: uint32"
  let ?as = "map (\<lambda>p. ack_num (tcp_header p)) (ps @ packets (pkt_send_buffer (receiver s)))"
  have tx: "tx n = send_window (sender s)" and st: "streams_inv b n" and est: "established (sender s)"
    and dl: "max_dups n = dup_limit s" and ack: "pure_ack p" "ack_edge p \<le> right_edge ops s"
    and ch: "ack_ch n = ack_num (tcp_header p) # ?as"
    using s inv Cons by (auto simp: sim_defs net_inv_def ack_flight_def)
  have le: "send_base (tx n) \<le> ack_num (tcp_header p)"
    using inv ch by (simp add: net_inv_def acks_inv_def word_le_nat_alt)
  obtain n' where n': "recv_ack_step el n ?rwnd = Inr n'" using recv_ack_step_inv [OF inv k] by blast
  then obtain re w m where new: "NewAckedPacket el (max_dups n) (tx n) (ack_num (tcp_header p)) = Inr (re, w, m)"
    by (auto simp: recv_ack_step_def ch bindR_Inr_iff)
  have w: "send_base w = ack_num (tcp_header p)" "set (pkts_to_ack w) \<subseteq> set (pkts_to_ack (tx n))"
    using NewAckedPacket_base [OF le new] by auto
  then have "set (window_pkts w) \<subseteq> set (window_pkts (tx n))" by auto
  then have plain: "\<forall>p \<in> set (window_pkts w). plain_pkt p" using window_sent [OF s st] by blast
  obtain c' qs where c': "HandleACK (conn_env ops el False) (max_dups n) (sender s) p = Inr (True, m, c')"
    "established c'" "send_buffer c' = send_buffer (sender s)"
    "packets (pkt_send_buffer c') = packets (pkt_send_buffer (sender s)) @ qs"
    "\<forall>p \<in> set qs. no_flags p" "send_base (send_window c') = send_base w" "capacity (send_window c') = ?rwnd"
    "recv_ack_step el n ?rwnd = Inr (n\<lparr>tx := send_window c', max_dups := m, ack_ch := ?as, data_ch := data_ch n @ qs\<rparr>)"
    by (rule HandleACK_steps [OF new tx est plain ch])
  have "conn_step ops el s Ack_arrives = Inr (s\<lparr>sender := c', dup_limit := m, wire_acks := ps\<rparr>)"
    using Cons c'(1) ack(1) dl by (simp add: HandleReceivedPacket_def pure_ack_def Let_def)
  moreover have "unat (send_base (send_window c')) + unat (capacity (send_window c')) \<le> right_edge ops s"
    using ack(2) w(1) c'(6,7) by (simp add: ack_edge_def unat_window_size)
  then have "sim ops ok contents b (s\<lparr>sender := c', dup_limit := m, wire_acks := ps\<rparr>)
      (n\<lparr>tx := send_window c', max_dups := m, ack_ch := ?as, data_ch := data_ch n @ qs\<rparr>)"
    using s c' Cons by (auto simp: sim_defs data_flight_def ack_flight_def right_edge_def)
  ultimately show thesis
    using c'(8) recv_ack_step_shape(1) [OF inv k ch c'(8)] that [of "s\<lparr>sender := c', dup_limit := m, wire_acks := ps\<rparr>"]
    by (simp add: matched_def same_room_def right_edge_def)
qed

lemma ack_arrives_simulated:
  assumes s: "sim ops ok contents b s n" and inv: "net_inv b k n" and k: "k < 2147483648"
  shows "simulated ops ok contents b el s n Ack_arrives"
proof (cases "wire_acks s")
  case Nil
  then show ?thesis using s sim_written [OF s] by (intro simulated_stutter [where s' = s]) auto
next
  case (Cons p ps)
  from ack_arrives_matched [OF s inv k Cons] obtain s' where
    "matched ops ok contents b el s n Ack_arrives (Recv_ack (ucast (window_size (tcp_header p)))) s'" .
  then show ?thesis using sim_written [OF s] by (intro simulated_step) auto
qed

subsection \<open>Data arrives\<close>

lemma stream_fits:
  assumes laws: "ring_laws ops ok contents" and c: "ok (recv_buffer c)" "overflow_pkts c = []"
    and ns: "\<forall>p \<in> set ns. data_pkt p" "seq_span ns \<le> unat (rb_free_space ops (recv_buffer c))"
  obtains buf where "StreamDataToReceiveBuffer ops ns c = Inr (c\<lparr>recv_buffer := buf\<rparr>)" "ok buf"
    "contents buf = contents (recv_buffer c) @ pkts_bytes ns"
    "unat (rb_free_space ops buf) = unat (rb_free_space ops (recv_buffer c)) - seq_span ns"
proof -
  have push: "PushOverflowedPacketsToSocketBuffer ops c = Inr c"
    using c(2) by (cases c) (simp add: PushOverflowedPacketsToSocketBuffer_def)
  obtain ws os buf where w: "stream_nodes ops ns c =
        Inr (c\<lparr>recv_buffer := buf, overflow_pkts := overflow_pkts c @ os\<rparr>)" "ns \<in> shuffles ws os" "ok buf"
      "contents buf = contents (recv_buffer c) @ pkts_bytes ws"
      "unat (rb_free_space ops buf) = unat (rb_free_space ops (recv_buffer c)) - seq_span ws" "os = []"
    using stream_nodes_spec [OF laws c(1) ns(1)] ns(2) by blast
  have "ws = ns" using w(2,6) by simp
  moreover have "c\<lparr>recv_buffer := buf, overflow_pkts := overflow_pkts c @ os\<rparr> = c\<lparr>recv_buffer := buf\<rparr>"
    using w(6) c(2) by (cases c) simp
  ultimately show thesis
    using that w push by (simp add: StreamDataToReceiveBuffer_def)
qed

lemma MakeAck_edge:
  "ack_edge (MakeAckPacket ops c an) \<le> unat an + unat (rb_free_space ops (recv_buffer c))"
  by (simp add: ack_edge_def unsigned_ucast_eq)

text \<open>The receiver after a run was received: its window, its buffer, and one more acknowledgement.\<close>

definition run_received ::
  "'b ring_ops \<Rightarrow> 'b TcpController \<Rightarrow> uint32 \<Rightarrow> RecvWindow \<Rightarrow> 'b \<Rightarrow> 'b TcpController" where
  "run_received ops c a w buf =
     (let c1 = c\<lparr>recv_window := w, recv_buffer := buf\<rparr> in Tcp_SendPacket (Some (MakeAckPacket ops c1 a)) c1)"

lemma run_received_matched:
  assumes s: "sim ops ok contents b s n" and wd: "wire_data s = p # ps"
    and hd: "HandleDataPacket ops (receiver s) p = Inr (True, run_received ops (receiver s) (recv_base w) w buf)"
    and step: "recv_data_step n = Inr (received n (recv_base w) run w)"
    and buf: "ok buf" "contents buf = contents (recv_buffer (receiver s)) @ pkts_bytes run"
    and edge: "unat (recv_base w) + unat (rb_free_space ops buf) = right_edge ops s"
  shows "\<exists>s' q. matched ops ok contents b el s n Data_arrives Recv_data s' \<and> ack_flight s' = ack_flight s @ [q] \<and>
    window_size (tcp_header q) = ucast (rb_free_space ops (recv_buffer (receiver s')))"
proof -
  let ?c = "run_received ops (receiver s) (recv_base w) w buf"
  let ?s = "s\<lparr>receiver := ?c, dup_limit := dup_limit s, wire_data := ps\<rparr>"
  let ?p = "MakeAckPacket ops ((receiver s)\<lparr>recv_window := w, recv_buffer := buf\<rparr>) (recv_base w)"
  have "no_flags p" using s wd by (simp add: sim_defs data_flight_def)
  then have run: "conn_step ops el s Data_arrives = Inr ?s"
    using wd hd by (simp add: HandleReceivedPacket_def no_flags_def conn_env_def Let_def)
  have fl: "ack_flight ?s = ack_flight s @ [?p]" "data_flight s = p # data_flight ?s"
      "right_edge ops ?s = right_edge ops s" "recv_buffer (receiver ?s) = buf"
    using wd edge by (simp_all add: run_received_def ack_flight_def data_flight_def right_edge_def Let_def)
  have "pure_ack ?p" by (simp add: pure_ack_def)
  moreover have "ack_edge ?p \<le> right_edge ops s"
    using MakeAck_edge [of ops "(receiver s)\<lparr>recv_window := w, recv_buffer := buf\<rparr>" "recv_base w"] edge by simp
  moreover have "sim_bytes ok contents ?s (received n (recv_base w) run w)"
    using s buf by (simp add: sim_defs run_received_def received_def Let_def)
  ultimately have "sim ops ok contents b ?s (received n (recv_base w) run w)"
    using s fl by (auto simp: sim_defs received_def run_received_def established_def Let_def)
  moreover have "data_ch n = p # data_flight ?s" using s fl(2) by (simp add: sim_defs)
  then have "drain_measure (received n (recv_base w) run w) < drain_measure n"
    using recv_data_step_shape [OF step] by (simp add: drain_measure_def)
  ultimately have "matched ops ok contents b el s n Data_arrives Recv_data ?s"
    using run step fl(3) by (simp add: matched_def same_room_def)
  moreover have "window_size (tcp_header ?p) = ucast (rb_free_space ops (recv_buffer (receiver ?s)))"
    unfolding fl(4) by (simp add: MakeAckPacket_def)
  ultimately show ?thesis using fl(1) by blast
qed

lemma data_arrives_matched:
  assumes laws: "ring_laws ops ok contents" and s: "sim ops ok contents b s n" and inv: "net_inv b k n"
    and Cons: "wire_data s = p # ps"
  shows "\<exists>s' q. matched ops ok contents b el s n Data_arrives Recv_data s' \<and> ack_flight s' = ack_flight s @ [q] \<and>
    window_size (tcp_header q) = ucast (rb_free_space ops (recv_buffer (receiver s')))"
proof -
  let ?c = "receiver s"
  have rx: "rx n = recv_window ?c" and ok: "ok (recv_buffer ?c)" and ov: "overflow_pkts ?c = []"
    and ch: "data_ch n = p # ps @ packets (pkt_send_buffer (sender s))"
    using s Cons by (simp_all add: sim_defs data_flight_def)
  show ?thesis
  proof (cases "payload_size p = 0")
    case True
    have "?c\<lparr>recv_window := recv_window ?c, recv_buffer := recv_buffer ?c\<rparr> = ?c" by simp
    then have "HandleDataPacket ops ?c p =
        Inr (True, run_received ops ?c (recv_base (recv_window ?c)) (recv_window ?c) (recv_buffer ?c))"
      using True by (simp add: HandleDataPacket_def run_received_def Let_def)
    then show ?thesis
      using True ch ok rx
      by (intro run_received_matched [OF s Cons, where run = "[]"])
         (simp_all add: recv_data_step_def received_def right_edge_def)
  next
    case False
    obtain n' where n': "recv_data_step n = Inr n'" "net_inv b (Suc k) n'" "sent n' = sent n"
      using recv_data_step_inv [OF inv] by blast
    then obtain a run w where rcv: "ReceivePacket (recv_window ?c) p = Inr (a, run, w)" "n' = received n a run w"
      using False ch by (auto simp: recv_data_step_def received_def rx bindR_Inr_iff)
    note a = ReceivePacket_ack [OF rcv(1)]
    have st: "streams_inv b n" "streams_inv b n'" using inv n'(2) by (simp_all add: net_inv_def)
    have base: "unat (recv_base w) = unat (recv_base (recv_window ?c)) + seq_span run"
      using unat_recv_base [OF st(1)] unat_recv_base [OF st(2)] by (simp add: rcv(2) received_def rx)
    have pre: "prefix (delivered n @ run) (sent n)" using st(2) by (simp add: streams_inv_def rcv(2) received_def)
    then have "seq_span (delivered n @ run) \<le> seq_span (sent n)" by (auto simp: prefix_def)
    then have fits: "seq_span run \<le> unat (rb_free_space ops (recv_buffer ?c))"
      using s unat_recv_base [OF st(1)] by (simp add: sim_flow_def sim_def right_edge_def rx)
    have "\<forall>q \<in> set run. data_pkt q" using s pre by (auto simp: sim_defs plain_pkt_def prefix_def)
    then obtain buf where buf: "StreamDataToReceiveBuffer ops run (?c\<lparr>recv_window := w\<rparr>) =
          Inr (?c\<lparr>recv_window := w, recv_buffer := buf\<rparr>)" "ok buf"
        "contents buf = contents (recv_buffer ?c) @ pkts_bytes run"
        "unat (rb_free_space ops buf) = unat (rb_free_space ops (recv_buffer ?c)) - seq_span run"
      using stream_fits [OF laws, of "?c\<lparr>recv_window := w\<rparr>" run] ok ov fits by auto
    have "HandleDataPacket ops ?c p = Inr (True, run_received ops ?c (recv_base w) w buf)"
      using False rcv(1) buf(1) a by (simp add: HandleDataPacket_def run_received_def Let_def)
    then show ?thesis
      using n'(1) rcv(2) a buf base fits
      by (intro run_received_matched [OF s Cons, where run = run and w = w and buf = buf]) (simp_all add: right_edge_def)
  qed
qed

lemma data_arrives_simulated:
  assumes laws: "ring_laws ops ok contents" and s: "sim ops ok contents b s n" and inv: "net_inv b k n"
  shows "simulated ops ok contents b el s n Data_arrives"
proof (cases "wire_data s")
  case Nil
  then show ?thesis using s sim_written [OF s] by (intro simulated_stutter [where s' = s]) auto
next
  case (Cons p ps)
  from data_arrives_matched [OF laws s inv Cons] obtain s' where
    "matched ops ok contents b el s n Data_arrives Recv_data s'" by blast
  then show ?thesis using sim_written [OF s] by (intro simulated_step) auto
qed

lemma receive_loop_simulated:
  assumes s: "sim ops ok contents b s n"
  shows "simulated ops ok contents b el s n Receive_loop"
proof -
  let ?c = "receiver s"
  have "overflow_pkts ?c = []" "\<not> shutdown_flag ?c" using s by (simp_all add: sim_defs established_def)
  then have "running_round ?c (ReceiveBufferListener_round ops ?c) = Inr ?c"
    by (cases ?c) (simp add: ReceiveBufferListener_round_def PushOverflowedPacketsToSocketBuffer_def)
  then have "conn_step ops el s Receive_loop = Inr s" by simp
  then show ?thesis using s sim_written [OF s] by (intro simulated_stutter) auto
qed

section \<open>Runs\<close>

fun event_ok :: "conn_event \<Rightarrow> bool" where
  "event_ok (App_write bs) = (length bs < 2147483648)"
| "event_ok (App_read k) = (k < 2147483648)"
| "event_ok _ = True"

fun offered :: "conn_event list \<Rightarrow> nat" where
  "offered [] = 0"
| "offered (App_write bs # es) = length bs + offered es"
| "offered (e # es) = offered es"

lemma conn_step_simulated:
  assumes "ring_laws ops ok contents" "sim ops ok contents b s n" "net_inv b k n" "k < 2147483648" "event_ok e"
  shows "simulated ops ok contents b el s n e"
  using assms
  by (cases e) (simp_all add: app_write_simulated app_read_simulated send_loop_simulated timer_simulated
      prober_simulated sender_emits_simulated receiver_emits_simulated lose_data_simulated lose_ack_simulated
      data_arrives_simulated ack_arrives_simulated receive_loop_simulated)

lemma offered_Cons: "offered (e # es) = offered [e] + offered es"
  by (cases e) auto

lemma conn_step_written:
  assumes "conn_step ops el s e = Inr s'"
  shows "length (written s') \<le> length (written s) + offered [e]"
  using assms
  by (cases e) (auto simp: bindR_Inr_iff Let_def case_prod_beta split: list.splits)

lemma conn_run_written:
  "conn_run ops el s es = Inr s' \<Longrightarrow> length (written s') \<le> length (written s) + offered es"
proof (induction es arbitrary: s)
  case (Cons e es)
  then obtain s1 where s1: "conn_step ops el s e = Inr s1" "conn_run ops el s1 es = Inr s'" by (auto simp: bindR_Inr_iff)
  then show ?case using Cons.IH [OF s1(2)] conn_step_written [OF s1(1)] offered_Cons [of e es] by linarith
qed simp

lemma conn_run_simulated:
  assumes "ring_laws ops ok contents" "sim ops ok contents b s n" "net_inv b k n" "list_all event_ok es"
    and "unat b + length (written s) + offered es < 4294967296"
    and "k + length es + length (written s) + offered es \<le> 2147483648 + seq_span (sent n)"
  shows "\<exists>s' fs n' k'. conn_run ops el s es = Inr s' \<and> net_run el n fs = Inr n' \<and> list_all valid_event fs \<and>
    sim ops ok contents b s' n' \<and> net_inv b k' n' \<and> same_room ops s s' \<and>
    k' + seq_span (sent n) \<le> k + length es + seq_span (sent n')"
  using assms
proof (induction es arbitrary: s n k)
  case Nil
  then show ?case by (intro exI [of _ s] exI [of _ "[]"]) auto
next
  case (Cons e es)
  have le: "seq_span (sent n) \<le> length (written s)" using sim_written [OF Cons.prems(2)] by simp
  then have "simulated ops ok contents b el s n e"
    using Cons.prems by (intro conn_step_simulated [of _ _ _ _ _ _ k]) auto
  then obtain s1 fs n1 where s1: "conn_step ops el s e = Inr s1" "net_run el n fs = Inr n1" "list_all valid_event fs"
      "length fs \<le> 1 + load fs" "seq_span (sent n) + load fs \<le> length (written s)"
      "seq_span (sent n1) = seq_span (sent n) + load fs" "sim ops ok contents b s1 n1" "same_room ops s s1"
    by (auto simp: simulated_def)
  note wr = conn_step_written [OF s1(1)] and off = offered_Cons [of e es]
  have "unat b + seq_span (sent n) + load fs < 4294967296" "k + length fs \<le> 2147483648"
    using Cons.prems(5,6) s1(4,5) off by auto
  then have "net_inv b (k + length fs) n1"
    using net_run_inv [OF Cons.prems(3) s1(3), of el] s1(2) by auto
  then have "\<exists>s' gs n' k'. conn_run ops el s1 es = Inr s' \<and> net_run el n1 gs = Inr n' \<and> list_all valid_event gs \<and>
      sim ops ok contents b s' n' \<and> net_inv b k' n' \<and> same_room ops s1 s' \<and>
      k' + seq_span (sent n1) \<le> k + length fs + length es + seq_span (sent n')"
    using Cons.prems s1(4,6) wr off by (intro Cons.IH [OF Cons.prems(1) s1(7)]) auto
  then obtain s' gs n' k' where "conn_run ops el s1 es = Inr s'" "net_run el n1 gs = Inr n'" "list_all valid_event gs"
    "sim ops ok contents b s' n'" "net_inv b k' n'" "same_room ops s1 s'"
    "k' + seq_span (sent n1) \<le> k + length fs + length es + seq_span (sent n')" by blast
  with s1 show ?case
    by (intro exI [of _ s'] exI [of _ "fs @ gs"] exI [of _ n'] exI [of _ k'])
       (simp add: net_run_append same_room_def)
qed

text \<open>
  The work done and the work in flight: receiving what is in flight, or losing it, never
  increases the sum of the steps of the windows and the measure of the channels. A run is
  therefore bounded by its timers and its bytes, however many packets arrive in it.
\<close>

definition effort :: "nat \<Rightarrow> net \<Rightarrow> nat" where
  "effort k n = k + drain_measure n"

definition charges :: "conn_event list \<Rightarrow> nat" where
  "charges es = sum_list (map charge es)"

lemma charges_simps [simp]:
  "charges [] = 0" "charges (e # es) = charge e + charges es" "charges (es @ fs) = charges es + charges fs"
  by (simp_all add: charges_def)

lemma conn_step_effort:
  assumes "ring_laws ops ok contents" "sim ops ok contents b s n" "net_inv b k n" "event_ok e"
    and "unat b + length (written s) < 4294967296"
    and "effort k n + 5 * charge e + 5 * length (written s) < 2147483648 + 5 * seq_span (sent n)"
  obtains s' n' k' where "conn_step ops el s e = Inr s'" "sim ops ok contents b s' n'" "net_inv b k' n'" "same_room ops s s'"
    "effort k' n' + 5 * seq_span (sent n) \<le> effort k n + 5 * charge e + 5 * seq_span (sent n')"
proof -
  have le: "seq_span (sent n) \<le> length (written s)" using sim_written [OF assms(2)] by simp
  have "k < 2147483648" using assms(6) le by (simp add: effort_def)
  then obtain s' fs n' where s': "conn_step ops el s e = Inr s'" "net_run el n fs = Inr n'" "list_all valid_event fs"
      "seq_span (sent n) + load fs \<le> length (written s)"
      "seq_span (sent n') = seq_span (sent n) + load fs" "sim ops ok contents b s' n'" "same_room ops s s'"
      "drain_measure n' + length fs \<le> drain_measure n + 5 * charge e + 5 * load fs"
    using conn_step_simulated [OF assms(1-3) _ assms(4), of el] by (auto simp: simulated_def)
  have "unat b + seq_span (sent n) + load fs < 4294967296" "k + length fs \<le> 2147483648"
    using assms(5,6) s'(4,8) by (simp_all add: effort_def)
  then have "net_inv b (k + length fs) n'"
    using net_run_inv [OF assms(3) s'(3), of el] s'(2) by auto
  then show thesis using that [of s' n' "k + length fs"] s' by (simp add: effort_def)
qed

lemma conn_run_effort:
  assumes "ring_laws ops ok contents" "sim ops ok contents b s n" "net_inv b k n" "list_all event_ok es"
    and "unat b + length (written s) + offered es < 4294967296"
    and "effort k n + 5 * charges es + 5 * (length (written s) + offered es) < 2147483648 + 5 * seq_span (sent n)"
  shows "\<exists>s' n' k'. conn_run ops el s es = Inr s' \<and> sim ops ok contents b s' n' \<and> net_inv b k' n' \<and>
    same_room ops s s' \<and> effort k' n' + 5 * seq_span (sent n) \<le> effort k n + 5 * charges es + 5 * seq_span (sent n')"
  using assms
proof (induction es arbitrary: s n k)
  case Nil
  then show ?case by (intro exI [of _ s] exI [of _ n] exI [of _ k]) simp
next
  case (Cons e es)
  note off = offered_Cons [of e es]
  have "event_ok e" "unat b + length (written s) < 4294967296"
      "effort k n + 5 * charge e + 5 * length (written s) < 2147483648 + 5 * seq_span (sent n)"
    using Cons.prems(4-6) off by simp_all
  from conn_step_effort [OF Cons.prems(1-3) this] obtain s1 n1 k1 where
    s1: "conn_step ops el s e = Inr s1" "sim ops ok contents b s1 n1" "net_inv b k1 n1" "same_room ops s s1"
      "effort k1 n1 + 5 * seq_span (sent n) \<le> effort k n + 5 * charge e + 5 * seq_span (sent n1)" by blast
  note wr = conn_step_written [OF s1(1)]
  have "\<exists>s' n' k'. conn_run ops el s1 es = Inr s' \<and> sim ops ok contents b s' n' \<and> net_inv b k' n' \<and> same_room ops s1 s' \<and>
      effort k' n' + 5 * seq_span (sent n1) \<le> effort k1 n1 + 5 * charges es + 5 * seq_span (sent n')"
  proof (rule Cons.IH [OF Cons.prems(1) s1(2,3)])
    show "unat b + length (written s1) + offered es < 4294967296" using Cons.prems(5) wr off by linarith
    show "effort k1 n1 + 5 * charges es + 5 * (length (written s1) + offered es) < 2147483648 + 5 * seq_span (sent n1)"
      using Cons.prems(6) s1(5) wr unfolding off charges_simps by (simp add: distrib_left)
  qed (use Cons.prems(4) in simp)
  then obtain s' n' k' where "conn_run ops el s1 es = Inr s'" "sim ops ok contents b s' n'" "net_inv b k' n'" "same_room ops s1 s'"
    "effort k' n' + 5 * seq_span (sent n1) \<le> effort k1 n1 + 5 * charges es + 5 * seq_span (sent n')" by blast
  with s1 show ?case
    by (intro exI [of _ s'] exI [of _ n'] exI [of _ k']) (simp add: same_room_def)
qed

section \<open>A connection that is ready\<close>

definition conn_start :: "'b TcpController \<Rightarrow> 'b TcpController \<Rightarrow> 'b conn" where
  "conn_start c d = \<lparr>sender = c, receiver = d, wire_data = [], wire_acks = [],
     dup_limit = kMaxDuplicatedAcksOrigin, written = [], got = []\<rparr>"

definition net_start :: "'b TcpController \<Rightarrow> 'b TcpController \<Rightarrow> net" where
  "net_start c d = \<lparr>tx = send_window c, max_dups = kMaxDuplicatedAcksOrigin, rx = recv_window d,
     data_ch = [], ack_ch = [], sent = [], delivered = []\<rparr>"

lemma ready_inv:
  assumes "ready_sender ok contents b c" "ready_receiver ok contents b d"
  shows "net_inv b 0 (net_start c d)"
  using assms by (simp add: net_start_def net_inv_defs pending_def ready_sender_def ready_receiver_def
      kMaxDuplicatedAcksOrigin_def sw_wf_def)

lemma ready_sim:
  assumes "ready_sender ok contents b c" "ready_receiver ok contents b d"
    and "unat (capacity (send_window c)) \<le> unat (rb_free_space ops (recv_buffer d))"
  shows "sim ops ok contents b (conn_start c d) (net_start c d)"
  using assms by (simp add: sim_defs conn_start_def net_start_def ready_sender_def ready_receiver_def
      data_flight_def ack_flight_def right_edge_def)

section \<open>Properties\<close>

text \<open>What the simulation says about the bytes.\<close>

lemma sim_delivered:
  assumes sim: "sim ops ok contents b s n" and inv: "net_inv b k n"
  shows "\<exists>flight. prefix (got s) (written s) \<and>
    written s = got s @ contents (recv_buffer (receiver s)) @ pkts_bytes flight @ contents (send_buffer (sender s)) \<and>
    suffix flight (window_pkts (send_window (sender s))) \<and>
    overflow_pkts (receiver s) = [] \<and> established (sender s) \<and> established (receiver s)"
proof -
  obtain acked where st: "sent n = acked @ window_pkts (tx n)" "prefix acked (delivered n)"
      "prefix (delivered n) (sent n)"
    using inv by (auto simp: net_inv_def streams_inv_def)
  from st obtain flight where f: "sent n = delivered n @ flight" "suffix flight (window_pkts (tx n))"
    by (auto simp: prefix_def suffix_def)
  have "written s = (got s @ contents (recv_buffer (receiver s))) @ pkts_bytes flight @ contents (send_buffer (sender s))"
    using sim f(1) by (simp add: sim_def sim_bytes_def)
  then show ?thesis
    using sim f(2) by (intro exI [of _ flight]) (simp add: sim_def sim_pkts_def sim_bytes_def sim_net_def)
qed

lemma conn_run_from_start:
  assumes "ring_laws ops ok contents" "ready_sender ok contents b c" "ready_receiver ok contents b d"
    and "unat (capacity (send_window c)) \<le> unat (rb_free_space ops (recv_buffer d))"
    and "list_all event_ok es" "unat b + offered es < 4294967296" "length es + offered es \<le> 2147483648"
  obtains s fs n k where "conn_run ops el (conn_start c d) es = Inr s" "net_run el (net_start c d) fs = Inr n"
    "list_all valid_event fs" "sim ops ok contents b s n" "net_inv b k n"
    "same_room ops (conn_start c d) s" "k \<le> length es + seq_span (sent n)"
proof -
  have "written (conn_start c d) = []" "sent (net_start c d) = []" by (simp_all add: conn_start_def net_start_def)
  then show thesis
    using conn_run_simulated [OF assms(1) ready_sim [OF assms(2-4)] ready_inv [OF assms(2,3)] assms(5), of el] assms(6,7) that
    by auto
qed

text \<open>
  C2. End to end. Two established controllers with an empty connection between them, any
  sequence of writes, reads, rounds of the send and receive threads, timers, transmissions,
  losses and receptions (fewer than \<open>2^31\<close> events and bytes, within the sequence space left):
  no check in any handler fails, the bytes the reader got are a prefix of those the writer's
  calls accepted, and each byte written is read, or stored at one end, or in a packet that
  the send window still holds. Flow control keeps the receiver's overflow queue empty.
\<close>

theorem connection_delivers_what_was_written:
  assumes laws: "ring_laws ops ok contents"
    and ready: "ready_sender ok contents b c" "ready_receiver ok contents b d"
      "unat (capacity (send_window c)) \<le> unat (rb_free_space ops (recv_buffer d))"
    and es: "list_all event_ok es" "unat b + offered es < 4294967296" "length es + offered es \<le> 2147483648"
  shows "\<exists>s flight. conn_run ops el (conn_start c d) es = Inr s \<and> prefix (got s) (written s) \<and>
    written s = got s @ contents (recv_buffer (receiver s)) @ pkts_bytes flight @ contents (send_buffer (sender s)) \<and>
    suffix flight (window_pkts (send_window (sender s))) \<and>
    overflow_pkts (receiver s) = [] \<and> established (sender s) \<and> established (receiver s)"
proof -
  obtain s fs n k where run: "conn_run ops el (conn_start c d) es = Inr s"
    and sim: "sim ops ok contents b s n" and inv: "net_inv b k n"
    using conn_run_from_start [OF assms] by blast
  from sim_delivered [OF sim inv] run show ?thesis by blast
qed

text \<open>
  C6. Refinement. Each such run of the two controllers is a run of the system of two windows
  and two channels: the same windows, the same threshold for duplicates, and in the channels
  exactly the packets and acknowledgement numbers in the send queues and on the path.
\<close>

theorem connection_refines_windows:
  assumes laws: "ring_laws ops ok contents"
    and ready: "ready_sender ok contents b c" "ready_receiver ok contents b d"
      "unat (capacity (send_window c)) \<le> unat (rb_free_space ops (recv_buffer d))"
    and es: "list_all event_ok es" "unat b + offered es < 4294967296" "length es + offered es \<le> 2147483648"
  shows "\<exists>s fs n. conn_run ops el (conn_start c d) es = Inr s \<and> list_all valid_event fs \<and>
    net_run el (net_start c d) fs = Inr n \<and> tx n = send_window (sender s) \<and> rx n = recv_window (receiver s) \<and>
    max_dups n = dup_limit s \<and> data_ch n = wire_data s @ packets (pkt_send_buffer (sender s)) \<and>
    ack_ch n = map (\<lambda>p. ack_num (tcp_header p)) (wire_acks s @ packets (pkt_send_buffer (receiver s))) \<and>
    pkts_bytes (delivered n) = got s @ contents (recv_buffer (receiver s))"
proof -
  obtain s fs n k where "conn_run ops el (conn_start c d) es = Inr s" "net_run el (net_start c d) fs = Inr n"
    "list_all valid_event fs" "sim ops ok contents b s n"
    using conn_run_from_start [OF assms] by blast
  then show ?thesis
    by (intro exI [of _ s] exI [of _ fs] exI [of _ n])
       (simp add: sim_def sim_net_def sim_bytes_def data_flight_def ack_flight_def)
qed

text \<open>A short transfer between two idle controllers: one packet, of which two bytes are read.\<close>

definition example_peer :: "list_buffer TcpController" where
  "example_peer = idle_peer (TcpControllerKey_new ''s'' 80 ''c'' 7)"

definition example_conn_events :: "conn_event list" where
  "example_conn_events = [App_write [1, 2, 3], Send_loop False, Sender_emits, Data_arrives, App_read 2]"

lemma example_ready:
  "ready_sender list_ring_inv snd 0 example_peer" "ready_receiver list_ring_inv snd 0 example_peer"
  "unat (capacity (send_window example_peer)) \<le> unat (rb_free_space list_ring (recv_buffer example_peer))"
  by (simp_all add: ready_sender_def ready_receiver_def example_peer_def idle_peer_def established_def
      list_ring_def list_ring_inv_def SendWindow_new_def)

lemma example_conn_events_ok:
  "list_all event_ok example_conn_events" "offered example_conn_events = 3" "length example_conn_events = 5"
  by (simp_all add: example_conn_events_def)

theorem connection_delivers_what_was_written_witness:
  "\<exists>s flight. conn_run list_ring (\<lambda>_. 0) (conn_start example_peer example_peer) example_conn_events = Inr s \<and>
    prefix (got s) (written s) \<and>
    written s = got s @ snd (recv_buffer (receiver s)) @ pkts_bytes flight @ snd (send_buffer (sender s)) \<and>
    suffix flight (window_pkts (send_window (sender s))) \<and>
    overflow_pkts (receiver s) = [] \<and> established (sender s) \<and> established (receiver s)"
  by (rule connection_delivers_what_was_written [OF list_ring_laws example_ready])
     (simp_all add: example_conn_events_ok)

theorem connection_refines_windows_witness:
  "\<exists>s fs n. conn_run list_ring (\<lambda>_. 0) (conn_start example_peer example_peer) example_conn_events = Inr s \<and>
    list_all valid_event fs \<and> net_run (\<lambda>_. 0) (net_start example_peer example_peer) fs = Inr n \<and>
    tx n = send_window (sender s) \<and> rx n = recv_window (receiver s)"
  using connection_refines_windows [OF list_ring_laws example_ready, of example_conn_events "\<lambda>_. 0"]
    example_conn_events_ok by force

end
