(* ===== verification/Connection_Progress.thy ===== *)
theory Connection_Progress
  imports Connection
begin

text \<open>
  Progress of the connection of two whole controllers: from every state that a run reaches,
  the threads, the timers, a path that loses nothing and a reader are able to bring every
  byte that was written to the reader. Each stage (drain the path, re-send what is not
  acknowledged, read, probe a closed window, send) is a lemma; the stages are composed by
  transitivity, under one bound on the steps of the windows.
\<close>

section \<open>States a run reaches\<close>

text \<open>
  What a run of the connection is made with: the buffers, the first sequence number, the
  clock of the send window and the size of the receiver's buffer.
\<close>

record 'b link =
  l_ops :: "'b ring_ops"
  l_ok :: "'b \<Rightarrow> bool"
  l_contents :: "'b \<Rightarrow> byte list"
  l_base :: uint32
  l_clock :: "SendWindowNode \<Rightarrow> nanoseconds"
  l_room :: nat

definition l_laws :: "'b link \<Rightarrow> bool" where
  "l_laws L \<longleftrightarrow> ring_laws (l_ops L) (l_ok L) (l_contents L) \<and> 0 < l_room L \<and> l_room L < 65536"

definition reached :: "'b link \<Rightarrow> nat \<Rightarrow> 'b conn \<Rightarrow> net \<Rightarrow> bool" where
  "reached L k s n \<longleftrightarrow> sim (l_ops L) (l_ok L) (l_contents L) (l_base L) s n \<and> net_inv (l_base L) k n \<and>
     right_edge (l_ops L) s = unat (l_base L) + length (got s) + l_room L"

abbreviation l_run :: "'b link \<Rightarrow> 'b conn \<Rightarrow> conn_event list \<Rightarrow> 'b conn checked" where
  "l_run L \<equiv> conn_run (l_ops L) (l_clock L)"

abbreviation l_step :: "'b link \<Rightarrow> 'b conn \<Rightarrow> conn_event \<Rightarrow> 'b conn checked" where
  "l_step L \<equiv> conn_step (l_ops L) (l_clock L)"

abbreviation l_matched :: "'b link \<Rightarrow> 'b conn \<Rightarrow> net \<Rightarrow> conn_event \<Rightarrow> net_event \<Rightarrow> 'b conn \<Rightarrow> bool" where
  "l_matched L s n \<equiv> matched (l_ops L) (l_ok L) (l_contents L) (l_base L) (l_clock L) s n"

text \<open>The events of a continuation: nothing is written, nothing is lost.\<close>

fun helpful :: "conn_event \<Rightarrow> bool" where
  "helpful (App_write bs) = False"
| "helpful (Lose_data_pkt i) = False"
| "helpful (Lose_ack_pkt i) = False"
| "helpful e = event_ok e"

lemma conn_run_append:
  "conn_run ops el s (es @ fs) = bindR (conn_run ops el s es) (\<lambda>s'. conn_run ops el s' fs)"
  by (induction es arbitrary: s) (auto simp: bindR_def split: sum.splits)

lemma conn_step_frame:
  assumes "conn_step ops el s e = Inr s'"
  shows "(case e of App_write bs \<Rightarrow> True | _ \<Rightarrow> written s' = written s)"
    "(case e of App_read k \<Rightarrow> True | _ \<Rightarrow> got s' = got s)"
  using assms
  by (cases e; auto simp: bindR_Inr_iff Let_def case_prod_beta split: list.splits)+

definition can_reach ::
  "'b link \<Rightarrow> nat \<Rightarrow> 'b conn \<Rightarrow> ('b conn \<Rightarrow> net \<Rightarrow> bool) \<Rightarrow> bool" where
  "can_reach L m s P \<longleftrightarrow> (\<exists>es s' n' k'. l_run L s es = Inr s' \<and> list_all helpful es \<and> reached L k' s' n' \<and>
     written s' = written s \<and> effort k' n' \<le> m \<and> P s' n')"

lemma can_reach_refl:
  "reached L k s n \<Longrightarrow> effort k n \<le> m \<Longrightarrow> P s n \<Longrightarrow> can_reach L m s P"
  unfolding can_reach_def by (intro exI [of _ "[]"] exI [of _ s] exI [of _ n] exI [of _ k]) simp

lemma can_reach_run:
  assumes "l_run L s es = Inr s'" "list_all helpful es" "written s' = written s" "can_reach L m s' P"
  shows "can_reach L m s P"
proof -
  obtain fs s'' n'' k'' where "l_run L s' fs = Inr s''" "list_all helpful fs" "reached L k'' s'' n''"
    "written s'' = written s'" "effort k'' n'' \<le> m" "P s'' n''"
    using assms(4) by (auto simp: can_reach_def)
  with assms(1-3) show ?thesis
    unfolding can_reach_def
    by (intro exI [of _ "es @ fs"] exI [of _ s''] exI [of _ n''] exI [of _ k'']) (simp add: conn_run_append)
qed

lemma can_reach_trans:
  assumes "can_reach L m s P"
    and "\<And>k' s' n'. reached L k' s' n' \<Longrightarrow> effort k' n' \<le> m \<Longrightarrow> P s' n' \<Longrightarrow> written s' = written s \<Longrightarrow>
      can_reach L m' s' Q"
  shows "can_reach L m' s Q"
proof -
  obtain es s' n' k' where es: "l_run L s es = Inr s'" "list_all helpful es" "reached L k' s' n'"
    "written s' = written s" "effort k' n' \<le> m" "P s' n'"
    using assms(1) by (auto simp: can_reach_def)
  then show ?thesis by (intro can_reach_run [OF es(1,2,4) assms(2) [OF es(3,5,6,4)]])
qed

lemma can_reach_mono:
  assumes "can_reach L m s P" "m \<le> m'" "\<And>s' n'. P s' n' \<Longrightarrow> Q s' n'"
  shows "can_reach L m' s Q"
  by (rule can_reach_trans [OF assms(1)]) (use assms(2,3) in \<open>auto intro!: can_reach_refl\<close>)

lemma reached_step:
  assumes "reached L k s n" "l_matched L s n e f s'" "k < 2147483648" "valid_event f" "load [f] = 0"
    and "\<forall>bs. e \<noteq> App_write bs" "\<forall>i. e \<noteq> App_read i"
  obtains n' where "net_step (l_clock L) n f = Inr n'" "reached L (Suc k) s' n'" "written s' = written s" "got s' = got s"
proof -
  obtain n' where n': "net_step (l_clock L) n f = Inr n'" "sim (l_ops L) (l_ok L) (l_contents L) (l_base L) s' n'"
      "l_step L s e = Inr s'" "same_room (l_ops L) s s'"
    using assms(2) by (auto simp: matched_def)
  have "unat (l_base L) + seq_span (sent n) + load [f] < 4294967296"
    using assms(1,5) by (simp add: reached_def net_inv_def streams_inv_def stream_def)
  then have "net_inv (l_base L) (Suc k) n'"
    using net_step_inv [of "l_base L" k n f "l_clock L"] assms n'(1) by (auto simp: reached_def)
  moreover have "written s' = written s" "got s' = got s"
    using conn_step_frame [OF n'(3)] assms(6,7) by (cases e; simp)+
  ultimately show thesis using that n' assms(1) by (simp add: reached_def same_room_def)
qed

section \<open>What is in flight arrives\<close>

definition flush :: "conn_event list" where
  "flush = [Sender_emits, Receiver_emits]"

lemma emitted:
  assumes "established c"
  obtains q where "emits c = (packets (pkt_send_buffer c), c\<lparr>pkt_send_buffer := q\<rparr>)" "packets q = []"
    "destroy q = destroy (pkt_send_buffer c)"
proof -
  have "\<not> shutdown_flag c" "\<not> destroy (pkt_send_buffer c)" using assms by (simp_all add: established_def)
  from emits_all [OF this] obtain c' where c': "emits c = (packets (pkt_send_buffer c), c')"
    "packets (pkt_send_buffer c') = []" by blast
  with emits_spec [OF c'(1)] that show thesis by force
qed

lemma reached_flush:
  assumes r: "reached L k s n"
  obtains s' where "l_run L s flush = Inr s'" "reached L k s' n" "written s' = written s" "got s' = got s"
    "wire_data s' = data_flight s" "wire_acks s' = ack_flight s" "data_flight s' = data_flight s" "ack_flight s' = ack_flight s"
    "recv_buffer (receiver s') = recv_buffer (receiver s)"
proof -
  have est: "established (sender s)" "established (receiver s)" using r by (simp_all add: reached_def sim_defs)
  obtain p where p: "emits (sender s) = (packets (pkt_send_buffer (sender s)), (sender s)\<lparr>pkt_send_buffer := p\<rparr>)"
    "packets p = []" "destroy p = destroy (pkt_send_buffer (sender s))" by (rule emitted [OF est(1)])
  obtain q where q: "emits (receiver s) = (packets (pkt_send_buffer (receiver s)), (receiver s)\<lparr>pkt_send_buffer := q\<rparr>)"
    "packets q = []" "destroy q = destroy (pkt_send_buffer (receiver s))" by (rule emitted [OF est(2)])
  let ?s = "s\<lparr>sender := (sender s)\<lparr>pkt_send_buffer := p\<rparr>, wire_data := data_flight s,
    receiver := (receiver s)\<lparr>pkt_send_buffer := q\<rparr>, wire_acks := ack_flight s\<rparr>"
  have fl: "data_flight ?s = data_flight s" "ack_flight ?s = ack_flight s" "right_edge (l_ops L) ?s = right_edge (l_ops L) s"
    using p q by (simp_all add: data_flight_def [of ?s] ack_flight_def [of ?s] right_edge_def)
  have "l_run L s flush = Inr ?s" using p q by (simp add: flush_def data_flight_def ack_flight_def)
  moreover have "sim (l_ops L) (l_ok L) (l_contents L) (l_base L) ?s n"
    using r [unfolded reached_def, THEN conjunct1] fl p(3) q(3) unfolding sim_defs by (simp add: established_def)
  then have "reached L k ?s n" using r fl(3) by (simp add: reached_def)
  ultimately show thesis using that [of ?s] fl by simp
qed

lemma helpful_flush [simp]: "list_all helpful flush"
  by (simp add: flush_def)

lemma data_step:
  assumes laws: "l_laws L" and r: "reached L k s n" and k: "k < 2147483648" and ne: "data_ch n \<noteq> []"
  obtains s' n' q where "l_run L s (flush @ [Data_arrives]) = Inr s'" "recv_data_step n = Inr n'"
    "reached L (Suc k) s' n'" "written s' = written s" "got s' = got s" "ack_flight s' = ack_flight s @ [q]"
    "window_size (tcp_header q) = ucast (rb_free_space (l_ops L) (recv_buffer (receiver s')))"
proof -
  obtain s1 where s1: "l_run L s flush = Inr s1" "reached L k s1 n" "written s1 = written s" "got s1 = got s"
    "wire_data s1 = data_flight s" "ack_flight s1 = ack_flight s" by (rule reached_flush [OF r])
  have "wire_data s1 \<noteq> []" using r ne s1(5) by (simp add: reached_def sim_defs)
  then obtain p ps where p: "wire_data s1 = p # ps" by (cases "wire_data s1") auto
  obtain s' q where s': "l_matched L s1 n Data_arrives Recv_data s'" "ack_flight s' = ack_flight s1 @ [q]"
      "window_size (tcp_header q) = ucast (rb_free_space (l_ops L) (recv_buffer (receiver s')))"
    using data_arrives_matched [OF _ _ _ p, of "l_ops L" "l_ok L" "l_contents L" "l_base L" n k "l_clock L"] laws s1(2)
    by (auto simp: l_laws_def reached_def)
  obtain n' where n': "net_step (l_clock L) n Recv_data = Inr n'" "reached L (Suc k) s' n'" "written s' = written s1" "got s' = got s1"
    by (rule reached_step [OF s1(2) s'(1) k]) auto
  moreover have "l_run L s (flush @ [Data_arrives]) = Inr s'"
    using s1(1) s'(1) by (simp add: conn_run_append matched_def)
  ultimately show thesis using that [of s' n' q] n'(1) s1 s' by simp
qed

lemma ack_step:
  assumes r: "reached L k s n" and k: "k < 2147483648" and ne: "ack_flight s = q # qs"
  obtains s' n' where "l_run L s (flush @ [Ack_arrives]) = Inr s'"
    "recv_ack_step (l_clock L) n (ucast (window_size (tcp_header q))) = Inr n'"
    "reached L (Suc k) s' n'" "written s' = written s" "got s' = got s"
proof -
  obtain s1 where s1: "l_run L s flush = Inr s1" "reached L k s1 n" "written s1 = written s" "got s1 = got s"
    "wire_acks s1 = ack_flight s" by (rule reached_flush [OF r])
  obtain s' where s': "l_matched L s1 n Ack_arrives (Recv_ack (ucast (window_size (tcp_header q)))) s'"
    by (rule ack_arrives_matched [where s = s1 and p = q and ps = qs and n = n and k = k and b = "l_base L" and ops = "l_ops L"
        and ok = "l_ok L" and contents = "l_contents L" and el = "l_clock L"]) (use s1 ne k in \<open>auto simp: reached_def\<close>)
  obtain n' where n': "net_step (l_clock L) n (Recv_ack (ucast (window_size (tcp_header q)))) = Inr n'"
      "reached L (Suc k) s' n'" "written s' = written s1" "got s' = got s1"
    by (rule reached_step [OF s1(2) s' k]) auto
  moreover have "l_run L s (flush @ [Ack_arrives]) = Inr s'"
    using s1(1) s' by (simp add: conn_run_append matched_def)
  ultimately show thesis using that [of s' n'] n'(1) s1 by simp
qed

lemma ack_flight_channel: "reached L k s n \<Longrightarrow> ack_ch n = map (\<lambda>p. ack_num (tcp_header p)) (ack_flight s)"
  by (simp add: reached_def sim_defs)

text \<open>Draining: every packet in flight is received, and every acknowledgement it causes.\<close>

lemma can_drain:
  assumes laws: "l_laws L" and r: "reached L k s n" and m: "effort k n \<le> 2147483648"
  shows "can_reach L (effort k n) s (\<lambda>s' n'. quiet n' \<and> sent n' = sent n \<and>
    length (pkts_to_ack (tx n')) \<le> length (pkts_to_ack (tx n)))"
  using r m
proof (induction "drain_measure n" arbitrary: k s n rule: less_induct)
  case less
  note r = less.prems(1)
  show ?case
  proof (cases "quiet n")
    case True
    with less.prems show ?thesis by (intro can_reach_refl) auto
  next
    case False
    then have "0 < drain_measure n" by (auto simp: quiet_def drain_measure_def)
    with less.prems(2) have k: "k < 2147483648" by (simp add: effort_def)
    have inv: "net_inv (l_base L) k n" using r by (simp add: reached_def)
    have "\<exists>es s1 n1. l_run L s es = Inr s1 \<and> list_all helpful es \<and> reached L (Suc k) s1 n1 \<and> written s1 = written s \<and>
        drain_measure n1 < drain_measure n \<and> sent n1 = sent n \<and> length (pkts_to_ack (tx n1)) \<le> length (pkts_to_ack (tx n))"
    proof (cases "data_ch n")
      case (Cons p ps)
      then have "data_ch n \<noteq> []" by simp
      from data_step [OF laws r k this] obtain s1 n1 where s1: "l_run L s (flush @ [Data_arrives]) = Inr s1"
        "recv_data_step n = Inr n1" "reached L (Suc k) s1 n1" "written s1 = written s" by blast
      from recv_data_step_shape [OF s1(2) Cons] s1 Cons show ?thesis
        by (intro exI [of _ "flush @ [Data_arrives]"] exI [of _ s1] exI [of _ n1]) (auto simp: drain_measure_def)
    next
      case Nil
      with False have "ack_ch n \<noteq> []" by (simp add: quiet_def)
      then obtain q qs where q: "ack_flight s = q # qs" using ack_flight_channel [OF r] by (cases "ack_flight s") auto
      from ack_step [OF r k q] obtain s1 n1 where s1: "l_run L s (flush @ [Ack_arrives]) = Inr s1"
        "recv_ack_step (l_clock L) n (ucast (window_size (tcp_header q))) = Inr n1" "reached L (Suc k) s1 n1"
        "written s1 = written s" by blast
      have "ack_ch n = ack_num (tcp_header q) # map (\<lambda>p. ack_num (tcp_header p)) qs"
        using ack_flight_channel [OF r] q by simp
      from recv_ack_step_shape [OF inv k this s1(2)] s1 show ?thesis
        by (intro exI [of _ "flush @ [Ack_arrives]"] exI [of _ s1] exI [of _ n1]) auto
    qed
    then obtain es s1 n1 where s1: "l_run L s es = Inr s1" "list_all helpful es" "reached L (Suc k) s1 n1" "written s1 = written s"
      "drain_measure n1 < drain_measure n" "sent n1 = sent n" "length (pkts_to_ack (tx n1)) \<le> length (pkts_to_ack (tx n))"
      by blast
    have e: "effort (Suc k) n1 \<le> effort k n" using s1(5) by (simp add: effort_def)
    have "can_reach L (effort (Suc k) n1) s1 (\<lambda>s' n'. quiet n' \<and> sent n' = sent n1 \<and>
        length (pkts_to_ack (tx n')) \<le> length (pkts_to_ack (tx n1)))"
      using less.hyps [OF s1(5,3)] e less.prems(2) by simp
    then have "can_reach L (effort k n) s1 (\<lambda>s' n'. quiet n' \<and> sent n' = sent n \<and>
        length (pkts_to_ack (tx n')) \<le> length (pkts_to_ack (tx n)))"
      by (rule can_reach_mono) (use e s1(6,7) in auto)
    then show ?thesis by (rule can_reach_run [OF s1(1,2,4)])
  qed
qed

text \<open>
  One packet alone in flight is received and its acknowledgement comes back, with the
  window the receiver had then: all of its buffer that is not filled.
\<close>

lemma free_room:
  assumes r: "reached L k s n"
  shows "unat (rb_free_space (l_ops L) (recv_buffer (receiver s))) + seq_span (delivered n) = length (got s) + l_room L"
    "length (got s) \<le> seq_span (delivered n)"
proof -
  have inv: "streams_inv (l_base L) n" and sim: "sim (l_ops L) (l_ok L) (l_contents L) (l_base L) s n"
    using r by (simp_all add: reached_def net_inv_def)
  show "unat (rb_free_space (l_ops L) (recv_buffer (receiver s))) + seq_span (delivered n) = length (got s) + l_room L"
    using r unat_recv_base [OF inv] sim by (simp add: reached_def right_edge_def sim_defs)
  have "\<forall>p \<in> set (delivered n). data_pkt p"
    using sim sent_pending [OF inv] by (auto simp: sim_defs plain_pkt_def)
  then have "length (pkts_bytes (delivered n)) = seq_span (delivered n)" by (rule length_pkts_bytes)
  then show "length (got s) \<le> seq_span (delivered n)" using sim by (simp add: sim_defs)
qed

lemma exchange:
  assumes laws: "l_laws L" and r: "reached L k s n" and k: "k + 2 \<le> 2147483648"
    and flight: "length (data_ch n) = 1" "ack_ch n = []"
  obtains n1 n2 c where "recv_data_step n = Inr n1" "recv_ack_step (l_clock L) n1 c = Inr n2"
    "unat c + seq_span (delivered n1) = length (got s) + l_room L" "length (pkts_to_ack (tx n2)) \<le> length (pkts_to_ack (tx n))"
    "can_reach L (effort k n) s (\<lambda>s' n'. n' = n2)"
proof -
  have d: "data_ch n \<noteq> []" and k': "k < 2147483648" "Suc k < 2147483648" using flight k by auto
  obtain s1 n1 q where s1: "l_run L s (flush @ [Data_arrives]) = Inr s1" "recv_data_step n = Inr n1"
      "reached L (Suc k) s1 n1" "written s1 = written s" "got s1 = got s" "ack_flight s1 = ack_flight s @ [q]"
      "window_size (tcp_header q) = ucast (rb_free_space (l_ops L) (recv_buffer (receiver s1)))"
    by (rule data_step [OF laws r k'(1) d])
  have q: "ack_flight s1 = [q]" using s1(6) ack_flight_channel [OF r] flight(2) by simp
  let ?c = "ucast (window_size (tcp_header q)) :: uint32"
  obtain s2 n2 where s2: "l_run L s1 (flush @ [Ack_arrives]) = Inr s2" "recv_ack_step (l_clock L) n1 ?c = Inr n2"
      "reached L (Suc (Suc k)) s2 n2" "written s2 = written s1"
    by (rule ack_step [OF s1(3) k'(2) q])
  have "unat (rb_free_space (l_ops L) (recv_buffer (receiver s1))) < 65536"
    using free_room [OF s1(3)] laws by (simp add: l_laws_def)
  then have "unat ?c = unat (rb_free_space (l_ops L) (recv_buffer (receiver s1)))"
    by (simp add: s1(7) unat_window_size unsigned_ucast_eq unsigned_take_bit_eq take_bit_nat_eq_self)
  then have c: "unat ?c + seq_span (delivered n1) = length (got s) + l_room L" using free_room [OF s1(3)] s1(5) by simp
  obtain a as p ps where ch: "ack_ch n1 = a # as" "data_ch n = p # ps"
    using ack_flight_channel [OF s1(3)] q d by (cases "data_ch n") auto
  have inv: "net_inv (l_base L) (Suc k) n1" using s1(3) by (simp add: reached_def)
  have "drain_measure n1 < drain_measure n" "tx n1 = tx n"
    using recv_data_step_shape [OF s1(2) ch(2)] ch(2) by (auto simp: drain_measure_def)
  then have "effort (Suc (Suc k)) n2 \<le> effort k n" and len: "length (pkts_to_ack (tx n2)) \<le> length (pkts_to_ack (tx n))"
    using recv_ack_step_shape [OF inv k'(2) ch(1) s2(2)] by (simp_all add: effort_def)
  with s2(3) have "can_reach L (effort k n) s2 (\<lambda>s' n'. n' = n2)" by (intro can_reach_refl) auto
  then have "can_reach L (effort k n) s1 (\<lambda>s' n'. n' = n2)"
    by (rule can_reach_run [OF s2(1) _ s2(4), rotated]) simp
  then have "can_reach L (effort k n) s (\<lambda>s' n'. n' = n2)"
    by (rule can_reach_run [OF s1(1) _ s1(4), rotated]) simp
  with that s1(2) s2(2) c len show thesis by blast
qed

section \<open>What is not acknowledged is sent again\<close>

lemma can_round_trip:
  assumes laws: "l_laws L" and r: "reached L k s n" and q: "quiet n" and ne: "pkts_to_ack (tx n) \<noteq> []"
    and m: "effort k n + 5 \<le> 2147483648"
  shows "can_reach L (effort k n + 5) s (\<lambda>s' n'. quiet n' \<and> sent n' = sent n \<and>
    length (pkts_to_ack (tx n')) < length (pkts_to_ack (tx n)))"
proof -
  have inv: "net_inv (l_base L) k n" and sim: "sim (l_ops L) (l_ok L) (l_contents L) (l_base L) s n"
    using r by (simp_all add: reached_def)
  have k: "k + 3 \<le> 2147483648" "k < 2147483648" "Suc k + 2 \<le> 2147483648" using m by (simp_all add: effort_def)
  obtain n1 n2 where t: "NumPacketsToAck (tx n) > 0" "net_step (l_clock L) n Timeout = Inr n1"
      "net_step (l_clock L) n1 Recv_data = Inr n2" "length (data_ch n1) = 1" "ack_ch n1 = []"
      "drain_measure n1 = drain_measure n + 4"
    and last: "\<forall>c n3. net_step (l_clock L) n2 (Recv_ack c) = Inr n3 \<longrightarrow> quiet n3 \<and> sent n3 = sent n \<and>
      length (pkts_to_ack (tx n3)) < length (pkts_to_ack (tx n))"
    using round_trip_steps [OF inv q ne k(1), of "l_clock L"] by blast
  obtain s1 where s1: "l_matched L s n Timer_fires Timeout s1" by (rule timer_matched [OF sim inv t(1)])
  obtain n1' where "net_step (l_clock L) n Timeout = Inr n1'" "reached L (Suc k) s1 n1'" "written s1 = written s"
    by (rule reached_step [OF r s1 k(2)]) auto
  then have r1: "reached L (Suc k) s1 n1" "written s1 = written s" using t(2) by simp_all
  obtain n2' n3 c where n3: "recv_data_step n1 = Inr n2'" "recv_ack_step (l_clock L) n2' c = Inr n3"
    "can_reach L (effort (Suc k) n1) s1 (\<lambda>s' n'. n' = n3)"
    by (rule exchange [OF laws r1(1) k(3) t(4,5)])
  have "n2' = n2" using n3(1) t(3) by simp
  then have fin: "quiet n3 \<and> sent n3 = sent n \<and> length (pkts_to_ack (tx n3)) < length (pkts_to_ack (tx n))"
    using last n3(2) by simp
  have "effort (Suc k) n1 \<le> effort k n + 5" using t(6) by (simp add: effort_def)
  with n3(3) have "can_reach L (effort k n + 5) s1 (\<lambda>s' n'. quiet n' \<and> sent n' = sent n \<and>
      length (pkts_to_ack (tx n')) < length (pkts_to_ack (tx n)))"
    by (rule can_reach_mono) (use fin in simp)
  then show ?thesis
    by (rule can_reach_run [of L s "[Timer_fires]", rotated 3]) (use s1 r1(2) in \<open>simp_all add: matched_def\<close>)
qed

lemma can_settle:
  assumes laws: "l_laws L" and "reached L k s n" "quiet n"
    and "effort k n + 5 * length (pkts_to_ack (tx n)) \<le> 2147483648"
  shows "can_reach L (effort k n + 5 * length (pkts_to_ack (tx n))) s
    (\<lambda>s' n'. sent n' = sent n \<and> pkts_to_ack (tx n') = [] \<and> quiet n')"
  using assms(2-)
proof (induction "length (pkts_to_ack (tx n))" arbitrary: k s n rule: less_induct)
  case less
  let ?m = "effort k n + 5 * length (pkts_to_ack (tx n))"
  show ?case
  proof (cases "pkts_to_ack (tx n) = []")
    case True
    with less.prems show ?thesis by (intro can_reach_refl) auto
  next
    case False
    then have one: "1 \<le> length (pkts_to_ack (tx n))" by (cases "pkts_to_ack (tx n)") auto
    then have "effort k n + 5 \<le> 2147483648" using less.prems(3) by linarith
    from can_round_trip [OF laws less.prems(1,2) False this] show ?thesis
    proof (rule can_reach_trans)
      fix k' s' n'
      assume r: "reached L k' s' n'" and e: "effort k' n' \<le> effort k n + 5"
        and p: "quiet n' \<and> sent n' = sent n \<and> length (pkts_to_ack (tx n')) < length (pkts_to_ack (tx n))"
      have le: "effort k' n' + 5 * length (pkts_to_ack (tx n')) \<le> ?m" using e p by linarith
      then have "effort k' n' + 5 * length (pkts_to_ack (tx n')) \<le> 2147483648" using less.prems(3) by linarith
      with p have "can_reach L (effort k' n' + 5 * length (pkts_to_ack (tx n'))) s'
          (\<lambda>s'' n''. sent n'' = sent n' \<and> pkts_to_ack (tx n'') = [] \<and> quiet n'')"
        by (intro less.hyps r) auto
      then show "can_reach L ?m s' (\<lambda>s'' n''. sent n'' = sent n \<and> pkts_to_ack (tx n'') = [] \<and> quiet n'')"
        by (rule can_reach_mono) (use le p in auto)
    qed
  qed
qed

section \<open>What was delivered is read\<close>

lemma can_read:
  assumes laws: "l_laws L" and r: "reached L k s n"
  shows "can_reach L (effort k n) s (\<lambda>s' n'. n' = n \<and> l_contents L (recv_buffer (receiver s')) = [])"
proof (cases "l_contents L (recv_buffer (receiver s)) = []")
  case True
  with r show ?thesis by (intro can_reach_refl) auto
next
  case False
  let ?bs = "l_contents L (recv_buffer (receiver s))"
  have ring: "ring_laws (l_ops L) (l_ok L) (l_contents L)" using laws by (simp add: l_laws_def)
  have sim: "sim (l_ops L) (l_ok L) (l_contents L) (l_base L) s n" using r by (simp add: reached_def)
  have "length ?bs < 2147483648" using ring_boundsD(4) [OF ring, of "recv_buffer (receiver s)"] sim by (simp add: sim_defs)
  moreover from app_read_step [OF ring sim False] obtain s' where s': "l_step L s (App_read (length ?bs)) = Inr s'"
    "sim (l_ops L) (l_ok L) (l_contents L) (l_base L) s' n" "same_room (l_ops L) s s'"
    "l_contents L (recv_buffer (receiver s')) = drop (length ?bs) ?bs" by blast
  moreover have "written s' = written s" using conn_step_frame(1) [OF s'(1)] by simp
  moreover have "reached L k s' n" using r s' by (simp add: reached_def same_room_def)
  ultimately show ?thesis
    unfolding can_reach_def
    by (intro exI [of _ "[App_read (length ?bs)]"] exI [of _ s'] exI [of _ n] exI [of _ k]) simp
qed

section \<open>A closed window is probed\<close>

lemma recv_ack_capacity:
  assumes "recv_ack_step el n c = Inr n'" "ack_ch n \<noteq> []"
  shows "capacity (tx n') = c"
  using assms by (cases "ack_ch n") (auto simp: recv_ack_step_def bindR_Inr_iff Let_def)

lemma can_open:
  assumes laws: "l_laws L" and r: "reached L k s n" and n: "quiet n" "pkts_to_ack (tx n) = []"
    and read: "l_contents L (recv_buffer (receiver s)) = []" and m: "effort k n + 5 \<le> 2147483648"
  shows "can_reach L (effort k n + 5) s (\<lambda>s' n'. sent n' = sent n \<and> pkts_to_ack (tx n') = [] \<and> capacity (tx n') \<noteq> 0)"
proof (cases "capacity (tx n) = 0")
  case False
  with r n(2) show ?thesis by (intro can_reach_refl) auto
next
  case True
  have sim: "sim (l_ops L) (l_ok L) (l_contents L) (l_base L) s n" and st: "streams_inv (l_base L) n"
    using r by (simp_all add: reached_def net_inv_def)
  have k: "k < 2147483648" "Suc k + 2 \<le> 2147483648" using m by (simp_all add: effort_def)
  have "capacity (send_window (sender s)) = 0" using True sim by (simp add: sim_defs)
  then obtain p s1 where s1: "l_matched L s n Prober_fires (Probe p) s1" "payload_size p = 0"
    by (rule prober_matched [OF sim])
  let ?n = "n\<lparr>data_ch := [p]\<rparr>"
  obtain n1 where "net_step (l_clock L) n (Probe p) = Inr n1" "reached L (Suc k) s1 n1" "written s1 = written s" "got s1 = got s"
    by (rule reached_step [OF r s1(1) k(1)]) (use s1(2) in auto)
  then have r1: "reached L (Suc k) s1 ?n" "written s1 = written s" "got s1 = got s" using n(1) by (simp_all add: quiet_def)
  obtain n2 n3 c where n3: "recv_data_step ?n = Inr n2" "recv_ack_step (l_clock L) n2 c = Inr n3"
    "unat c + seq_span (delivered n2) = length (got s1) + l_room L" "length (pkts_to_ack (tx n3)) \<le> length (pkts_to_ack (tx ?n))"
    "can_reach L (effort (Suc k) ?n) s1 (\<lambda>s' n'. n' = n3)"
    by (rule exchange [OF laws r1(1) k(2)]) (use n(1) in \<open>simp_all add: quiet_def\<close>)
  have n2: "delivered n2 = delivered n" "sent n2 = sent n" "ack_ch n2 \<noteq> []"
    using n3(1) s1(2) by (auto simp: recv_data_step_def)
  have "\<forall>p \<in> set (delivered n). data_pkt p" using sim sent_pending [OF st] by (auto simp: sim_defs plain_pkt_def)
  then have "seq_span (delivered n) = length (got s)"
    using length_pkts_bytes [of "delivered n"] sim read by (simp add: sim_defs)
  then have "c \<noteq> 0" using n3(3) n2(1) r1(3) laws by (auto simp: l_laws_def)
  then have cap: "capacity (tx n3) \<noteq> 0" using recv_ack_capacity [OF n3(2) n2(3)] by simp
  have sent: "sent n3 = sent n"
    using net_step_sent [of "l_clock L" n2 "Recv_ack c" n3] n3(2) n2(2) by simp
  have "effort (Suc k) ?n \<le> effort k n + 5" using n(1) by (simp add: effort_def drain_measure_def quiet_def)
  with n3(5) have "can_reach L (effort k n + 5) s1 (\<lambda>s' n'. sent n' = sent n \<and> pkts_to_ack (tx n') = [] \<and> capacity (tx n') \<noteq> 0)"
    by (rule can_reach_mono) (use sent cap n3(4) n(2) in simp)
  then show ?thesis
    by (rule can_reach_run [of L s "[Prober_fires]", rotated 3]) (use s1 r1(2) in \<open>simp_all add: matched_def\<close>)
qed

section \<open>What was written is sent\<close>

lemma can_send:
  assumes laws: "l_laws L" and r: "reached L k s n" and n: "pkts_to_ack (tx n) = []" "capacity (tx n) \<noteq> 0"
    and ne: "l_contents L (send_buffer (sender s)) \<noteq> []"
    and bounds: "unat (l_base L) + length (written s) < 4294967296" "k + length (written s) \<le> 2147483648"
  shows "\<exists>m > 0. can_reach L (effort k n + 5 * m) s (\<lambda>s' n'.
    length (l_contents L (send_buffer (sender s'))) + m = length (l_contents L (send_buffer (sender s))) \<and>
    length (pkts_to_ack (tx n')) \<le> m)"
proof -
  have ring: "ring_laws (l_ops L) (l_ok L) (l_contents L)" using laws by (simp add: l_laws_def)
  have sim: "sim (l_ops L) (l_ok L) (l_contents L) (l_base L) s n" and inv: "net_inv (l_base L) k n"
    using r by (simp_all add: reached_def)
  have ok: "l_ok L (send_buffer (sender s))" "tx n = send_window (sender s)" "\<not> shutdown_flag (sender s)"
    using sim by (simp_all add: sim_defs established_def)
  have wf: "sw_wf (tx n)" using inv by (simp add: net_inv_def streams_inv_def)
  then have "sw_size (tx n) = 0" using n(1) by (simp add: sw_wf_def unat_eq_0)
  then have free: "free_space (tx n) = capacity (tx n)" using n(2) by (simp add: free_space_def word_gt_0)
  then have pos: "0 < free_space (send_window (sender s))" using n(2) ok(2) by (simp add: word_gt_0)
  obtain c' where c': "SendBufferListener_send (l_ops L) (sender s) = Inr c'"
    using SendBufferListener_send_spec [OF ring ok(1) wf [unfolded ok(2)] refl] by blast
  let ?s = "s\<lparr>sender := c'\<rparr>"
  have "SendBufferListener_round (conn_env (l_ops L) (l_clock L) False) (sender s) = Some (Inr (Returns c'))"
    using pos ne n(2) ok(2,3) c' ring_boundsD(2) [OF ring ok(1)]
    by (simp add: SendBufferListener_round_def SendBufferListener_locked_def conn_env_def Let_def word_gt_0)
  then have step: "l_step L s (Send_loop False) = Inr ?s" by simp
  let ?n' = "\<lambda>ps. n\<lparr>tx := send_window c', data_ch := data_ch n @ ps, sent := sent n @ ps\<rparr>"
  obtain ps where ps: "net_run (l_clock L) n (map Send_data ps) = Inr (?n' ps)"
      "list_all valid_event (map Send_data ps)" "length ps \<le> load (map Send_data ps)" "load (map Send_data ps) = seq_span ps"
      "seq_span (sent n) + load (map Send_data ps) \<le> length (written s)" "registered (tx n) ps (send_window c')"
      "seq_span ps = min (unat (free_space (tx n))) (length (l_contents L (send_buffer (sender s))))"
      "sim (l_ops L) (l_ok L) (l_contents L) (l_base L) ?s (?n' ps)"
    using send_simulated [OF ring sim inv c', of "l_clock L"] by blast
  let ?n = "?n' ps"
  have "net_inv (l_base L) (k + length ps) ?n"
    using net_run_inv [OF inv ps(2), of "l_clock L"] ps(1,3-5) bounds by auto
  then have r': "reached L (k + length ps) ?s ?n" using r ps(8) by (simp add: reached_def right_edge_def)
  have "0 < seq_span ps" using ps(7) ne pos ok(2) by (simp add: word_gt_0 unat_gt_0)
  moreover have "length (l_contents L (send_buffer (sender ?s))) + seq_span ps = length (l_contents L (send_buffer (sender s)))"
    using sim_written [OF sim] sim_written [OF ps(8)] by simp
  moreover have "length (window_pkts (send_window c')) = length ps" using registered_fields [OF ps(6)] n(1) by simp
  then have "length (pkts_to_ack (tx ?n)) = length ps" by simp
  moreover have "effort (k + length ps) ?n \<le> effort k n + 5 * seq_span ps"
    using registered_fields [OF ps(6)] ps(3,4) by (simp add: effort_def drain_measure_def)
  ultimately show ?thesis
    using step r' ps(3,4) unfolding can_reach_def
    by (intro exI [of _ "seq_span ps"] conjI exI [of _ "[Send_loop False]"] exI [of _ ?s] exI [of _ ?n]
        exI [of _ "k + length ps"]) simp_all
qed

section \<open>Everything arrives\<close>

lemma reached_written:
  "reached L k s n \<Longrightarrow> length (written s) = seq_span (sent n) + length (l_contents L (send_buffer (sender s)))"
  using sim_written by (auto simp: reached_def)

lemma can_collect:
  assumes laws: "l_laws L" and r: "reached L k s n"
    and m: "effort k n + 5 * length (pkts_to_ack (tx n)) \<le> 2147483648"
  shows "can_reach L (effort k n + 5 * length (pkts_to_ack (tx n))) s (\<lambda>s' n'. sent n' = sent n \<and>
    pkts_to_ack (tx n') = [] \<and> quiet n' \<and> l_contents L (recv_buffer (receiver s')) = [])"
    (is "can_reach L ?m s ?P")
proof -
  have "effort k n \<le> 2147483648" using m by simp
  from can_drain [OF laws r this] show ?thesis
  proof (rule can_reach_trans)
    fix k' s' n' assume r': "reached L k' s' n'" and e: "effort k' n' \<le> effort k n"
      and p: "quiet n' \<and> sent n' = sent n \<and> length (pkts_to_ack (tx n')) \<le> length (pkts_to_ack (tx n))"
    have le: "effort k' n' + 5 * length (pkts_to_ack (tx n')) \<le> ?m" using e p by linarith
    then have "effort k' n' + 5 * length (pkts_to_ack (tx n')) \<le> 2147483648" using m by linarith
    from can_settle [OF laws r' p [THEN conjunct1] this] show "can_reach L ?m s' ?P"
    proof (rule can_reach_trans)
      fix k2 s2 n2 assume r2: "reached L k2 s2 n2"
        and "effort k2 n2 \<le> effort k' n' + 5 * length (pkts_to_ack (tx n'))"
        and p2: "sent n2 = sent n' \<and> pkts_to_ack (tx n2) = [] \<and> quiet n2"
      then have "effort k2 n2 \<le> ?m" using le by linarith
      with can_read [OF laws r2] show "can_reach L ?m s2 ?P"
        by (rule can_reach_mono) (use p p2 in auto)
    qed
  qed
qed

lemma all_read:
  assumes r: "reached L k s n" and "pkts_to_ack (tx n) = []"
    and "l_contents L (recv_buffer (receiver s)) = []" "l_contents L (send_buffer (sender s)) = []"
  shows "got s = written s"
proof -
  have "delivered n = sent n" using all_delivered r assms(2) unfolding reached_def by blast
  then show ?thesis using r assms(3,4) by (simp add: reached_def sim_defs)
qed


text \<open>
  One more round: the window is opened, something is sent, and what is left to do has a
  smaller bound, by induction on the bytes in the send buffer.
\<close>

definition left_to_do :: "'b link \<Rightarrow> nat \<Rightarrow> 'b conn \<Rightarrow> net \<Rightarrow> nat" where
  "left_to_do L k s n = effort k n + 5 * length (pkts_to_ack (tx n)) + 15 * length (l_contents L (send_buffer (sender s)))"

lemma can_send_on:
  assumes laws: "l_laws L" and r: "reached L k s n" and n: "quiet n" "pkts_to_ack (tx n) = []"
    and read: "l_contents L (recv_buffer (receiver s)) = []" and ne: "l_contents L (send_buffer (sender s)) \<noteq> []"
    and bounds: "unat (l_base L) + length (written s) < 4294967296"
      "left_to_do L k s n + length (written s) \<le> 2147483648"
    and rest: "\<And>k' s' n'. reached L k' s' n' \<Longrightarrow> written s' = written s \<Longrightarrow> left_to_do L k' s' n' \<le> left_to_do L k s n \<Longrightarrow>
      length (l_contents L (send_buffer (sender s'))) < length (l_contents L (send_buffer (sender s))) \<Longrightarrow>
      can_reach L (left_to_do L k s n) s' P"
  shows "can_reach L (left_to_do L k s n) s P"
proof -
  let ?c = "length (l_contents L (send_buffer (sender s)))"
  have c: "1 \<le> ?c" using ne by (simp add: Suc_le_eq)
  have m: "left_to_do L k s n = effort k n + 15 * ?c" using n(2) by (simp add: left_to_do_def)
  then have "effort k n + 5 \<le> 2147483648" using bounds(2) c by linarith
  from can_open [OF laws r n read this] show ?thesis
  proof (rule can_reach_trans)
    fix k1 s1 n1 assume r1: "reached L k1 s1 n1" and e1: "effort k1 n1 \<le> effort k n + 5"
      and p1: "sent n1 = sent n \<and> pkts_to_ack (tx n1) = [] \<and> capacity (tx n1) \<noteq> 0" and w1: "written s1 = written s"
    have c1: "length (l_contents L (send_buffer (sender s1))) = ?c"
      using reached_written [OF r] reached_written [OF r1] w1 p1 by simp
    then have ne1: "l_contents L (send_buffer (sender s1)) \<noteq> []" using c by auto
    have "k1 \<le> effort k1 n1" by (simp add: effort_def)
    then have "k1 + length (written s1) \<le> 2147483648" using e1 m bounds(2) c unfolding w1 by linarith
    then obtain i where i: "i > 0" "can_reach L (effort k1 n1 + 5 * i) s1 (\<lambda>s' n'.
        length (l_contents L (send_buffer (sender s'))) + i = length (l_contents L (send_buffer (sender s1))) \<and>
        length (pkts_to_ack (tx n')) \<le> i)"
      using can_send [OF laws r1 _ _ ne1] p1 w1 bounds(1) by auto
    from i(2) show "can_reach L (left_to_do L k s n) s1 P"
    proof (rule can_reach_trans)
      fix k2 s2 n2 assume r2: "reached L k2 s2 n2" and e2: "effort k2 n2 \<le> effort k1 n1 + 5 * i" and w2: "written s2 = written s1"
        and p2: "length (l_contents L (send_buffer (sender s2))) + i = length (l_contents L (send_buffer (sender s1))) \<and>
          length (pkts_to_ack (tx n2)) \<le> i"
      have "left_to_do L k2 s2 n2 \<le> left_to_do L k s n"
        using e1 e2 p2 c1 i(1) unfolding m left_to_do_def [of L k2] by linarith
      then show "can_reach L (left_to_do L k s n) s2 P"
        using p2 c1 i(1) w1 w2 by (intro rest [OF r2]) auto
    qed
  qed
qed

lemma can_finish:
  assumes laws: "l_laws L" and "reached L k s n" "unat (l_base L) + length (written s) < 4294967296"
    and "left_to_do L k s n + length (written s) \<le> 2147483648"
  shows "can_reach L (left_to_do L k s n) s (\<lambda>s' n'. got s' = written s')"
  using assms(2-)
proof (induction "length (l_contents L (send_buffer (sender s)))" arbitrary: k s n rule: less_induct)
  case less
  have "effort k n + 5 * length (pkts_to_ack (tx n)) \<le> 2147483648" using less.prems(3) by (simp add: left_to_do_def)
  from can_collect [OF laws less.prems(1) this] show ?case
  proof (rule can_reach_trans)
    fix k1 s1 n1 assume r1: "reached L k1 s1 n1"
      and e1: "effort k1 n1 \<le> effort k n + 5 * length (pkts_to_ack (tx n))" and w1: "written s1 = written s"
      and p1: "sent n1 = sent n \<and> pkts_to_ack (tx n1) = [] \<and> quiet n1 \<and> l_contents L (recv_buffer (receiver s1)) = []"
    have c1: "length (l_contents L (send_buffer (sender s1))) = length (l_contents L (send_buffer (sender s)))"
      using reached_written [OF less.prems(1)] reached_written [OF r1] w1 p1 by simp
    have le: "left_to_do L k1 s1 n1 \<le> left_to_do L k s n" using e1 p1 c1 by (simp add: left_to_do_def)
    have "can_reach L (left_to_do L k1 s1 n1) s1 (\<lambda>s' n'. got s' = written s')"
    proof (cases "l_contents L (send_buffer (sender s1)) = []")
      case True
      then show ?thesis using all_read [OF r1] p1 r1 by (intro can_reach_refl) (auto simp: left_to_do_def)
    next
      case False
      show ?thesis
      proof (rule can_send_on [OF laws r1 _ _ _ False])
        fix k' s' n' assume r': "reached L k' s' n'" "written s' = written s1" and l: "left_to_do L k' s' n' \<le> left_to_do L k1 s1 n1"
          and "length (l_contents L (send_buffer (sender s'))) < length (l_contents L (send_buffer (sender s1)))"
        then have "can_reach L (left_to_do L k' s' n') s' (\<lambda>s' n'. got s' = written s')"
          using less.prems(2,3) le c1 w1 by (intro less.hyps) auto
        then show "can_reach L (left_to_do L k1 s1 n1) s' (\<lambda>s' n'. got s' = written s')" by (rule can_reach_mono [OF _ l])
      qed (use p1 less.prems(2,3) le w1 in auto)
    qed
    then show "can_reach L (left_to_do L k s n) s1 (\<lambda>s' n'. got s' = written s')" by (rule can_reach_mono [OF _ le])
  qed
qed

section \<open>Properties\<close>

text \<open>
  C3. Liveness. After any run of the two controllers as above (the two directions of the path
  may have lost anything), with a receive buffer of at least one byte that a 16-bit window
  can announce, there is a continuation in which nothing is written and nothing is lost,
  only the threads run, timers fire, packets travel and the reader reads, after which the
  reader has got exactly the bytes that were written.
\<close>

theorem connection_can_always_complete:
  assumes laws: "ring_laws ops ok contents"
    and ready: "ready_sender ok contents b c" "ready_receiver ok contents b d"
      "unat (capacity (send_window c)) \<le> unat (rb_free_space ops (recv_buffer d))"
    and room: "0 < rb_free_space ops (recv_buffer d)" "rb_free_space ops (recv_buffer d) < 65536"
    and es: "list_all event_ok es" "unat b + offered es < 4294967296" "length es + offered es \<le> 50000000"
    and run: "conn_run ops el (conn_start c d) es = Inr s"
  shows "\<exists>fs s'. conn_run ops el s fs = Inr s' \<and> list_all helpful fs \<and> written s' = written s \<and> got s' = written s"
proof -
  let ?L = "\<lparr>l_ops = ops, l_ok = ok, l_contents = contents, l_base = b, l_clock = el,
    l_room = unat (rb_free_space ops (recv_buffer d))\<rparr>"
  have "length es + offered es \<le> 2147483648" using es(3) by simp
  from conn_run_from_start [OF laws ready es(1,2) this, of el] obtain s0 n k where
    "conn_run ops el (conn_start c d) es = Inr s0" "sim ops ok contents b s0 n" "net_inv b k n" "same_room ops (conn_start c d) s0"
    "k \<le> length es + seq_span (sent n)" by blast
  then have n: "sim ops ok contents b s n" "net_inv b k n" "same_room ops (conn_start c d) s"
    "k \<le> length es + seq_span (sent n)" using run by simp_all
  have l: "l_laws ?L" using laws room by (simp add: l_laws_def word_less_nat_alt)
  have "right_edge ops s = unat b + length (got s) + unat (rb_free_space ops (recv_buffer d))"
    using n(3) ready(2) by (simp add: same_room_def right_edge_def conn_start_def ready_receiver_def)
  then have r: "reached ?L k s n" using n by (simp add: reached_def)
  have w: "length (written s) \<le> offered es" using conn_run_written [OF run] by (simp add: conn_start_def)
  have "left_to_do ?L k s n \<le> 12 * k + 15 * length (written s)"
    using drain_bound [OF n(2)] sim_written [OF n(1)] by (simp add: left_to_do_def effort_def)
  moreover have "k + length (written s) \<le> 2 * 50000000" "k \<le> 50000000"
    using n(4) sim_written [OF n(1)] w es(3) by linarith+
  ultimately have "left_to_do ?L k s n + length (written s) \<le> 2147483648" using w es(3) by linarith
  then have "can_reach ?L (left_to_do ?L k s n) s (\<lambda>s' n'. got s' = written s')"
    using w es(2) by (intro can_finish [OF l r]) simp_all
  then obtain fs s' where "conn_run ops el s fs = Inr s'" "list_all helpful fs" "written s' = written s" "got s' = written s'"
    by (auto simp: can_reach_def)
  then show ?thesis by (intro exI [of _ fs] exI [of _ s']) simp
qed

text \<open>The transfer of the example, cut off before anything was read and with a packet lost.\<close>

definition example_lossy_events :: "conn_event list" where
  "example_lossy_events = [App_write [1, 2, 3], Send_loop False, Sender_emits, Lose_data_pkt 0]"

theorem connection_can_always_complete_witness:
  "\<exists>s. conn_run list_ring (\<lambda>_. 0) (conn_start example_peer example_peer) example_lossy_events = Inr s \<and> got s = [] \<and>
    written s = [1, 2, 3] \<and>
    (\<exists>fs s'. conn_run list_ring (\<lambda>_. 0) s fs = Inr s' \<and> list_all helpful fs \<and> written s' = written s \<and>
      got s' = written s)"
proof -
  have "case conn_run list_ring (\<lambda>_. 0) (conn_start example_peer example_peer) example_lossy_events of
      Inr s \<Rightarrow> got s = [] \<and> written s = [1, 2, 3] | Inl _ \<Rightarrow> False"
    by code_simp
  then obtain s where s: "conn_run list_ring (\<lambda>_. 0) (conn_start example_peer example_peer) example_lossy_events = Inr s"
      "got s = []" "written s = [1, 2, 3]"
    by (auto split: sum.splits)
  have ok: "list_all event_ok example_lossy_events" "unat (0 :: uint32) + offered example_lossy_events < 4294967296"
    "length example_lossy_events + offered example_lossy_events \<le> 50000000"
    by (simp_all add: example_lossy_events_def)
  have room: "0 < rb_free_space list_ring (recv_buffer example_peer)" "rb_free_space list_ring (recv_buffer example_peer) < 65536"
    by (simp_all add: example_peer_def idle_peer_def list_ring_def)
  show ?thesis
    using connection_can_always_complete [OF list_ring_laws example_ready room ok s(1)] s by blast
qed

end
