(* ===== verification/Num_Pool.thy ===== *)
theory Num_Pool
  imports Tcp_Prelude
begin

text \<open>
  \<^verbatim>\<open>NumPool.h\<close>/\<^verbatim>\<open>NumPool.cc\<close>: the pool from which ports, file descriptors and open file ids
  are taken. The ordered \<^verbatim>\<open>std::set<int32>\<close> is a set of integers; \<^verbatim>\<open>begin()\<close> is its
  minimum and advancing an iterator follows its sorted list. Every operation holds the
  pool's mutex, so each is one atomic step.
\<close>

section \<open>The pool and its operations\<close>

record NumPool =
  pool_name :: string
  pool :: "int32 set"

function pool_fill :: "int32 \<Rightarrow> int32 \<Rightarrow> int32 set \<Rightarrow> int32 set" where
  "pool_fill i mx s = (if i \<le> mx then pool_fill (i + 1) mx (insert i s) else s)"
  by pat_completeness auto
termination
  by (relation "measure (\<lambda>(i, mx, s). nat (mx + 1 - i))") auto

declare pool_fill.simps [simp del]

definition NumPool_new :: "int32 \<Rightarrow> int32 \<Rightarrow> NumPool" where
  "NumPool_new mn mx = \<lparr>pool_name = [], pool = pool_fill mn mx {}\<rparr>"

definition NumPool_new_named :: "string \<Rightarrow> int32 \<Rightarrow> int32 \<Rightarrow> NumPool" where
  "NumPool_new_named nm mn mx = (NumPool_new mn mx)\<lparr>pool_name := nm\<rparr>"

definition Allocate :: "NumPool \<Rightarrow> int32 \<times> NumPool" where
  "Allocate np =
     (if pool np = {} then (-1, np)
      else let num = Min (pool np) in (num, np\<lparr>pool := pool np - {num}\<rparr>))"

definition Take :: "NumPool \<Rightarrow> int32 \<Rightarrow> bool \<times> NumPool" where
  "Take np num =
     (if num \<notin> pool np then (False, np) else (True, np\<lparr>pool := pool np - {num}\<rparr>))"

text \<open>
  \<^verbatim>\<open>Utils::RandomNumber(size)\<close> is a library function: the parameter \<open>random_number\<close>. An
  index at or beyond the size would advance the iterator past the end.
\<close>

definition AllocateRandom :: "(uint32 \<Rightarrow> uint32) \<Rightarrow> NumPool \<Rightarrow> (int32 \<times> NumPool) checked" where
  "AllocateRandom random_number np =
     (let sz = of_nat (card (pool np)) :: uint32
      in if sz = 0 then Inr (-1, np)
         else let index = unat (random_number sz); xs = sorted_list_of_set (pool np)
              in if index < length xs
                 then Inr (int32_of_uint32 (word_of_int (xs ! index)), np\<lparr>pool := pool np - {xs ! index}\<rparr>)
                 else Inl (Undefined_behaviour ''iterator advanced past the end''))"

definition Release :: "NumPool \<Rightarrow> int32 \<Rightarrow> NumPool" where
  "Release np num = np\<lparr>pool := insert num (pool np)\<rparr>"

section \<open>The contract of a pool\<close>

text \<open>
  What the users of a pool rely on. \<open>free\<close> is the set of numbers in the pool; an
  allocation hands out a number that was free and is free no longer, or fails with a
  negative number when nothing is left.
\<close>

locale id_pool =
  fixes invar :: "'p \<Rightarrow> bool"
    and free :: "'p \<Rightarrow> int32 set"
    and alloc :: "'p \<Rightarrow> int32 \<times> 'p"
    and take_num :: "'p \<Rightarrow> int32 \<Rightarrow> bool \<times> 'p"
    and release :: "'p \<Rightarrow> int32 \<Rightarrow> 'p"
  assumes alloc_some: "invar p \<Longrightarrow> alloc p = (i, p') \<Longrightarrow> 0 \<le> i \<Longrightarrow>
      i \<in> free p \<and> free p' = free p - {i} \<and> invar p'"
    and alloc_none: "invar p \<Longrightarrow> alloc p = (i, p') \<Longrightarrow> i < 0 \<Longrightarrow> free p = {} \<and> p' = p"
    and take_spec: "invar p \<Longrightarrow> take_num p i = (ok, p') \<Longrightarrow>
      ok = (i \<in> free p) \<and> free p' = free p - {i} \<and> invar p'"
    and release_spec: "invar p \<Longrightarrow> 0 \<le> i \<Longrightarrow> free (release p i) = insert i (free p) \<and> invar (release p i)"
begin

text \<open>The numbers in use and the free ones partition the range, whatever happens.\<close>

lemma alloc_partition:
  assumes "invar p" "free p \<inter> used = {}" "free p \<union> used = R" "alloc p = (i, p')" "0 \<le> i"
  shows "i \<notin> used" "free p' \<inter> insert i used = {}" "free p' \<union> insert i used = R" "invar p'"
  using alloc_some [OF assms(1,4,5)] assms(2,3) by auto

lemma take_partition:
  assumes "invar p" "free p \<inter> used = {}" "free p \<union> used = R" "take_num p i = (True, p')"
  shows "i \<notin> used" "free p' \<inter> insert i used = {}" "free p' \<union> insert i used = R" "invar p'"
  using take_spec [OF assms(1,4)] assms(2,3) by auto

lemma release_partition:
  assumes "invar p" "free p \<inter> used = {}" "free p \<union> used = R" "i \<in> used" "0 \<le> i"
  shows "free (release p i) \<inter> (used - {i}) = {}" "free (release p i) \<union> (used - {i}) = R"
    "invar (release p i)"
  using release_spec [OF assms(1,5)] assms(2-4) by auto

lemma release_then_take:
  assumes "invar p" "0 \<le> i"
  shows "fst (take_num (release p i) i)"
  using take_spec [of "release p i" i] release_spec [OF assms]
  by (metis insertI1 prod.collapse)

lemma alloc_fails_iff: "invar p \<Longrightarrow> (\<And>i. i \<in> free p \<Longrightarrow> 0 \<le> i) \<Longrightarrow> fst (alloc p) < 0 \<longleftrightarrow> free p = {}"
  by (metis alloc_none alloc_some empty_iff not_le prod.collapse)

end

section \<open>The pool keeps the contract\<close>

definition pool_wf :: "NumPool \<Rightarrow> bool" where
  "pool_wf np \<longleftrightarrow> finite (pool np) \<and> (\<forall>i \<in> pool np. 0 \<le> i)"

lemma pool_fill_eq: "pool_fill i mx s = s \<union> {i..mx}"
proof (induction i mx s rule: pool_fill.induct)
  case (1 i mx s)
  have "{i..mx} = (if i \<le> mx then insert i {i + 1..mx} else {})" by auto
  with 1 show ?case
    by (subst pool_fill.simps) simp
qed

lemma pool_NumPool_new [simp]: "pool (NumPool_new mn mx) = {mn..mx}"
  by (simp add: NumPool_new_def pool_fill_eq)

lemma pool_wf_new: "0 \<le> mn \<Longrightarrow> pool_wf (NumPool_new mn mx)"
  by (simp add: pool_wf_def)

lemma Allocate_smallest:
  assumes "finite (pool np)" "pool np \<noteq> {}"
  shows "Allocate np = (Min (pool np), np\<lparr>pool := pool np - {Min (pool np)}\<rparr>)"
  using assms by (simp add: Allocate_def Let_def)

interpretation num_pool: id_pool pool_wf pool Allocate Take Release
proof
  fix p :: NumPool and i p'
  assume p: "pool_wf p" "Allocate p = (i, p')"
  {
    assume "0 \<le> i"
    then have "pool p \<noteq> {}" using p(2) by (auto simp: Allocate_def)
    with p show "i \<in> pool p \<and> pool p' = pool p - {i} \<and> pool_wf p'"
      using Min_in [of "pool p"] by (auto simp: Allocate_smallest pool_wf_def)
  next
    assume "i < 0"
    then have "i \<notin> pool p" using p(1) by (force simp: pool_wf_def)
    have "pool p = {}"
    proof (rule ccontr)
      assume ne: "pool p \<noteq> {}"
      with p have "i = Min (pool p)" by (simp add: Allocate_smallest pool_wf_def)
      with ne p(1) \<open>i \<notin> pool p\<close> show False by (simp add: pool_wf_def)
    qed
    with p(2) show "pool p = {} \<and> p' = p" by (simp add: Allocate_def)
  }
next
  fix p :: NumPool and i ok p'
  assume "pool_wf p" "Take p i = (ok, p')"
  then show "ok = (i \<in> pool p) \<and> pool p' = pool p - {i} \<and> pool_wf p'"
    by (auto simp: Take_def pool_wf_def split: if_splits)
qed (auto simp: Release_def pool_wf_def)

lemma AllocateRandom_spec:
  assumes "finite (pool np)" "pool np \<noteq> {}" "card (pool np) < 4294967296"
    and "\<forall>n. 0 < n \<longrightarrow> random_number n < n"
    and "\<forall>i \<in> pool np. 0 \<le> i \<and> i < 2147483648"
  shows "\<exists>i \<in> pool np. AllocateRandom random_number np = Inr (i, np\<lparr>pool := pool np - {i}\<rparr>)"
proof -
  let ?sz = "of_nat (card (pool np)) :: uint32" and ?xs = "sorted_list_of_set (pool np)"
  have sz: "unat ?sz = card (pool np)" using assms(3) by (rule unat_of_nat_u32)
  then have "0 < ?sz" using assms(1,2) by (simp add: word_less_nat_alt card_gt_0_iff)
  then have "unat (random_number ?sz) < card (pool np)"
    using assms(4) sz by (metis word_less_nat_alt)
  then have idx: "unat (random_number ?sz) < length ?xs" by simp
  let ?i = "?xs ! unat (random_number ?sz)"
  have mem: "?i \<in> pool np" using nth_mem [OF idx] assms(1) by simp
  have bound: "0 \<le> ?i" "?i < 2147483648" using assms(5) mem by blast+
  then have "int32_of_uint32 (word_of_int ?i) = ?i" by (intro int32_roundtrip) simp_all
  then show ?thesis
    using idx mem \<open>0 < ?sz\<close> by (auto simp: AllocateRandom_def Let_def)
qed

section \<open>Who owns which number\<close>

text \<open>
  The pool together with the numbers its clients hold. A client gets a number by one of
  the three allocating operations and gives back only a number it holds; any two such
  operations may follow each other.
\<close>

inductive pool_step ::
  "(uint32 \<Rightarrow> uint32) \<Rightarrow> NumPool \<times> int32 set \<Rightarrow> NumPool \<times> int32 set \<Rightarrow> bool"
  for random_number where
  allocate: "Allocate np = (i, np') \<Longrightarrow>
    pool_step random_number (np, used) (np', if 0 \<le> i then insert i used else used)"
| take_number: "Take np i = (ok, np') \<Longrightarrow>
    pool_step random_number (np, used) (np', if ok then insert i used else used)"
| allocate_random: "AllocateRandom random_number np = Inr (i, np') \<Longrightarrow>
    pool_step random_number (np, used) (np', if 0 \<le> i then insert i used else used)"
| release: "i \<in> used \<Longrightarrow> pool_step random_number (np, used) (Release np i, used - {i})"

definition pool_init :: "int32 \<Rightarrow> int32 \<Rightarrow> NumPool \<times> int32 set \<Rightarrow> bool" where
  "pool_init mn mx s \<longleftrightarrow> 0 \<le> mn \<and> mx < 2147483648 \<and> s = (NumPool_new mn mx, {})"

definition pool_partition :: "int32 set \<Rightarrow> NumPool \<times> int32 set \<Rightarrow> bool" where
  "pool_partition R s \<longleftrightarrow> pool_wf (fst s) \<and> (\<forall>i \<in> R. 0 \<le> i \<and> i < 2147483648) \<and>
     pool (fst s) \<inter> snd s = {} \<and> pool (fst s) \<union> snd s = R"

lemma AllocateRandom_cases:
  assumes "AllocateRandom random_number np = Inr (i, np')" "finite (pool np)"
    and "\<forall>j \<in> pool np. 0 \<le> j \<and> j < 2147483648"
  shows "i = -1 \<and> np' = np \<or> i \<in> pool np \<and> np' = np\<lparr>pool := pool np - {i}\<rparr>"
proof -
  let ?xs = "sorted_list_of_set (pool np)"
  have "int32_of_uint32 (word_of_int (?xs ! k)) = ?xs ! k \<and> ?xs ! k \<in> pool np"
    if "k < length ?xs" for k
    using nth_mem [OF that] assms(2,3) by (auto intro!: int32_roundtrip)
  with assms(1) show ?thesis
    by (auto simp: AllocateRandom_def Let_def split: if_splits)
qed

lemma pool_step_partition:
  assumes "pool_partition R s" "pool_step random_number s t"
  shows "pool_partition R t"
  using assms(2,1)
proof cases
  case (allocate np i np' used)
  then show ?thesis
    using assms(1) num_pool.alloc_partition [of np used R i np'] num_pool.alloc_none [of np i np']
    by (auto simp: pool_partition_def)
next
  case (take_number np i ok np' used)
  then show ?thesis
    using assms(1) num_pool.take_partition [of np used R i np'] num_pool.take_spec [of np i ok np']
    by (cases ok) (auto simp: pool_partition_def)
next
  case (allocate_random np i np' used)
  then have "i = -1 \<and> np' = np \<or> i \<in> pool np \<and> np' = np\<lparr>pool := pool np - {i}\<rparr>"
    using assms(1) by (intro AllocateRandom_cases) (auto simp: pool_partition_def pool_wf_def)
  with allocate_random assms(1) show ?thesis
    by (auto simp: pool_partition_def pool_wf_def)
next
  case (release i used np)
  then show ?thesis
    using assms(1) num_pool.release_partition [of np used R i] by (auto simp: pool_partition_def)
qed

interpretation pool_owners:
  invariant_system "pool_init mn mx" "pool_step random_number" "pool_partition {mn..mx}"
proof
  show "pool_partition {mn..mx} s" if "pool_init mn mx s" for s
    using that by (auto simp: pool_init_def pool_partition_def pool_wf_def)
qed (rule pool_step_partition)

text \<open>
  C20. However the operations of a pool over \<open>mn..mx\<close> interleave, and whatever the random
  numbers are, the numbers in the pool and the numbers held by clients split the range
  exactly: nothing is held twice, nothing is lost. So the next number handed out by
  \<^verbatim>\<open>Allocate\<close> is the smallest one nobody holds, \<open>-1\<close> exactly when all are held, and a
  \<^verbatim>\<open>Take\<close> succeeds exactly for a number of the range that nobody holds.
\<close>

theorem pool_numbers_have_one_owner:
  assumes "0 \<le> mn" "mx < 2147483648"
    and "(pool_step random_number)\<^sup>*\<^sup>* (NumPool_new mn mx, {}) (np, used)"
  shows "pool np = {mn..mx} - used \<and> used \<subseteq> {mn..mx} \<and>
    fst (Allocate np) = (if used = {mn..mx} then -1 else Min ({mn..mx} - used)) \<and>
    fst (Take np i) = (i \<in> {mn..mx} \<and> i \<notin> used)"
proof -
  have "pool_partition {mn..mx} (np, used)"
    using assms by (intro pool_owners.reachable_inv [of mn mx]) (auto simp: pool_init_def)
  then have *: "pool np = {mn..mx} - used" "used \<subseteq> {mn..mx}"
    by (auto simp: pool_partition_def)
  then have "pool np = {} \<longleftrightarrow> used = {mn..mx}" by auto
  with * show ?thesis by (auto simp: Allocate_def Take_def Let_def)
qed

theorem pool_numbers_have_one_owner_witness:
  "fst (Allocate ((NumPool_new 3 5)\<lparr>pool := {4, 5}\<rparr>)) = 4"
proof -
  have "{3..5} = {3, 4, 5 :: int}" by auto
  then have fresh: "NumPool_new 3 5 = \<lparr>pool_name = [], pool = {3, 4, 5}\<rparr>"
    by (simp add: NumPool_new_def pool_fill_eq)
  have "Allocate (NumPool_new 3 5) = (3, (NumPool_new 3 5)\<lparr>pool := {4, 5}\<rparr>)"
    by (simp add: Allocate_def fresh)
  then have "pool_step id (NumPool_new 3 5, {}) ((NumPool_new 3 5)\<lparr>pool := {4, 5}\<rparr>, {3})"
    using pool_step.allocate [of "NumPool_new 3 5" 3 _ id "{}"] by simp
  then have "fst (Allocate ((NumPool_new 3 5)\<lparr>pool := {4, 5}\<rparr>)) = Min ({3..5} - {3})"
    using pool_numbers_have_one_owner [of 3 5 id _ "{3}"]
    by (auto simp: \<open>{3..5} = {3, 4, 5}\<close>)
  then show ?thesis by (simp add: \<open>{3..5} = {3, 4, 5}\<close>)
qed

end
