(* ===== verification/Host_Model.thy ===== *)
theory Host_Model
  imports Tcp_Controller Num_Pool
begin

text \<open>
  \<^verbatim>\<open>Host.h\<close>/\<^verbatim>\<open>Host.cc\<close>: the host with its open file table, connections, listeners and ports,
  and the system calls of a process. Controllers live at addresses: \<open>tcp_objects\<close> is the
  heap of live controllers, \<open>connections\<close> the map that owns them by key. An open file id is
  never given back to its pool, so it also names the open file object in memory: a
  \<^verbatim>\<open>Socket*\<close> is an id, and the socket is alive while the id is in the table.
\<close>

section \<open>State\<close>

definition kMinFd :: int32 where "kMinFd = 3"
definition kMaxFd :: int32 where "kMaxFd = 63"
definition kMinOpenFileId :: int32 where "kMinOpenFileId = 0"
definition kMaxOpenFileId :: int32 where "kMaxOpenFileId = 255"
definition kMinPort :: int32 where "kMinPort = 0"
definition kMaxPort :: int32 where "kMaxPort = 127"

record Process =
  proc_name :: string
  fd_pool :: NumPool
  fd_table :: "int32 \<rightharpoonup> int32"

definition Process_new :: "string \<Rightarrow> Process" where
  "Process_new name = \<lparr>proc_name = name, fd_pool = NumPool_new kMinFd kMaxFd, fd_table = Map.empty\<rparr>"

record 'b Host =
  host_name :: string
  local_ip_address :: string
  processes :: "string \<rightharpoonup> Process"
  running :: "string list"          \<comment> \<open>processes handed to the thread pool\<close>
  recv_pkt_queue :: PacketQueue
  send_pkt_queue :: PacketQueue
  open_file_id_pool :: NumPool
  open_files_table :: "int32 \<rightharpoonup> KernelOpenFile"
  connections :: "TcpControllerKey \<rightharpoonup> tcp_ptr"
  tcp_objects :: "tcp_ptr \<rightharpoonup> 'b TcpController"
  next_tcp :: tcp_ptr
  listeners :: "LocalLayerThreeKey \<rightharpoonup> int32 list"
  port_pool :: NumPool
  pool_started :: bool              \<comment> \<open>whether the thread pool runs its tasks\<close>

text \<open>The ids and ports that \<^verbatim>\<open>Initialize\<close> makes available.\<close>

definition Host_Initialize :: "'b Host \<Rightarrow> 'b Host" where
  "Host_Initialize h = h\<lparr>open_file_id_pool := NumPool_new kMinOpenFileId kMaxOpenFileId,
     port_pool := NumPool_new kMinPort kMaxPort\<rparr>"

text \<open>The two listeners are the first tasks of the thread pool; the null pools are overwritten at once.\<close>

definition Host_new :: "string \<Rightarrow> string \<Rightarrow> 'b Host" where
  "Host_new name ip = Host_Initialize \<lparr>host_name = name, local_ip_address = ip, processes = Map.empty, running = [],
     recv_pkt_queue = PacketQueue_new, send_pkt_queue = PacketQueue_new,
     open_file_id_pool = \<lparr>pool_name = [], pool = {}\<rparr>, open_files_table = Map.empty,
     connections = Map.empty, tcp_objects = Map.empty, next_tcp = 0, listeners = Map.empty,
     port_pool = \<lparr>pool_name = [], pool = {}\<rparr>, pool_started = False\<rparr>"

lemma Host_new_eq:
  "Host_new name ip = \<lparr>host_name = name, local_ip_address = ip, processes = Map.empty, running = [],
     recv_pkt_queue = PacketQueue_new, send_pkt_queue = PacketQueue_new,
     open_file_id_pool = NumPool_new kMinOpenFileId kMaxOpenFileId, open_files_table = Map.empty,
     connections = Map.empty, tcp_objects = Map.empty, next_tcp = 0, listeners = Map.empty,
     port_pool = NumPool_new kMinPort kMaxPort, pool_started = False\<rparr>"
  by (simp add: Host_new_def Host_Initialize_def)

definition RunForever :: "'b Host \<Rightarrow> 'b Host" where
  "RunForever h = h\<lparr>pool_started := True\<rparr>"

text \<open>The destructor stops both queues; each call waits for the threads that are reading.\<close>

definition Host_delete :: "'b Host \<Rightarrow> unit waits \<times> 'b Host" where
  "Host_delete h =
     (case Stop (recv_pkt_queue h) of
        (Blocks, q) \<Rightarrow> (Blocks, h\<lparr>recv_pkt_queue := q\<rparr>)
      | (Returns _, q) \<Rightarrow>
          let (r, q2) = Stop (send_pkt_queue h) in (r, h\<lparr>recv_pkt_queue := q, send_pkt_queue := q2\<rparr>))"

definition CreateProcess :: "string \<Rightarrow> 'b Host \<Rightarrow> bool \<times> 'b Host" where
  "CreateProcess name h =
     (True, h\<lparr>processes := (if name \<in> dom (processes h) then processes h
                            else (processes h)(name \<mapsto> Process_new name)),
              running := running h @ [name]\<rparr>)"

text \<open>\<^verbatim>\<open>emplace\<close> keeps an entry that is already there.\<close>

definition emplace :: "('k \<rightharpoonup> 'v) \<Rightarrow> 'k \<Rightarrow> 'v \<Rightarrow> ('k \<rightharpoonup> 'v)" where
  "emplace m k v = (if k \<in> dom m then m else m(k \<mapsto> v))"

text \<open>Following a pointer to a controller, and storing the controller back.\<close>

definition deref :: "'b Host \<Rightarrow> tcp_ptr option \<Rightarrow> 'b TcpController checked" where
  "deref h p =
     (case p of None \<Rightarrow> Inl (Null_pointer ''tcp_con'')
      | Some a \<Rightarrow> (case tcp_objects h a of None \<Rightarrow> Inl (Dangling_pointer ''tcp_con'') | Some c \<Rightarrow> Inr c))"

definition store_tcp :: "tcp_ptr \<Rightarrow> 'b TcpController \<Rightarrow> 'b Host \<Rightarrow> 'b Host" where
  "store_tcp a c h = h\<lparr>tcp_objects := (tcp_objects h)(a \<mapsto> c)\<rparr>"

definition set_socket :: "int32 \<Rightarrow> Socket \<Rightarrow> 'b Host \<Rightarrow> 'b Host" where
  "set_socket fid s h =
     (case open_files_table h fid of None \<Rightarrow> h
      | Some f \<Rightarrow> h\<lparr>open_files_table := (open_files_table h)(fid \<mapsto> f\<lparr>socket := s\<rparr>)\<rparr>)"

section \<open>The open file table\<close>

definition GetSocket :: "'b Host \<Rightarrow> int32 \<Rightarrow> Socket option" where
  "GetSocket h fid =
     (case open_files_table h fid of None \<Rightarrow> None
      | Some f \<Rightarrow> if file_type f \<noteq> SOCKET then None else Some (socket f))"

definition GetSocketLocalBound :: "'b Host \<Rightarrow> int32 \<Rightarrow> LocalLayerThreeKey option" where
  "GetSocketLocalBound h fid =
     (case GetSocket h fid of None \<Rightarrow> None
      | Some s \<Rightarrow> if \<not> isBound s then None else Some (local_bound s))"

definition ReleasePort :: "uint32 \<Rightarrow> 'b Host \<Rightarrow> 'b Host" where
  "ReleasePort port h = h\<lparr>port_pool := Release (port_pool h) (int32_of_uint32 port)\<rparr>"

definition CreateNewSocket :: "'b Host \<Rightarrow> int32 \<times> 'b Host" where
  "CreateNewSocket h =
     (let (fid, pl) = Allocate (open_file_id_pool h); h1 = h\<lparr>open_file_id_pool := pl\<rparr>
      in if fid < 0 then (-1, h1)
         else let table = emplace (open_files_table h1) fid (KernelOpenFile_new SOCKET)
              in (fid, h1\<lparr>open_files_table := table(fid \<mapsto> IncRef (the (table fid)))\<rparr>))"

definition IncOpenFileRef :: "int32 \<Rightarrow> 'b Host \<Rightarrow> int32 \<times> 'b Host" where
  "IncOpenFileRef fid h =
     (case open_files_table h fid of None \<Rightarrow> (0, h)
      | Some f \<Rightarrow> (Refs (IncRef f), h\<lparr>open_files_table := (open_files_table h)(fid \<mapsto> IncRef f)\<rparr>))"

definition DecOpenFileRef :: "int32 \<Rightarrow> 'b Host \<Rightarrow> (int32 \<times> 'b Host) checked" where
  "DecOpenFileRef fid h =
     (case open_files_table h fid of None \<Rightarrow> Inr (-1, h)
      | Some f \<Rightarrow>
          if Refs f \<le> 1 then
            let s = socket f
            in bindR
                 (case tcp_con s of
                    Some a \<Rightarrow> bindR (deref h (Some a)) (\<lambda>c.
                      let c1 = (if isBound s then SetReleasePort True c else c)
                      in Inr (store_tcp a (snd (TryClose c1)) h))
                  | None \<Rightarrow> Inr (if isBound s then ReleasePort (word_of_int (local_port (local_bound s))) h else h))
                 (\<lambda>h1. Inr (0, h1\<lparr>open_files_table := (open_files_table h1)(fid := None)\<rparr>))
          else Inr (Refs (DecRef f), h\<lparr>open_files_table := (open_files_table h)(fid \<mapsto> DecRef f)\<rparr>))"

section \<open>Destroying connections\<close>

text \<open>
  \<^verbatim>\<open>TcpController::TearDown\<close> with its effects on the host: the queues are stopped, the
  socket is detached through a pointer that must still be valid, the pool's threads are
  awaited, which ends only if the shutdown flag is set, and the port is released.
\<close>

definition DetachSocket :: "int32 \<Rightarrow> 'b Host \<Rightarrow> 'b Host checked" where
  "DetachSocket fid h =
     (case open_files_table h fid of None \<Rightarrow> Inl (Dangling_pointer ''socket_'')
      | Some f \<Rightarrow> Inr (set_socket fid ((socket f)\<lparr>tcp_con := None\<rparr>) h))"

definition TearDown :: "tcp_ptr \<Rightarrow> 'b Host \<Rightarrow> 'b Host waits checked" where
  "TearDown a h =
     bindR (deref h (Some a)) (\<lambda>c.
       case TearDown_queues c of
         (Blocks, c1) \<Rightarrow> Inr Blocks
       | (Returns _, c1) \<Rightarrow>
           bindR (DetachSocket (tcp_socket c1) (store_tcp a c1 h)) (\<lambda>h1.
             if \<not> shutdown_flag c1 then Inl (Diverges ''AwaitTermination of running listeners'')
             else Inr (Returns (if release_port c1
                                then ReleasePort (word_of_int (key_dest_port (tcp_key c1))) h1 else h1))))"

text \<open>Erasing a connection destroys the controller, whose destructor tears it down.\<close>

definition DeleteTcpConnection :: "TcpControllerKey \<Rightarrow> 'b Host \<Rightarrow> 'b Host waits checked" where
  "DeleteTcpConnection key h =
     (case connections h key of None \<Rightarrow> Inr (Returns h)
      | Some a \<Rightarrow>
          bindR (TearDown a h) (\<lambda>r. case r of
              Blocks \<Rightarrow> Inr Blocks
            | Returns h1 \<Rightarrow> Inr (Returns (h1\<lparr>connections := (connections h1)(key := None),
                                          tcp_objects := (tcp_objects h1)(a := None)\<rparr>))))"

text \<open>The detached thread of \<^verbatim>\<open>CloseAndDelete\<close>.\<close>

definition shut_down_thread :: "tcp_ptr \<Rightarrow> 'b Host \<Rightarrow> 'b Host waits checked" where
  "shut_down_thread a h =
     bindR (TearDown a h) (\<lambda>r. case r of
         Blocks \<Rightarrow> Inr Blocks
       | Returns h1 \<Rightarrow> bindR (deref h1 (Some a)) (\<lambda>c. DeleteTcpConnection (tcp_key c) h1))"

definition DeleteSocketAndConnection :: "int32 \<Rightarrow> 'b Host \<Rightarrow> 'b Host waits checked" where
  "DeleteSocketAndConnection fid h =
     (case open_files_table h fid of None \<Rightarrow> Inr (Returns h)
      | Some f \<Rightarrow>
          bindR (case tcp_con (socket f) of None \<Rightarrow> Inr TcpControllerKey_default
                 | Some a \<Rightarrow> bindR (deref h (Some a)) (\<lambda>c. Inr (tcp_key c))) (\<lambda>key.
            let h1 = h\<lparr>open_files_table := (open_files_table h)(fid := None)\<rparr>
            in if key_dest_ip key \<noteq> [] \<and> key_dest_port key > 0 then DeleteTcpConnection key h1
               else Inr (Returns h1)))"

text \<open>
  \<^verbatim>\<open>connections_.emplace(key, MakeUnique<TcpController>(...))\<close>: a second controller for a key
  that is taken is destroyed at once.
\<close>

definition emplace_connection ::
  "TcpControllerKey \<Rightarrow> 'b TcpController \<Rightarrow> 'b Host \<Rightarrow> 'b Host waits checked" where
  "emplace_connection key c h =
     (let a = next_tcp h;
          h1 = h\<lparr>tcp_objects := (tcp_objects h)(a \<mapsto> c), next_tcp := Suc a\<rparr>
      in if key \<in> dom (connections h1) then
           bindR (TearDown a h1) (\<lambda>r. case r of
               Blocks \<Rightarrow> Inr Blocks
             | Returns h2 \<Rightarrow> Inr (Returns (h2\<lparr>tcp_objects := (tcp_objects h2)(a := None)\<rparr>)))
         else Inr (Returns (h1\<lparr>connections := (connections h1)(key \<mapsto> a)\<rparr>)))"

section \<open>Implementation of the system calls\<close>

definition SocketBind :: "int32 \<Rightarrow> string \<Rightarrow> uint32 \<Rightarrow> 'b Host \<Rightarrow> bool \<times> 'b Host" where
  "SocketBind fid ip port h =
     (case GetSocket h fid of None \<Rightarrow> (False, h)
      | Some s \<Rightarrow>
          if isBound s then (False, h)
          else let (taken_port, pl) = Take (port_pool h) (int32_of_uint32 port)
               in if \<not> taken_port then (False, h)
                  else (True, set_socket fid (Socket_Bind_addr s ip port) (h\<lparr>port_pool := pl\<rparr>)))"

definition SocketListen :: "int32 \<Rightarrow> 'b Host \<Rightarrow> bool \<times> 'b Host" where
  "SocketListen fid h =
     (case GetSocketLocalBound h fid of None \<Rightarrow> (False, h)
      | Some key \<Rightarrow> (True, h\<lparr>listeners := emplace (listeners h) key []\<rparr>))"

text \<open>A socket that is not bound makes \<^verbatim>\<open>SocketAccept\<close> return \<^verbatim>\<open>false\<close>, the number zero.\<close>

definition SocketAccept :: "int32 \<Rightarrow> 'b Host \<Rightarrow> (int32 \<times> 'b Host) waits" where
  "SocketAccept fid h =
     (case GetSocketLocalBound h fid of None \<Rightarrow> Returns (0, h)
      | Some key \<Rightarrow>
          (case listeners h key of None \<Rightarrow> Returns (-1, h)
           | Some [] \<Rightarrow> Blocks
           | Some (f # fs) \<Rightarrow> Returns (f, h\<lparr>listeners := (listeners h)(key \<mapsto> fs)\<rparr>)))"

definition bind_for_connect ::
  "(uint32 \<Rightarrow> uint32) \<Rightarrow> int32 \<Rightarrow> 'b Host \<Rightarrow> (LocalLayerThreeKey \<times> 'b Host) checked" where
  "bind_for_connect random_number fid h =
     (case GetSocket h fid of None \<Rightarrow> Inl (Null_pointer ''socket'')
      | Some s \<Rightarrow>
          if isBound s then Inr (local_bound s, h)
          else bindR (AllocateRandom random_number (port_pool h)) (\<lambda>(port, pl).
                 let key = LocalLayerThreeKey_new (local_ip_address h) port
                 in Inr (key, set_socket fid (Socket_Bind s key) (h\<lparr>port_pool := pl\<rparr>))))"

text \<open>\<^verbatim>\<open>connections_.at(key)\<close>, and the change of the controller found there.\<close>

definition connection_at :: "TcpControllerKey \<Rightarrow> 'b Host \<Rightarrow> tcp_ptr checked" where
  "connection_at key h =
     (case connections h key of None \<Rightarrow> Inl (Out_of_range ''connections_.at'') | Some a \<Rightarrow> Inr a)"

definition attach_tcp :: "int32 \<Rightarrow> tcp_ptr \<Rightarrow> 'b Host \<Rightarrow> 'b Host" where
  "attach_tcp fid a h =
     (case open_files_table h fid of None \<Rightarrow> h
      | Some f \<Rightarrow> set_socket fid ((socket f)\<lparr>tcp_con := Some a\<rparr>) h)"

definition SocketConnect ::
  "'b ring_ops \<Rightarrow> (uint32 \<Rightarrow> uint32) \<Rightarrow> bool \<Rightarrow> int32 \<Rightarrow> string \<Rightarrow> uint32 \<Rightarrow> 'b Host \<Rightarrow>
   (bool \<times> 'b Host) waits checked" where
  "SocketConnect ops random_number shutdown0 fid remote_ip remote_port h =
     bindR (bind_for_connect random_number fid h) (\<lambda>(local_key, h1).
       let key = TcpControllerKey_new remote_ip (int32_of_uint32 remote_port)
                   (local_ip local_key) (local_port local_key);
           opts = GetDefaultOptions\<lparr>send_window_base := 0\<rparr>
       in bindR (emplace_connection key (TcpController_new ops shutdown0 fid key opts) h1) (\<lambda>r.
            case r of Blocks \<Rightarrow> Inr Blocks
            | Returns h2 \<Rightarrow>
                bindR (connection_at key h2) (\<lambda>a.
                  let h3 = attach_tcp fid a h2
                  in bindR (deref h3 (Some a)) (\<lambda>c.
                     bindR (TryConnect ops c) (\<lambda>(re, c').
                       let h4 = store_tcp a c' h3
                       in Inr (Returns
                            (if \<not> re then (False, h4\<lparr>port_pool := Release (port_pool h4) (local_port local_key)\<rparr>)
                             else (True, h4))))))))"

definition Host_ReadData ::
  "'b ring_ops \<Rightarrow> int32 \<Rightarrow> int32 \<Rightarrow> 'b Host \<Rightarrow> ((int32 \<times> byte list) \<times> 'b Host) waits checked" where
  "Host_ReadData ops fid sz h =
     (case GetSocket h fid of None \<Rightarrow> Inr (Returns ((-1, []), h))
      | Some s \<Rightarrow>
          bindR (deref h (tcp_con s)) (\<lambda>c.
          bindR (ReadData ops c sz) (\<lambda>r. case r of
              Blocks \<Rightarrow> Inr Blocks
            | Returns (v, c') \<Rightarrow> Inr (Returns (v, store_tcp (the (tcp_con s)) c' h)))))"

definition Host_WriteData ::
  "'b ring_ops \<Rightarrow> int32 \<Rightarrow> byte list \<Rightarrow> int32 \<Rightarrow> 'b Host \<Rightarrow> (int32 \<times> 'b Host) waits checked" where
  "Host_WriteData ops fid buf sz h =
     (case GetSocket h fid of None \<Rightarrow> Inr (Returns (-1, h))
      | Some s \<Rightarrow>
          if sock_state s = SHUTDOWN then Inr (Returns (-1, h))
          else case tcp_con s of None \<Rightarrow> Inr (Returns (-2, h))
          | Some a \<Rightarrow> bindR (deref h (Some a)) (\<lambda>c.
              case WriteData ops c buf sz of
                Blocks \<Rightarrow> Inr Blocks
              | Returns (v, c') \<Rightarrow> Inr (Returns (v, store_tcp a c' h))))"

text \<open>A socket that is not found makes \<^verbatim>\<open>ShutDownSocket\<close> return -1, which is \<^verbatim>\<open>true\<close>.\<close>

definition ShutDownSocket :: "int32 \<Rightarrow> 'b Host \<Rightarrow> (bool \<times> 'b Host) checked" where
  "ShutDownSocket fid h =
     (case GetSocket h fid of None \<Rightarrow> Inr (True, h)
      | Some s \<Rightarrow>
          if sock_state s = SHUTDOWN then Inr (True, h)
          else
            let h1 = set_socket fid (s\<lparr>sock_state := SHUTDOWN\<rparr>) h
            in bindR (deref h1 (tcp_con s)) (\<lambda>c.
                 let (re, c') = TryShutDown c
                 in Inr (re, store_tcp (the (tcp_con s)) c' h1)))"

section \<open>Packets\<close>

definition MovePacketsFromChannel :: "Packet list \<Rightarrow> 'b Host \<Rightarrow> ('b Host \<times> Packet list) checked" where
  "MovePacketsFromChannel pkts h =
     (let (_, q, rest) = PushAll (recv_pkt_queue h) pkts
      in bindR (guardR (rest = []) (Sanity_check ''packets_to_receive not emptied''))
           (\<lambda>_. Inr (h\<lparr>recv_pkt_queue := q\<rparr>, rest)))"

definition MultiplexPacketsFromTcp :: "Packet list \<Rightarrow> 'b Host \<Rightarrow> 'b Host checked" where
  "MultiplexPacketsFromTcp pkts h =
     (let (_, q, rest) = PushAll (send_pkt_queue h) pkts
      in bindR (guardR (rest = []) (Sanity_check ''packets_to_send not emptied!''))
           (\<lambda>_. Inr (h\<lparr>send_pkt_queue := q\<rparr>)))"

text \<open>The key under which the host looks up a packet's connection.\<close>

definition packet_key :: "Packet \<Rightarrow> TcpControllerKey" where
  "packet_key pkt =
     TcpControllerKey_new (dest_ip (ip_header pkt)) (int32_of_uint16 (dest_port (tcp_header pkt)))
       (source_ip (ip_header pkt)) (int32_of_uint16 (source_port (tcp_header pkt)))"

definition listener_key :: "Packet \<Rightarrow> LocalLayerThreeKey" where
  "listener_key pkt =
     LocalLayerThreeKey_new (source_ip (ip_header pkt)) (int32_of_uint16 (source_port (tcp_header pkt)))"

definition SendBackRST :: "TcpControllerKey \<Rightarrow> 'b Host \<Rightarrow> 'b Host" where
  "SendBackRST key h =
     h\<lparr>send_pkt_queue := snd (Push (send_pkt_queue h)
          (Packet_headers (key_ip_header key) ((key_tcp_header key)\<lparr>rst := True\<rparr>)))\<rparr>"

definition deliver_to :: "tcp_ptr \<Rightarrow> Packet \<Rightarrow> 'b Host \<Rightarrow> 'b Host checked" where
  "deliver_to a pkt h = bindR (deref h (Some a)) (\<lambda>c. Inr (store_tcp a (ReceiveNewPacket pkt c) h))"

definition HandleNewConnection ::
  "'b ring_ops \<Rightarrow> bool \<Rightarrow> Packet \<Rightarrow> 'b Host \<Rightarrow> (bool \<times> 'b Host) waits checked" where
  "HandleNewConnection ops shutdown0 pkt h =
     (if \<not> sync (tcp_header pkt) then Inr (Returns (False, h))
      else case listeners h (listener_key pkt) of None \<Rightarrow> Inr (Returns (False, h))
      | Some _ \<Rightarrow>
          let key = packet_key pkt; (fid, h1) = CreateNewSocket h
          in if fid < 0 then Inr (Returns (False, h1))
             else
               let opts = GetDefaultOptions\<lparr>recv_window_base := pkt_seq pkt\<rparr>
               in bindR (emplace_connection key (TcpController_new ops shutdown0 fid key opts) h1) (\<lambda>r.
                    case r of Blocks \<Rightarrow> Inr Blocks
                    | Returns h2 \<Rightarrow>
                        bindR (connection_at key h2) (\<lambda>a.
                        bindR (Copy pkt) (\<lambda>copy.
                        bindR (deliver_to a copy (attach_tcp fid a h2)) (\<lambda>h3.
                          Inr (Returns (True, h3\<lparr>listeners :=
                            (listeners h3)(listener_key pkt \<mapsto>
                               (case listeners h3 (listener_key pkt) of None \<Rightarrow> [] | Some fs \<Rightarrow> fs) @ [fid])\<rparr>)))))))"

text \<open>
  The loop of \<^verbatim>\<open>DemultiplexPacketsToTcps\<close>, \<open>n\<close> rounds: a packet that is refused stays at the
  front of the queue, because its \<^verbatim>\<open>continue\<close> comes before the \<^verbatim>\<open>pop\<close>. What is left in the
  queue at the end is dropped with it.
\<close>

fun demultiplex ::
  "'b ring_ops \<Rightarrow> bool \<Rightarrow> nat \<Rightarrow> Packet list \<Rightarrow> 'b Host \<Rightarrow> (Packet list \<times> 'b Host) waits checked" where
  "demultiplex ops shutdown0 0 pkts h = Inr (Returns (pkts, h))"
| "demultiplex ops shutdown0 (Suc n) [] h = Inr (Returns ([], h))"
| "demultiplex ops shutdown0 (Suc n) (pkt # pkts) h =
     bindR
       (if connections h (packet_key pkt) = None then HandleNewConnection ops shutdown0 pkt h
        else Inr (Returns (True, h)))
       (\<lambda>r. case r of
           Blocks \<Rightarrow> Inr Blocks
         | Returns (True, h1) \<Rightarrow>
             bindR (connection_at (packet_key pkt) h1) (\<lambda>a.
             bindR (deliver_to a pkt h1) (\<lambda>h2. demultiplex ops shutdown0 n pkts h2))
         | Returns (False, h1) \<Rightarrow>
             demultiplex ops shutdown0 n (pkt # pkts)
               (if \<not> rst (tcp_header pkt) then SendBackRST (packet_key pkt) h1 else h1))"

definition DemultiplexPacketsToTcps ::
  "'b ring_ops \<Rightarrow> bool \<Rightarrow> Packet list \<Rightarrow> 'b Host \<Rightarrow> (Packet list \<times> 'b Host) waits checked" where
  "DemultiplexPacketsToTcps ops shutdown0 pkts h =
     demultiplex ops shutdown0 (unat (of_nat (length pkts) :: uint32)) pkts h"

definition PacketsReceiveListener_round ::
  "'b ring_ops \<Rightarrow> bool \<Rightarrow> 'b Host \<Rightarrow> 'b Host waits checked" where
  "PacketsReceiveListener_round ops shutdown0 h =
     (case DeQueueAllTo True (recv_pkt_queue h) [] of
        (Blocks, q) \<Rightarrow> Inr Blocks
      | (Returns (_, pkts), q) \<Rightarrow>
          bindR (DemultiplexPacketsToTcps ops shutdown0 pkts (h\<lparr>recv_pkt_queue := q\<rparr>)) (\<lambda>r. case r of
              Blocks \<Rightarrow> Inr Blocks
            | Returns (_, h') \<Rightarrow> Inr (Returns h')))"

definition PacketsSendListener_round ::
  "(nat \<Rightarrow> rat) \<Rightarrow> nat \<Rightarrow> 'c BaseChannel \<Rightarrow> 'b Host \<Rightarrow> (nat \<times> 'c BaseChannel \<times> 'b Host) waits" where
  "PacketsSendListener_round random_float k ch h =
     (case DeQueueAllTo True (send_pkt_queue h) [] of
        (Blocks, q) \<Rightarrow> Blocks
      | (Returns (_, pkts), q) \<Rightarrow>
          let (k', _, ch') = Channel_Send random_float k ch pkts
          in Returns (k', ch', h\<lparr>send_pkt_queue := q\<rparr>))"

text \<open>
  Once the destructor has stopped the queues, neither listener waits any more: every round
  returns at once with an empty batch and changes nothing, and their loops have no other
  exit.
\<close>

lemma stopped_listeners_spin:
  assumes "Host_delete h = (Returns (), h')"
  shows "PacketsReceiveListener_round ops shutdown0 h' = Inr (Returns h')"
    "PacketsSendListener_round random_float k ch h' = Returns (k, ch, h')"
proof -
  have "destroy (recv_pkt_queue h')" "destroy (send_pkt_queue h')"
    using assms by (auto simp: Host_delete_def Stop_def Let_def split: if_splits prod.splits)
  then show "PacketsReceiveListener_round ops shutdown0 h' = Inr (Returns h')"
      "PacketsSendListener_round random_float k ch h' = Returns (k, ch, h')"
    by (simp_all add: PacketsReceiveListener_round_def PacketsSendListener_round_def DemultiplexPacketsToTcps_def
        DeQueueAllTo_stopped Channel_Send_def PushAll_small)
qed

end
