(* ===== verification/Process_Calls.thy ===== *)
theory Process_Calls
  imports Host_Model
begin

text \<open>
  The class \<^verbatim>\<open>Process\<close> of \<^verbatim>\<open>Host.h\<close>/\<^verbatim>\<open>Host.cc\<close>: the system calls a program makes on its
  file descriptors. Each takes the process and the host it runs on.
\<close>

section \<open>The calls\<close>

definition FindFdMappedFileId :: "Process \<Rightarrow> int32 \<Rightarrow> int32" where
  "FindFdMappedFileId p fd = (case fd_table p fd of None \<Rightarrow> -1 | Some fid \<Rightarrow> fid)"

definition Process_Socket :: "Process \<Rightarrow> 'b Host \<Rightarrow> int32 \<times> Process \<times> 'b Host" where
  "Process_Socket p h =
     (let (fd, pl) = Allocate (fd_pool p); p1 = p\<lparr>fd_pool := pl\<rparr>
      in if fd < 0 then (-1, p1, h)
         else let (fid, h1) = CreateNewSocket h
              in if fid < 0 then (-1, p1, h1)
                 else (fd, p1\<lparr>fd_table := emplace (fd_table p1) fd fid\<rparr>, h1))"

definition Process_Bind :: "Process \<Rightarrow> int32 \<Rightarrow> string \<Rightarrow> uint32 \<Rightarrow> 'b Host \<Rightarrow> bool \<times> 'b Host" where
  "Process_Bind p fd ip port h =
     (let fid = FindFdMappedFileId p fd in if fid < 0 then (False, h) else SocketBind fid ip port h)"

definition Process_Listen :: "Process \<Rightarrow> int32 \<Rightarrow> 'b Host \<Rightarrow> bool \<times> 'b Host" where
  "Process_Listen p fd h =
     (let fid = FindFdMappedFileId p fd in if fid < 0 then (False, h) else SocketListen fid h)"

text \<open>
  \<^verbatim>\<open>Accept\<close>. On a bad descriptor it returns \<^verbatim>\<open>false\<close>, the number zero. When no descriptor is
  left it deletes the file of the listening socket, as the code does.
\<close>

definition Process_Accept ::
  "Process \<Rightarrow> int32 \<Rightarrow> 'b Host \<Rightarrow> (int32 \<times> Process \<times> 'b Host) waits checked" where
  "Process_Accept p fd h =
     (let fid = FindFdMappedFileId p fd
      in if fid < 0 then Inr (Returns (0, p, h))
         else case SocketAccept fid h of
                Blocks \<Rightarrow> Inr Blocks
              | Returns (new_fid, h1) \<Rightarrow>
                  let (new_fd, pl) = Allocate (fd_pool p); p1 = p\<lparr>fd_pool := pl\<rparr>
                  in if new_fd < 0 then
                       bindR (DeleteSocketAndConnection fid h1) (\<lambda>r. case r of
                           Blocks \<Rightarrow> Inr Blocks
                         | Returns h2 \<Rightarrow> Inr (Returns (-1, p1, h2)))
                     else Inr (Returns (new_fd, p1\<lparr>fd_table := emplace (fd_table p1) new_fd new_fid\<rparr>, h1)))"

definition Process_Connect ::
  "'b ring_ops \<Rightarrow> (uint32 \<Rightarrow> uint32) \<Rightarrow> bool \<Rightarrow> Process \<Rightarrow> int32 \<Rightarrow> string \<Rightarrow> uint32 \<Rightarrow> 'b Host \<Rightarrow>
   (bool \<times> 'b Host) waits checked" where
  "Process_Connect ops random_number shutdown0 p fd remote_ip remote_port h =
     (let fid = FindFdMappedFileId p fd
      in if fid < 0 then Inr (Returns (False, h))
         else SocketConnect ops random_number shutdown0 fid remote_ip remote_port h)"

definition Process_Read ::
  "'b ring_ops \<Rightarrow> Process \<Rightarrow> int32 \<Rightarrow> int32 \<Rightarrow> 'b Host \<Rightarrow> ((int32 \<times> byte list) \<times> 'b Host) waits checked" where
  "Process_Read ops p fd sz h =
     (let fid = FindFdMappedFileId p fd
      in if fid < 0 then Inr (Returns ((0, []), h)) else Host_ReadData ops fid sz h)"

definition Process_Write ::
  "'b ring_ops \<Rightarrow> Process \<Rightarrow> int32 \<Rightarrow> byte list \<Rightarrow> int32 \<Rightarrow> 'b Host \<Rightarrow> (int32 \<times> 'b Host) waits checked" where
  "Process_Write ops p fd buf sz h =
     (let fid = FindFdMappedFileId p fd
      in if fid < 0 then Inr (Returns (0, h)) else Host_WriteData ops fid buf sz h)"

definition Process_ShutDown :: "Process \<Rightarrow> int32 \<Rightarrow> 'b Host \<Rightarrow> (bool \<times> 'b Host) checked" where
  "Process_ShutDown p fd h =
     (let fid = FindFdMappedFileId p fd in if fid < 0 then Inr (False, h) else ShutDownSocket fid h)"

definition Process_Close :: "Process \<Rightarrow> int32 \<Rightarrow> 'b Host \<Rightarrow> (bool \<times> Process \<times> 'b Host) checked" where
  "Process_Close p fd h =
     (let fid = FindFdMappedFileId p fd
      in if fid < 0 then Inr (False, p, h)
         else bindR (DecOpenFileRef fid h) (\<lambda>(_, h1).
                if fd_table p fd = None then Inr (False, p, h1)
                else Inr (True, p\<lparr>fd_table := (fd_table p)(fd := None), fd_pool := Release (fd_pool p) fd\<rparr>, h1)))"

text \<open>\<^verbatim>\<open>ReleaseResource\<close> closes the descriptors in the order of the map, ascending.\<close>

fun close_all :: "int32 list \<Rightarrow> Process \<Rightarrow> 'b Host \<Rightarrow> (Process \<times> 'b Host) checked" where
  "close_all [] p h = Inr (p, h)"
| "close_all (fd # fds) p h = bindR (Process_Close p fd h) (\<lambda>(_, p', h'). close_all fds p' h')"

definition ReleaseResource :: "Process \<Rightarrow> 'b Host \<Rightarrow> (Process \<times> 'b Host) checked" where
  "ReleaseResource p h = close_all (sorted_list_of_set (dom (fd_table p))) p h"

text \<open>\<^verbatim>\<open>Run\<close>: the program, a function of the process and the host, then the clean-up.\<close>

definition Process_Run ::
  "(Process \<Rightarrow> 'b Host \<Rightarrow> (Process \<times> 'b Host) checked) \<Rightarrow> Process \<Rightarrow> 'b Host \<Rightarrow> (Process \<times> 'b Host) checked" where
  "Process_Run program p h = bindR (program p h) (\<lambda>(p', h'). ReleaseResource p' h')"

end
