(* ===== verification/Tcp_Frames.thy ===== *)
theory Tcp_Frames
  imports Tcp_States
begin

text \<open>
  What the operations of a controller leave alone: whose connection it is, and the queue
  through which the host hands it packets. And what they put into the queue to the host:
  packets that carry the key of the controller.
\<close>

section \<open>What belongs to the host\<close>

definition tcp_identity :: "'b TcpController \<Rightarrow> TcpControllerKey \<times> int32" where
  "tcp_identity c = (tcp_key c, tcp_socket c)"

definition tcp_outside :: "'b TcpController \<Rightarrow> (TcpControllerKey \<times> int32) \<times> PacketQueue" where
  "tcp_outside c = (tcp_identity c, pkt_recv_buffer c)"

lemma tcp_outside_frames [simp]:
  "tcp_outside (timer_op t call c) = tcp_outside c" "tcp_outside (Tcp_SendPacket popt c) = tcp_outside c"
  "tcp_outside (AddTask tk c) = tcp_outside c" "tcp_outside (detach_thread d c) = tcp_outside c"
  "tcp_outside (CloseAndDelete c) = tcp_outside c"
  "tcp_outside (SetReleasePort rel c) = tcp_outside c" "tcp_outside (snd (TryShutDown c)) = tcp_outside c"
  "tcp_outside (snd (TryClose c)) = tcp_outside c" "tcp_outside (stop_timer_if_clear c) = tcp_outside c"
  "tcp_outside (ack_transition b c) = tcp_outside c" "tcp_outside (ack_flow_control pkt c) = tcp_outside c"
  "tcp_outside (c\<lparr>send_window := sw\<rparr>) = tcp_outside c" "tcp_outside (c\<lparr>recv_window := rw\<rparr>) = tcp_outside c"
  "tcp_outside (c\<lparr>tcp_state := st\<rparr>) = tcp_outside c" "tcp_outside (c\<lparr>recv_buffer := rb\<rparr>) = tcp_outside c"
  "tcp_outside (c\<lparr>overflow_pkts := ps\<rparr>) = tcp_outside c" "tcp_outside (c\<lparr>send_buffer := sb\<rparr>) = tcp_outside c"
  "tcp_outside (c\<lparr>pipe_state := pst\<rparr>) = tcp_outside c"
  "tcp_outside (c\<lparr>pkt_send_buffer := q\<rparr>) = tcp_outside c"
  by (auto simp: tcp_outside_def tcp_identity_def timer_op_def Tcp_SendPacket_def AddTask_def detach_thread_def CloseAndDelete_def
      SetReleasePort_def TryShutDown_def TryClose_def CloseConnection_def
      stop_timer_if_clear_def ack_transition_def ack_flow_control_def Let_def split: option.splits)

lemma outside_push_overflowed:
  "PushOverflowedPacketsToSocketBuffer ops c = Inr c' \<Longrightarrow> tcp_outside c' = tcp_outside c"
  by (auto simp: PushOverflowedPacketsToSocketBuffer_def Let_def bindR_Inr_iff)

lemma outside_stream_nodes: "stream_nodes ops ns c = Inr c' \<Longrightarrow> tcp_outside c' = tcp_outside c"
proof (induction ns arbitrary: c)
  case (Cons p ns)
  then show ?case by (force simp: bindR_Inr_iff Let_def split: if_splits)
qed simp

lemma outside_stream:
  "StreamDataToReceiveBuffer ops ns c = Inr c' \<Longrightarrow> tcp_outside c' = tcp_outside c"
  by (auto simp: StreamDataToReceiveBuffer_def bindR_Inr_iff dest!: outside_push_overflowed outside_stream_nodes)

lemma outside_resend: "resend_base_packet c = Inr c' \<Longrightarrow> tcp_outside c' = tcp_outside c"
  by (auto simp: resend_base_packet_def bindR_Inr_iff)

lemma outside_handlers:
  "HandleSYN ops c p = Inr (b, c') \<Longrightarrow> tcp_outside c' = tcp_outside c"
  "HandleACKSYN env m c p = Inr (b, m', c') \<Longrightarrow> tcp_outside c' = tcp_outside c"
  "HandleFIN ops c p = Inr (b, c') \<Longrightarrow> tcp_outside c' = tcp_outside c"
  "HandleACK env m c p = Inr (b, m', c') \<Longrightarrow> tcp_outside c' = tcp_outside c"
  "HandleDataPacket ops c p = Inr (b, c') \<Longrightarrow> tcp_outside c' = tcp_outside c"
  by (auto simp: HandleSYN_def HandleACKSYN_def HandleFIN_def HandleACK_def HandleDataPacket_def Let_def
      bindR_Inr_iff split: if_splits dest!: outside_stream outside_resend)

lemma outside_handle: "HandleReceivedPacket env m c p = Inr (m', c') \<Longrightarrow> tcp_outside c' = tcp_outside c"
  by (auto simp: HandleReceivedPacket_def HandleRst_def Let_def bindR_Inr_iff outside_handlers split: if_splits)

lemma outside_send_from_buffer:
  "send_from_buffer ops r sz c = Inr (b, c') \<Longrightarrow> tcp_outside c' = tcp_outside c"
  by (auto simp: send_from_buffer_def Let_def bindR_Inr_iff split: if_splits prod.splits)

lemma outside_send_full: "send_full_packets ops n c = Inr c' \<Longrightarrow> tcp_outside c' = tcp_outside c"
  by (induction n arbitrary: c) (auto simp: bindR_Inr_iff dest!: outside_send_from_buffer)

lemma outside_send_round:
  "SendBufferListener_round env c = Some (Inr (Returns c')) \<Longrightarrow> tcp_outside c' = tcp_outside c"
  by (auto simp: SendBufferListener_round_def SendBufferListener_locked_def SendBufferListener_send_def Let_def
      bindR_Inr_iff split: if_splits dest!: outside_send_full outside_send_from_buffer)

lemma outside_calls:
  "TryConnect ops c = Inr (r, c') \<Longrightarrow> tcp_outside c' = tcp_outside c"
  "ReadData ops c sz = Inr (Returns (rd, c')) \<Longrightarrow> tcp_outside c' = tcp_outside c"
  "WriteData ops c bs sz = Returns (wr, c') \<Longrightarrow> tcp_outside c' = tcp_outside c"
  by (auto simp: TryConnect_def ReadData_def WriteData_def Let_def bindR_Inr_iff split: if_splits prod.splits)

lemma outside_rounds:
  "SendFIN ops c = Inr (Returns c') \<Longrightarrow> tcp_outside c' = tcp_outside c"
  "SendRSTForClosedConnection_round ops c = Some (Returns c') \<Longrightarrow> tcp_outside c' = tcp_outside c"
  "ReceiveBufferListener_round ops c = Some (Inr (Returns c')) \<Longrightarrow> tcp_outside c' = tcp_outside c"
  "PacketSendBufferListener_round c = Some (Returns (pkts, c')) \<Longrightarrow> tcp_outside c' = tcp_outside c"
  "TimeoutReTransmitter c = Inr c' \<Longrightarrow> tcp_outside c' = tcp_outside c"
  "ProbeWindowSize c = Inr c' \<Longrightarrow> tcp_outside c' = tcp_outside c"
  by (auto simp: SendFIN_def SendRSTForClosedConnection_round_def ReceiveBufferListener_round_def
      PacketSendBufferListener_round_def TimeoutReTransmitter_def ProbeWindowSize_def Let_def bindR_Inr_iff
      tcp_outside_def [of "_\<lparr>ssthresh := _, cwnd := _, cc_state := _\<rparr>"]
      split: if_splits prod.splits waits.splits dest!: outside_push_overflowed outside_resend)
    (simp_all add: tcp_outside_def tcp_identity_def)

lemma outside_identity: "tcp_outside c' = tcp_outside c \<Longrightarrow> tcp_identity c' = tcp_identity c"
  by (simp add: tcp_outside_def)

lemma identity_arrive [simp]: "tcp_identity (ReceiveNewPacket pkt c) = tcp_identity c"
  by (simp add: tcp_identity_def ReceiveNewPacket_def)

lemma tcp_step_identity:
  assumes "tcp_step ops e (m, c) (m', c')"
  shows "tcp_identity c' = tcp_identity c"
  using assms
proof (cases rule: tcp_step.cases)
qed (auto simp: outside_handle outside_send_round outside_rounds intro!: outside_identity dest: outside_calls)

section \<open>Packets carry the key of their controller\<close>

text \<open>Headers that carry the addresses and ports of a key, whatever the other fields.\<close>

definition carries_key :: "TcpControllerKey \<Rightarrow> Packet \<Rightarrow> bool" where
  "carries_key k p \<longleftrightarrow> source_ip (ip_header p) = key_source_ip k \<and> dest_ip (ip_header p) = key_dest_ip k \<and>
     source_port (tcp_header p) = uint16_of_int32 (key_source_port k) \<and>
     dest_port (tcp_header p) = uint16_of_int32 (key_dest_port k)"

lemma made_packets_carry_key:
  "carries_key (tcp_key c) (MakeAckPacket ops c an)"
  "carries_key (tcp_key c) (MakeSyncPacket ops c seq)"
  "carries_key (tcp_key c) (MakeFinPacket c seq)"
  "carries_key (tcp_key c) (MakeRstPacket c)"
  "carries_key (tcp_key c) (fst (MakeDataPacket_from ops c seq buf n))"
  by (auto simp: carries_key_def MakeAckPacket_def MakeSyncPacket_def MakeFinPacket_def MakeRstPacket_def
      MakeDataPacket_from_def InjectPayloadFromBuffer_def key_ip_header_def key_tcp_header_def Let_def split_beta)

lemma made_data_carries_key:
  "MakeDataPacket c seq data n = Inr p \<Longrightarrow> carries_key (tcp_key c) p"
  by (auto simp: carries_key_def MakeDataPacket_def Packet_bytes_def InjectPayload_def bindR_Inr_iff
      key_ip_header_def key_tcp_header_def split: option.splits if_splits)

lemma carries_key_flags [simp]:
  "carries_key k (p\<lparr>tcp_header := (tcp_header p)\<lparr>ack := x, ack_num := an\<rparr>\<rparr>) = carries_key k p"
  by (simp add: carries_key_def)

lemma Copy_carries: "Copy p = Inr p' \<Longrightarrow> carries_key k p' = carries_key k p"
  by (auto simp: Copy_def InjectPayload_def carries_key_def Packet_headers_def bindR_Inr_iff Let_def
      split: option.splits if_splits)

text \<open>The packets in the queue to the host, and those that may be sent again.\<close>

definition keyed :: "'b TcpController \<Rightarrow> bool" where
  "keyed c \<longleftrightarrow> (\<forall>p \<in> set (packets (pkt_send_buffer c)). carries_key (tcp_key c) p) \<and>
     (\<forall>p \<in> set (window_pkts (send_window c)). carries_key (tcp_key c) p)"

lemma keyed_cong:
  "keyed c \<Longrightarrow> tcp_key c' = tcp_key c \<Longrightarrow> set (packets (pkt_send_buffer c')) \<subseteq> set (packets (pkt_send_buffer c)) \<Longrightarrow>
    set (window_pkts (send_window c')) \<subseteq> set (window_pkts (send_window c)) \<Longrightarrow> keyed c'"
  by (auto simp: keyed_def)

lemma SendPacket_window:
  "SendPacket w p = Inr (sent, w') \<Longrightarrow> set (window_pkts w') \<subseteq> insert p (set (window_pkts w))"
  by (auto simp: SendPacket_def register_pkt_def SendWindowNode_new_def Let_def bindR_Inr_iff split: if_splits)

lemma NewAckedPacket_window:
  "NewAckedPacket el m w an = Inr (re, w', m') \<Longrightarrow> set (window_pkts w') \<subseteq> set (window_pkts w)"
  by (cases rule: NewAckedPacket_cases) auto

lemma GetBase_window:
  "GetBasePakcketToReSend w = Inr (po, w') \<Longrightarrow> window_pkts w' = window_pkts w \<and>
    (\<forall>p. po = Some p \<longrightarrow> (\<exists>q \<in> set (window_pkts w). Copy q = Inr p))"
  by (auto simp: GetBasePakcketToReSend_def bindR_Inr_iff split: list.splits)

lemma keyed_frames [simp]:
  "keyed (timer_op t call c) = keyed c" "keyed (AddTask tk c) = keyed c" "keyed (detach_thread d c) = keyed c"
  "keyed (CloseAndDelete c) = keyed c" "keyed (ReceiveNewPacket pkt c) = keyed c" "keyed (SetReleasePort rel c) = keyed c"
  "keyed (snd (TryShutDown c)) = keyed c" "keyed (snd (TryClose c)) = keyed c" "keyed (stop_timer_if_clear c) = keyed c"
  "keyed (ack_transition b c) = keyed c" "keyed (ack_flow_control pkt c) = keyed c"
  "keyed (c\<lparr>recv_window := rw\<rparr>) = keyed c" "keyed (c\<lparr>tcp_state := st\<rparr>) = keyed c" "keyed (c\<lparr>recv_buffer := rb\<rparr>) = keyed c"
  "keyed (c\<lparr>overflow_pkts := ps\<rparr>) = keyed c" "keyed (c\<lparr>send_buffer := sb\<rparr>) = keyed c" "keyed (c\<lparr>pipe_state := pst\<rparr>) = keyed c"
  "keyed (c\<lparr>pkt_recv_buffer := q\<rparr>) = keyed c"
  "keyed (c\<lparr>ssthresh := x, cwnd := y, cc_state := z\<rparr>) = keyed c"
  by (auto simp: keyed_def timer_op_def AddTask_def detach_thread_def CloseAndDelete_def ReceiveNewPacket_def
      SetReleasePort_def TryShutDown_def TryClose_def CloseConnection_def stop_timer_if_clear_def ack_transition_def
      ack_flow_control_def Let_def)

lemma keyed_send:
  "keyed c \<Longrightarrow> (\<And>p. po = Some p \<Longrightarrow> carries_key (tcp_key c) p) \<Longrightarrow> keyed (Tcp_SendPacket po c)"
  by (cases po) (auto simp: keyed_def)

lemma keyed_window:
  "keyed c \<Longrightarrow> set (window_pkts w) \<subseteq> set (window_pkts (send_window c)) \<Longrightarrow> keyed (c\<lparr>send_window := w\<rparr>)"
  by (auto simp: keyed_def)

lemma keyed_register:
  assumes "keyed c" "SendPacket (send_window c) p = Inr (sent, w)" "carries_key (tcp_key c) p"
  shows "keyed (c\<lparr>send_window := w\<rparr>)"
  using SendPacket_window [OF assms(2)] assms(1,3) by (fastforce simp: keyed_def)

lemma keyed_resend:
  assumes "keyed c" "resend_base_packet c = Inr c'"
  shows "keyed c'"
proof -
  obtain po w where g: "GetBasePakcketToReSend (send_window c) = Inr (po, w)" "c' = Tcp_SendPacket po (c\<lparr>send_window := w\<rparr>)"
    using assms(2) by (auto simp: resend_base_packet_def bindR_Inr_iff)
  have "keyed (c\<lparr>send_window := w\<rparr>)" using GetBase_window [OF g(1)] assms(1) by (intro keyed_window) auto
  moreover have "carries_key (tcp_key c) p" if "po = Some p" for p
    using GetBase_window [OF g(1)] that assms(1) by (auto simp: keyed_def dest: Copy_carries)
  ultimately show ?thesis using g(2) by (auto intro: keyed_send)
qed

lemma keyed_stream: "StreamDataToReceiveBuffer ops ns c = Inr c' \<Longrightarrow> keyed c' = keyed c \<and> tcp_key c' = tcp_key c"
proof -
  have "stream_nodes ops ns c = Inr c' \<Longrightarrow> keyed c' = keyed c \<and> tcp_key c' = tcp_key c" for c
  proof (induction ns arbitrary: c)
    case (Cons p ns)
    then show ?case by (force simp: bindR_Inr_iff Let_def split: if_splits)
  qed simp
  then show "StreamDataToReceiveBuffer ops ns c = Inr c' \<Longrightarrow> keyed c' = keyed c \<and> tcp_key c' = tcp_key c"
    by (fastforce simp: StreamDataToReceiveBuffer_def PushOverflowedPacketsToSocketBuffer_def bindR_Inr_iff Let_def)
qed

text \<open>Registering a packet in the window and queueing a copy of it.\<close>

lemma keyed_send_copy:
  assumes "keyed c" "SendPacket (send_window c) p = Inr (sent, w)" "carries_key (tcp_key c) p" "Copy p = Inr p'"
  shows "keyed (Tcp_SendPacket (Some p') (c\<lparr>send_window := w\<rparr>))"
    "keyed (Tcp_SendPacket (Some p') (c\<lparr>send_window := w, tcp_state := st\<rparr>))"
proof -
  have k: "keyed (c\<lparr>send_window := w\<rparr>)" by (rule keyed_register [OF assms(1-3)])
  have p: "carries_key (tcp_key c) p'" using assms(3) Copy_carries [OF assms(4)] by simp
  show "keyed (Tcp_SendPacket (Some p') (c\<lparr>send_window := w\<rparr>))" by (rule keyed_send [OF k]) (use p in simp)
  have "keyed (c\<lparr>send_window := w, tcp_state := st\<rparr>)" using k by simp
  then show "keyed (Tcp_SendPacket (Some p') (c\<lparr>send_window := w, tcp_state := st\<rparr>))" by (rule keyed_send) (use p in simp)
qed

lemma keyed_acknowledge: "keyed c \<Longrightarrow> keyed (Tcp_SendPacket (Some (MakeAckPacket ops c an)) c)"
  by (rule keyed_send) (auto simp: made_packets_carry_key)

lemma keyed_data:
  assumes "keyed c" "HandleDataPacket ops c p = Inr (r, c')"
  shows "keyed c'"
  using assms
  by (auto simp: HandleDataPacket_def bindR_Inr_iff split: if_splits
      dest!: keyed_stream intro!: keyed_acknowledge simp del: Tcp_SendPacket_Some)

lemma keyed_FIN:
  assumes "keyed c" "HandleFIN ops c p = Inr (r, c')"
  shows "keyed c'"
  using assms
  by (auto simp: HandleFIN_def Let_def bindR_Inr_iff split: if_splits
      dest!: keyed_stream intro!: keyed_acknowledge simp del: Tcp_SendPacket_Some)

lemma keyed_SYN:
  assumes "keyed c" "HandleSYN ops c p = Inr (r, c')"
  shows "keyed c'"
proof -
  let ?syn = "\<lambda>rw. MakeSyncPacket ops (c\<lparr>recv_window := rw\<rparr>) 0"
  have c: "carries_key (tcp_key c) (?syn rw\<lparr>tcp_header := (tcp_header (?syn rw))\<lparr>ack := True, ack_num := an\<rparr>\<rparr>)" for rw an
    using made_packets_carry_key(2) [of "c\<lparr>recv_window := rw\<rparr>" ops 0] by simp
  have reg: "keyed (c\<lparr>recv_window := rw, send_window := w\<rparr>)"
    and send: "Copy q = Inr q' \<Longrightarrow> keyed (Tcp_SendPacket (Some q') (c\<lparr>recv_window := rw, send_window := w, tcp_state := st\<rparr>))"
    if "SendPacket (send_window c) q = Inr (ok, w)" "carries_key (tcp_key c) q" for rw q ok w q' st
    using keyed_register [of "c\<lparr>recv_window := rw\<rparr>" q ok w] keyed_send_copy(2) [of "c\<lparr>recv_window := rw\<rparr>" q ok w q' st] that assms(1)
    by (simp_all del: Tcp_SendPacket_Some)
  show ?thesis
    using assms
    by (auto simp: HandleSYN_def Let_def bindR_Inr_iff split: if_splits simp del: Tcp_SendPacket_Some
        intro: keyed_resend [of "c\<lparr>recv_window := _\<rparr>"] reg c)
      (erule (1) send [OF _ c])
qed

lemma keyed_ACKSYN:
  assumes "keyed c" "HandleACKSYN env m c p = Inr (r, m', c')"
  shows "keyed c'"
proof -
  have cap: "keyed (d\<lparr>send_window := set_capacity cap (send_window d)\<rparr>)" if "keyed d" for d :: "'a TcpController" and cap
    using that by (simp add: keyed_def)
  have win: "keyed (timer_op Syn_timer Timer_Stop c\<lparr>send_window := w\<rparr>)"
    if "NewAckedPacket el m (send_window c) an = Inr (re, w, m')" for el an re w m'
    using assms(1) NewAckedPacket_window [OF that] by (intro keyed_window) simp_all
  show ?thesis
    using assms
    by (auto simp: HandleACKSYN_def Let_def bindR_Inr_iff split: if_splits
        intro!: keyed_acknowledge cap simp del: Tcp_SendPacket_Some)
      (erule win)
qed

lemma keyed_ACK:
  assumes "keyed c" "HandleACK env m c p = Inr (r, m', c')"
  shows "keyed c'"
proof -
  obtain re w where w: "NewAckedPacket (elapsed_time env) m (send_window c) (ack_num (tcp_header p)) = Inr (re, w, m')"
    using assms(2) by (auto simp: HandleACK_def bindR_Inr_iff Let_def)
  then have "keyed (c\<lparr>send_window := w\<rparr>)" using assms(1) by (intro keyed_window NewAckedPacket_window)
  then show ?thesis
    using assms(2) w by (auto simp: HandleACK_def Let_def bindR_Inr_iff split: if_splits intro: keyed_resend)
qed

lemma keyed_handle:
  assumes "keyed c" "HandleReceivedPacket env m c p = Inr (m', c')"
  shows "keyed c'"
  using assms
  by (auto simp: HandleReceivedPacket_def HandleRst_def Let_def bindR_Inr_iff split: if_splits
      intro: keyed_SYN keyed_ACKSYN keyed_FIN keyed_ACK keyed_data)

lemma keyed_send_from_buffer:
  assumes "keyed c" "send_from_buffer ops r sz c = Inr (b, c')"
  shows "keyed c'"
  using assms made_packets_carry_key(5) [of c ops "NextSeqNumberToSend (send_window c)" "send_buffer c" sz]
  by (auto simp: send_from_buffer_def Let_def bindR_Inr_iff split: if_splits prod.splits simp del: Tcp_SendPacket_Some
      intro: keyed_register [of "c\<lparr>send_buffer := _\<rparr>", simplified] keyed_send_copy(1) [of "c\<lparr>send_buffer := _\<rparr>", simplified])

lemma keyed_send_full: "keyed c \<Longrightarrow> send_full_packets ops n c = Inr c' \<Longrightarrow> keyed c'"
  by (induction n arbitrary: c) (auto simp: bindR_Inr_iff dest: keyed_send_from_buffer)

lemma keyed_send_round:
  assumes "keyed c" "SendBufferListener_round env c = Some (Inr (Returns c'))"
  shows "keyed c'"
  using assms
  by (auto simp: SendBufferListener_round_def SendBufferListener_locked_def SendBufferListener_send_def Let_def
      bindR_Inr_iff split: if_splits intro: keyed_send_full keyed_send_from_buffer)

lemma keyed_calls:
  "keyed c \<Longrightarrow> TryConnect ops c = Inr (r, c') \<Longrightarrow> keyed c'"
  "keyed c \<Longrightarrow> ReadData ops c sz = Inr (Returns (rd, c')) \<Longrightarrow> keyed c'"
  "keyed c \<Longrightarrow> WriteData ops c bs sz = Returns (wr, c') \<Longrightarrow> keyed c'"
  by (auto simp: TryConnect_def ReadData_def WriteData_def Let_def bindR_Inr_iff
      split: if_splits prod.splits simp del: Tcp_SendPacket_Some intro: keyed_register made_packets_carry_key)
    (erule (2) keyed_send_copy(2) [OF _ _ made_packets_carry_key(2)])

lemma keyed_rounds:
  "keyed c \<Longrightarrow> SendFIN ops c = Inr (Returns c') \<Longrightarrow> keyed c'"
  "keyed c \<Longrightarrow> SendRSTForClosedConnection_round ops c = Some (Returns c') \<Longrightarrow> keyed c'"
  "keyed c \<Longrightarrow> ReceiveBufferListener_round ops c = Some (Inr (Returns c')) \<Longrightarrow> keyed c'"
  "keyed c \<Longrightarrow> PacketSendBufferListener_round c = Some (Returns (pkts, c')) \<Longrightarrow> keyed c'"
  "keyed c \<Longrightarrow> TimeoutReTransmitter c = Inr c' \<Longrightarrow> keyed c'"
  "keyed c \<Longrightarrow> ProbeWindowSize c = Inr c' \<Longrightarrow> keyed c'"
proof -
  assume k: "keyed c"
  show "TimeoutReTransmitter c = Inr c' \<Longrightarrow> keyed c'"
    using k by (auto simp: TimeoutReTransmitter_def bindR_Inr_iff split: if_splits dest: keyed_resend)
  show "ProbeWindowSize c = Inr c' \<Longrightarrow> keyed c'"
    using k by (auto simp: ProbeWindowSize_def bindR_Inr_iff split: if_splits simp del: Tcp_SendPacket_Some
        intro!: keyed_send dest!: made_data_carries_key Copy_carries)
  show "ReceiveBufferListener_round ops c = Some (Inr (Returns c')) \<Longrightarrow> keyed c'"
    using k by (auto simp: ReceiveBufferListener_round_def PushOverflowedPacketsToSocketBuffer_def bindR_Inr_iff Let_def
        split: if_splits)
  show "PacketSendBufferListener_round c = Some (Returns (pkts, c')) \<Longrightarrow> keyed c'"
    using k by (cases "packets (pkt_send_buffer c) = [] \<or> destroy (pkt_send_buffer c)")
      (auto simp: PacketSendBufferListener_round_def DeQueueAllTo_running DeQueueAllTo_stopped keyed_def
        DeQueueAllTo_def dequeue_all_locked_def IncReaders_def DecReaders_def split: if_splits)
  show "SendRSTForClosedConnection_round ops c = Some (Returns c') \<Longrightarrow> keyed c'"
    using k by (auto simp: SendRSTForClosedConnection_round_def Let_def made_packets_carry_key split: if_splits
        simp del: Tcp_SendPacket_Some intro!: keyed_send made_packets_carry_key)
  have fin: "keyed (c\<lparr>send_window := w\<rparr>)"
      "Copy q = Inr q' \<Longrightarrow> keyed (Tcp_SendPacket (Some q') (c\<lparr>send_window := w, tcp_state := st\<rparr>))"
    if "SendPacket (set_capacity cap (send_window c)) q = Inr (ok, w)" "carries_key (tcp_key c) q" for cap q ok w q' st
  proof -
    let ?c = "c\<lparr>send_window := set_capacity cap (send_window c)\<rparr>"
    have "keyed ?c" using k by (simp add: keyed_def)
    then show "keyed (c\<lparr>send_window := w\<rparr>)"
        "Copy q = Inr q' \<Longrightarrow> keyed (Tcp_SendPacket (Some q') (c\<lparr>send_window := w, tcp_state := st\<rparr>))"
      using keyed_register [of ?c q ok w] keyed_send_copy(2) [of ?c q ok w q' st] that by (simp_all del: Tcp_SendPacket_Some)
  qed
  show "SendFIN ops c = Inr (Returns c') \<Longrightarrow> keyed c'"
    using k by (auto simp: SendFIN_def Let_def bindR_Inr_iff split: if_splits simp del: Tcp_SendPacket_Some
        intro: fin(1) made_packets_carry_key)
      (erule (1) fin(2) [OF _ made_packets_carry_key(3)])+
qed

lemma tcp_step_keyed:
  assumes "tcp_step ops e (m, c) (m', c')" "keyed c"
  shows "keyed c'"
  using assms
proof (cases rule: tcp_step.cases)
qed (auto intro: keyed_handle keyed_send_round keyed_rounds keyed_calls)

end
