(* ===== verification/Host_Routing.thy ===== *)
theory Host_Routing
  imports Host_Model Tcp_Handshake Tcp_Frames
begin

text \<open>
  How packets find their connection: the headers a controller writes and the key a host
  reads from them, and what \<^verbatim>\<open>DemultiplexPacketsToTcps\<close> does with a batch.
\<close>

section \<open>Headers and keys\<close>

definition reverse_key :: "TcpControllerKey \<Rightarrow> TcpControllerKey" where
  "reverse_key k = TcpControllerKey_new (key_dest_ip k) (key_dest_port k) (key_source_ip k) (key_source_port k)"

definition ports_ok :: "TcpControllerKey \<Rightarrow> bool" where
  "ports_ok k \<longleftrightarrow> 0 \<le> key_source_port k \<and> key_source_port k < 65536 \<and>
     0 \<le> key_dest_port k \<and> key_dest_port k < 65536"

lemma reverse_key_simps [simp]:
  "reverse_key (reverse_key k) = k" "ports_ok (reverse_key k) = ports_ok k"
  by (auto simp: reverse_key_def ports_ok_def TcpControllerKey_new_def)

lemma uint16_roundtrip: "0 \<le> i \<Longrightarrow> i < 65536 \<Longrightarrow> int32_of_uint16 (uint16_of_int32 i) = i"
  by (simp add: int32_of_uint16_def uint16_of_int32_def uint_word_of_int)

lemma packet_key_carried:
  "carries_key k p \<Longrightarrow> ports_ok k \<Longrightarrow> packet_key p = reverse_key k"
  by (simp add: packet_key_def carries_key_def reverse_key_def ports_ok_def uint16_roundtrip)

lemma listener_key_carried:
  "carries_key k p \<Longrightarrow> ports_ok k \<Longrightarrow>
    listener_key p = LocalLayerThreeKey_new (key_source_ip k) (key_source_port k)"
  by (simp add: listener_key_def carries_key_def ports_ok_def uint16_roundtrip)

definition rst_back :: "TcpControllerKey \<Rightarrow> Packet" where
  "rst_back key = Packet_headers (key_ip_header key) ((key_tcp_header key)\<lparr>rst := True\<rparr>)"

lemma rst_back_carries: "carries_key key (rst_back key)"
  by (simp add: carries_key_def rst_back_def key_ip_header_def key_tcp_header_def)

lemma SendBackRST_eq:
  "SendBackRST key h =
    h\<lparr>send_pkt_queue := (send_pkt_queue h)\<lparr>packets := packets (send_pkt_queue h) @ [rst_back key]\<rparr>\<rparr>"
  by (simp add: SendBackRST_def Push_def rst_back_def)

section \<open>Batches for known connections\<close>

lemma deliver_to_live:
  "tcp_objects h a = Some c \<Longrightarrow> deliver_to a pkt h = Inr (store_tcp a (ReceiveNewPacket pkt c) h)"
  by (simp add: deliver_to_def deref_def)

text \<open>The host after each packet of a batch was queued at its connection.\<close>

fun delivered_to :: "(TcpControllerKey \<rightharpoonup> tcp_ptr) \<Rightarrow> Packet list \<Rightarrow> 'b Host \<Rightarrow> 'b Host" where
  "delivered_to conns [] h = h"
| "delivered_to conns (p # ps) h =
     (case conns (packet_key p) of None \<Rightarrow> delivered_to conns ps h
      | Some a \<Rightarrow> (case tcp_objects h a of None \<Rightarrow> delivered_to conns ps h
                   | Some c \<Rightarrow> delivered_to conns ps (store_tcp a (ReceiveNewPacket p c) h)))"

lemma delivered_to_object:
  assumes "tcp_objects h a = Some c" "conns k = Some a" "\<And>k'. conns k' = Some a \<Longrightarrow> k' = k"
  shows "tcp_objects (delivered_to conns ps h) a =
    Some (c\<lparr>pkt_recv_buffer := (pkt_recv_buffer c)\<lparr>packets := packets (pkt_recv_buffer c) @ filter (\<lambda>p. packet_key p = k) ps\<rparr>\<rparr>)"
  using assms(1)
proof (induction ps arbitrary: h c)
  case (Cons p ps)
  show ?case
  proof (cases "conns (packet_key p)")
    case None
    then have "packet_key p \<noteq> k" using assms(2) by auto
    with None Cons show ?thesis by simp
  next
    case (Some b)
    show ?thesis
    proof (cases "b = a")
      case True
      then have "packet_key p = k" using Some assms(3) by blast
      with True Some Cons.prems Cons.IH [of "store_tcp a (ReceiveNewPacket p c) h" "ReceiveNewPacket p c"]
      show ?thesis by (simp add: store_tcp_def ReceiveNewPacket_def Push_def)
    next
      case False
      then have "packet_key p \<noteq> k" using Some assms(2) by auto
      with False Some Cons.prems Cons.IH show ?thesis
        by (auto simp: store_tcp_def split: option.splits)
    qed
  qed
qed simp

lemma demultiplex_known:
  assumes "\<forall>p \<in> set ps. \<exists>a. connections h (packet_key p) = Some a \<and> a \<in> dom (tcp_objects h)"
  shows "demultiplex ops shutdown0 (length ps) ps h = Inr (Returns ([], delivered_to (connections h) ps h))"
  using assms
proof (induction ps arbitrary: h)
  case (Cons p ps)
  then obtain a c where a: "connections h (packet_key p) = Some a" "tcp_objects h a = Some c" by auto
  have "demultiplex ops shutdown0 (length ps) ps (store_tcp a (ReceiveNewPacket p c) h) =
      Inr (Returns ([], delivered_to (connections h) ps (store_tcp a (ReceiveNewPacket p c) h)))"
    using Cons.IH [of "store_tcp a (ReceiveNewPacket p c) h"] Cons.prems by (force simp: store_tcp_def)
  with a show ?case by (simp add: connection_at_def deliver_to_live)
qed simp

section \<open>Properties\<close>

text \<open>
  C32. Routing round trip. Every packet a controller makes, with ports that fit sixteen
  bits, is looked up at the other host under the controller's key with both halves swapped,
  and its listener under the first half; the reset that a host sends back for such a packet
  is looked up at the first host under the controller's own key.
\<close>

theorem packets_are_routed_to_the_peer:
  assumes "ports_ok (tcp_key c)" "MakeDataPacket c seq data n = Inr dp"
    and "p \<in> {MakeAckPacket ops c an, MakeSyncPacket ops c seq, MakeFinPacket c seq, MakeRstPacket c,
      fst (MakeDataPacket_from ops c seq buf n), dp}"
  shows "packet_key p = reverse_key (tcp_key c) \<and>
    listener_key p = LocalLayerThreeKey_new (key_source_ip (tcp_key c)) (key_source_port (tcp_key c)) \<and>
    packets (send_pkt_queue (SendBackRST (packet_key p) h)) =
      packets (send_pkt_queue h) @ [rst_back (packet_key p)] \<and>
    packet_key (rst_back (packet_key p)) = tcp_key c"
proof -
  have "carries_key (tcp_key c) p"
    using assms(3)
    by (elim insertE emptyE) (simp_all add: made_packets_carry_key made_data_carries_key [OF assms(2)])
  with assms(1) have "packet_key p = reverse_key (tcp_key c)"
    "listener_key p = LocalLayerThreeKey_new (key_source_ip (tcp_key c)) (key_source_port (tcp_key c))"
    by (simp_all add: packet_key_carried listener_key_carried)
  then show ?thesis
    using packet_key_carried [OF rst_back_carries, of "packet_key p"] assms(1) by (simp add: SendBackRST_eq)
qed

theorem packets_are_routed_to_the_peer_witness:
  "packet_key (MakeRstPacket client0) = reverse_key (TcpControllerKey_new ''10.0.0.2'' 80 ''10.0.0.1'' 7)"
proof -
  have "tcp_key client0 = TcpControllerKey_new ''10.0.0.2'' 80 ''10.0.0.1'' 7"
    by (simp add: client0_def TcpController_new_def)
  moreover have "ports_ok (TcpControllerKey_new ''10.0.0.2'' 80 ''10.0.0.1'' 7)"
    by (simp add: ports_ok_def TcpControllerKey_new_def)
  moreover obtain dp where "MakeDataPacket client0 0 None 0 = Inr dp"
    by (simp add: MakeDataPacket_def Packet_bytes_def InjectPayload_def)
  ultimately show ?thesis
    using packets_are_routed_to_the_peer [of client0 0 None 0 dp "MakeRstPacket client0",
        where h = "Host_new [] [] :: list_buffer Host"] by simp
qed

text \<open>
  C34. A batch for known connections. Every packet of the batch is queued at the connection
  its headers name, in the order of the batch, behind what is queued there already; other
  packets do not reach it, and nothing is left over.
\<close>

theorem known_connections_get_their_packets_in_order:
  assumes "length ps < 4294967296" "inj_on (connections h) (dom (connections h))"
    and "\<forall>p \<in> set ps. \<exists>a. connections h (packet_key p) = Some a \<and> a \<in> dom (tcp_objects h)"
    and "connections h k = Some a" "tcp_objects h a = Some c"
  shows "\<exists>h' c'. DemultiplexPacketsToTcps ops shutdown0 ps h = Inr (Returns ([], h')) \<and>
    tcp_objects h' a = Some c' \<and>
    packets (pkt_recv_buffer c') = packets (pkt_recv_buffer c) @ filter (\<lambda>p. packet_key p = k) ps"
proof -
  have "k' = k" if "connections h k' = Some a" for k'
    using inj_onD [OF assms(2), of k' k] that assms(4) by auto
  from delivered_to_object [where conns = "connections h" and k = k, OF assms(5,4) this, of ps] demultiplex_known [OF assms(3)] assms(1)
  show ?thesis by (auto simp: DemultiplexPacketsToTcps_def unat_of_nat_u32)
qed

text \<open>A host with one connection, and a packet for it.\<close>

definition routed_host :: "list_buffer Host" where
  "routed_host = (Host_new ''server'' ''10.0.0.2'')
     \<lparr>connections := [reverse_key (tcp_key client0) \<mapsto> 0], tcp_objects := [0 \<mapsto> client0], next_tcp := 1\<rparr>"

theorem known_connections_get_their_packets_in_order_witness:
  "\<exists>h' c'. DemultiplexPacketsToTcps list_ring False [MakeFinPacket client0 5] routed_host = Inr (Returns ([], h')) \<and>
    tcp_objects h' 0 = Some c' \<and> packets (pkt_recv_buffer c') = [MakeFinPacket client0 5]"
proof -
  have "tcp_key client0 = TcpControllerKey_new ''10.0.0.2'' 80 ''10.0.0.1'' 7"
    by (simp add: client0_def TcpController_new_def)
  then have "ports_ok (tcp_key client0)" by (simp add: ports_ok_def TcpControllerKey_new_def)
  then have key: "packet_key (MakeFinPacket client0 5) = reverse_key (tcp_key client0)"
    using packet_key_carried made_packets_carry_key(3) by blast
  have empty: "packets (pkt_recv_buffer client0) = []"
    by (simp add: client0_def TcpController_new_def PacketQueue_new_def)
  show ?thesis
    using known_connections_get_their_packets_in_order
      [of "[MakeFinPacket client0 5]" routed_host "reverse_key (tcp_key client0)" 0 client0 list_ring False] key empty
    by (simp add: routed_host_def)
qed

lemma demultiplex_refused:
  assumes "connections h (packet_key p) = None" "\<not> sync (tcp_header p)" "\<not> rst (tcp_header p)"
  shows "demultiplex ops shutdown0 n (p # ps) h =
    Inr (Returns (p # ps, h\<lparr>send_pkt_queue := (send_pkt_queue h)
      \<lparr>packets := packets (send_pkt_queue h) @ replicate n (rst_back (packet_key p))\<rparr>\<rparr>))"
  using assms(1)
proof (induction n arbitrary: h)
  case (Suc n)
  with assms(2,3) show ?case
    by (simp add: HandleNewConnection_def SendBackRST_eq)
qed simp



section \<open>Passive open\<close>

lemma CreateNewSocket_ok:
  assumes "Allocate (open_file_id_pool h) = (fid, pl)" "0 \<le> fid" "open_files_table h fid = None"
  shows "CreateNewSocket h = (fid, h\<lparr>open_file_id_pool := pl,
    open_files_table := (open_files_table h)(fid \<mapsto> IncRef (KernelOpenFile_new SOCKET))\<rparr>)"
  using assms by (simp add: CreateNewSocket_def emplace_def domIff)

definition accepted_host ::
  "'b ring_ops \<Rightarrow> Packet \<Rightarrow> int32 \<Rightarrow> NumPool \<Rightarrow> int32 list \<Rightarrow> Packet list \<Rightarrow> 'b Host \<Rightarrow> 'b Host" where
  "accepted_host ops p fid pl fs queued h =
     h\<lparr>open_file_id_pool := pl,
       open_files_table := (open_files_table h)(fid \<mapsto>
         (IncRef (KernelOpenFile_new SOCKET))\<lparr>socket := Socket_new\<lparr>tcp_con := Some (next_tcp h)\<rparr>\<rparr>),
       connections := (connections h)(packet_key p \<mapsto> next_tcp h),
       tcp_objects := (tcp_objects h)(next_tcp h \<mapsto>
         (server_controller ops fid (packet_key p) p)\<lparr>pkt_recv_buffer := PacketQueue_new\<lparr>packets := queued\<rparr>\<rparr>),
       next_tcp := Suc (next_tcp h),
       listeners := (listeners h)(listener_key p \<mapsto> fs @ [fid])\<rparr>"

lemma HandleNewConnection_ok:
  assumes "sync (tcp_header p)" "pkt_normal p" "listeners h (listener_key p) = Some fs"
    and "Allocate (open_file_id_pool h) = (fid, pl)" "0 \<le> fid" "open_files_table h fid = None"
    and "connections h (packet_key p) = None"
  shows "HandleNewConnection ops False p h = Inr (Returns (True, accepted_host ops p fid pl fs [p] h))"
proof -
  have "socket (IncRef (KernelOpenFile_new SOCKET)) = Socket_new"
    by (simp add: IncRef_def KernelOpenFile_new_def)
  then show ?thesis
    using assms
    by (simp add: HandleNewConnection_def CreateNewSocket_ok Let_def emplace_connection_def domIff connection_at_def
        Copy_normal attach_tcp_def set_socket_def deliver_to_def deref_def store_tcp_def ReceiveNewPacket_def
        Push_def accepted_host_def server_controller_def TcpController_new_def PacketQueue_new_def)
qed

lemma demultiplex_new:
  assumes "sync (tcp_header p)" "pkt_normal p" "listeners h (listener_key p) = Some fs"
    and "Allocate (open_file_id_pool h) = (fid, pl)" "0 \<le> fid" "open_files_table h fid = None"
    and "connections h (packet_key p) = None"
  shows "DemultiplexPacketsToTcps ops False [p] h =
    Inr (Returns ([], accepted_host ops p fid pl fs [p, p] h))"
  using HandleNewConnection_ok [OF assms, of ops] assms(7)
  by (simp add: DemultiplexPacketsToTcps_def connection_at_def deliver_to_def deref_def store_tcp_def
      accepted_host_def ReceiveNewPacket_def Push_def)

text \<open>A repeated SYN makes the server repeat its SYN-ACK.\<close>

lemma HandleSYN_again:
  assumes "sync (tcp_header p)" "\<not> ack (tcp_header p)" "recv_base (recv_window c) = pkt_seq p + 1"
    and "unat (pkt_seq p) < 4294967295" "send_window c = register_pkt w sa"
    and "pkts_to_ack w = []" "sw_size w = 0" "payload_size sa = 1" "pkt_normal sa"
  shows "\<exists>c'. HandleReceivedPacket env m c p = Inr (m, c') \<and> tcp_state c' = tcp_state c \<and>
    packets (pkt_send_buffer c') = packets (pkt_send_buffer c) @ [sa]"
proof -
  have "pkt_seq p < recv_base (recv_window c)"
    using assms(3,4) by (simp add: word_less_nat_alt unat_add_u32)
  then have "ReceivePacket (recv_window c) p = Inr (pkt_seq p + 1, [], recv_window c)"
    using assms(3) by (simp add: ReceivePacket_old)
  moreover have "\<exists>w'. GetBasePakcketToReSend (send_window c) = Inr (Some sa, w')"
    using assms(5,6,9) by (simp add: GetBasePakcketToReSend_def register_pkt_def SendWindowNode_new_def Copy_normal)
  moreover have "sw_size (send_window c) > 0" using assms(5,7,8) by simp
  ultimately show ?thesis
    using assms(1,2) by (auto simp: HandleReceivedPacket_def HandleSYN_def resend_base_packet_def)
qed

text \<open>
  C36. Passive open. A SYN for a port with a listener makes the host create a socket and a
  connection with the SYN's sequence number as receive base, queue the socket's file id for
  \<^verbatim>\<open>Accept\<close>, and connect socket, connection and key. The SYN is handed to the new connection
  twice, once as a copy and once itself, so that the connection answers with two identical
  SYN-ACKs.
\<close>

theorem passive_open_delivers_syn_twice:
  assumes "sync (tcp_header p)" "\<not> ack (tcp_header p)" "payload_size p = 1" "pkt_normal p"
    and "unat (pkt_seq p) < 4294967295" "listeners h (listener_key p) = Some fs"
    and "connections h (packet_key p) = None"
    and "Allocate (open_file_id_pool h) = (fid, pl)" "0 \<le> fid" "open_files_table h fid = None"
  shows "\<exists>h' c m' c' sa. DemultiplexPacketsToTcps ops False [p] h = Inr (Returns ([], h')) \<and>
    connections h' (packet_key p) = Some (next_tcp h) \<and> tcp_objects h' (next_tcp h) = Some c \<and>
    tcp_key c = packet_key p \<and> tcp_socket c = fid \<and> recv_base (recv_window c) = pkt_seq p \<and>
    GetSocket h' fid = Some (Socket_new\<lparr>tcp_con := Some (next_tcp h)\<rparr>) \<and>
    listeners h' (listener_key p) = Some (fs @ [fid]) \<and>
    packets (pkt_recv_buffer c) = [p, p] \<and>
    (ring env = ops \<longrightarrow> HandleReceivedPackets env m c [p, p] = Inr (m', c') \<and>
      tcp_state c' = SYN_RCVD \<and> packets (pkt_send_buffer c') = [sa, sa])"
proof -
  let ?c = "(server_controller ops fid (packet_key p) p)\<lparr>pkt_recv_buffer := PacketQueue_new\<lparr>packets := [p, p]\<rparr>\<rparr>"
  let ?h = "accepted_host ops p fid pl fs [p, p] h"
  define sa where "sa = syn_ack_packet (ring env) ?c (pkt_seq p + 1)"
  obtain c1 where c1: "HandleReceivedPacket env m ?c p = Inr (m, c1)" "tcp_state c1 = SYN_RCVD"
      "recv_window c1 = (recv_window ?c)\<lparr>recv_base := pkt_seq p + 1\<rparr>"
      "send_window c1 = register_pkt (send_window ?c) sa" "packets (pkt_send_buffer c1) = [sa]"
    using HandleSYN_fresh [of p ?c env m] assms(1-3) by (auto simp: sa_def)
  obtain c2 where c2: "HandleReceivedPacket env m c1 p = Inr (m, c2)" "tcp_state c2 = SYN_RCVD"
      "packets (pkt_send_buffer c2) = [sa, sa]"
    using HandleSYN_again [of p c1 "send_window ?c" sa env m] c1 assms(1,2,5) by (auto simp: sa_def)
  have "HandleReceivedPackets env m ?c [p, p] = Inr (m, c2)" using c1(1) c2(1) by simp
  moreover have "DemultiplexPacketsToTcps ops False [p] h = Inr (Returns ([], ?h))"
    using demultiplex_new [OF assms(1,4,6,8-10,7)] .
  moreover have "GetSocket ?h fid = Some (Socket_new\<lparr>tcp_con := Some (next_tcp h)\<rparr>)"
    by (simp add: GetSocket_def accepted_host_def IncRef_def KernelOpenFile_new_def)
  moreover have "tcp_objects ?h (next_tcp h) = Some ?c" "connections ?h (packet_key p) = Some (next_tcp h)"
    "listeners ?h (listener_key p) = Some (fs @ [fid])"
    by (simp_all add: accepted_host_def)
  moreover have "tcp_key ?c = packet_key p" "tcp_socket ?c = fid" "recv_base (recv_window ?c) = pkt_seq p"
    by (simp_all add: server_controller_def TcpController_new_def GetDefaultOptions_def RecvWindow_new_def)
  ultimately show ?thesis
    using c2(2,3) by (intro exI [of _ ?h] exI [of _ ?c] exI [of _ m] exI [of _ c2] exI [of _ sa]) simp
qed

definition listening_host :: "list_buffer Host" where
  "listening_host = (Host_new ''server'' ''10.0.0.2'')
     \<lparr>listeners := [LocalLayerThreeKey_new ''10.0.0.2'' 80 \<mapsto> []]\<rparr>"

lemma Allocate_new:
  assumes "mn \<le> mx"
  shows "Allocate (NumPool_new mn mx) = (mn, (NumPool_new mn mx)\<lparr>pool := {mn..mx} - {mn}\<rparr>)"
proof -
  have "Min {mn..mx} = mn" using assms by (intro Min_eqI) auto
  then show ?thesis using assms by (simp add: Allocate_smallest)
qed

theorem passive_open_delivers_syn_twice_witness:
  "\<exists>h' c. DemultiplexPacketsToTcps list_ring False [MakeSyncPacket list_ring client0 0] listening_host = Inr (Returns ([], h')) \<and>
    tcp_objects h' 0 = Some c \<and>
    packets (pkt_recv_buffer c) = [MakeSyncPacket list_ring client0 0, MakeSyncPacket list_ring client0 0]"
proof -
  let ?p = "MakeSyncPacket list_ring client0 0"
  have key: "tcp_key client0 = TcpControllerKey_new ''10.0.0.2'' 80 ''10.0.0.1'' 7"
    by (simp add: client0_def TcpController_new_def)
  then have "ports_ok (tcp_key client0)" by (simp add: ports_ok_def TcpControllerKey_new_def)
  from listener_key_carried [OF made_packets_carry_key(2) this]
  have lk: "listener_key ?p = LocalLayerThreeKey_new ''10.0.0.2'' 80"
    by (simp add: key TcpControllerKey_new_def)
  have al: "Allocate (open_file_id_pool listening_host) =
      (0, (open_file_id_pool listening_host)\<lparr>pool := {0..255} - {0}\<rparr>)"
    using Allocate_new [of 0 255]
    by (simp add: listening_host_def Host_new_eq kMinOpenFileId_def kMaxOpenFileId_def)
  have fields: "listeners listening_host (LocalLayerThreeKey_new ''10.0.0.2'' 80) = Some []"
    "connections listening_host = Map.empty" "open_files_table listening_host = Map.empty" "next_tcp listening_host = 0"
    by (simp_all add: listening_host_def Host_new_eq)
  show ?thesis
    using passive_open_delivers_syn_twice [OF _ _ _ _ _ _ _ al, of ?p "[]" list_ring list_env 3] lk fields by auto
qed

end
