(* ===== verification/Host_Resources.thy ===== *)
theory Host_Resources
  imports Process_Calls Host_Routing
begin

text \<open>
  The resources of a host: descriptors, open files, ports and connections. First what the
  system calls do to the pools; then an invariant that ties sockets, connections and
  controllers together, kept by everything the host does.
\<close>

section \<open>Descriptors, files and ports\<close>

lemma set_socket_frame [simp]:
  "port_pool (set_socket fid s h) = port_pool h" "open_file_id_pool (set_socket fid s h) = open_file_id_pool h"
  "connections (set_socket fid s h) = connections h" "tcp_objects (set_socket fid s h) = tcp_objects h"
  "next_tcp (set_socket fid s h) = next_tcp h" "dom (open_files_table (set_socket fid s h)) = dom (open_files_table h)"
  by (auto simp: set_socket_def split: option.splits)

lemma set_socket_at:
  "open_files_table h fid = Some f \<Longrightarrow>
    set_socket fid s h = h\<lparr>open_files_table := (open_files_table h)(fid \<mapsto> f\<lparr>socket := s\<rparr>)\<rparr>"
  by (simp add: set_socket_def)

lemma SocketBind_iff:
  "fst (SocketBind fid ip port h) \<longleftrightarrow>
    (\<exists>s. GetSocket h fid = Some s \<and> \<not> isBound s) \<and> int32_of_uint32 port \<in> pool (port_pool h)"
  by (auto simp: SocketBind_def Take_def split: option.splits)

lemma SocketBind_pool:
  "fst (SocketBind fid ip port h) \<Longrightarrow>
    pool (port_pool (snd (SocketBind fid ip port h))) = pool (port_pool h) - {int32_of_uint32 port}"
  by (auto simp: SocketBind_def Take_def split: option.splits if_splits)

text \<open>
  Ports are exclusive: after \<^verbatim>\<open>Bind\<close> a second \<^verbatim>\<open>Bind\<close> to the same port fails on every socket,
  and the port is in the pool again only after it is released.
\<close>

lemma bound_port_is_exclusive:
  assumes "SocketBind fid ip port h = (True, h')"
  shows "int32_of_uint32 port \<in> pool (port_pool h) \<and> (\<exists>s. GetSocket h fid = Some s \<and> \<not> isBound s) \<and>
    fst (SocketBind fid2 ip2 port h') = False \<and> fst (Take (port_pool h') (int32_of_uint32 port)) = False \<and>
    fst (Take (port_pool (ReleasePort port h')) (int32_of_uint32 port))"
proof -
  have "fst (SocketBind fid ip port h)" "snd (SocketBind fid ip port h) = h'" using assms by simp_all
  with SocketBind_iff [of fid ip port h] SocketBind_pool [of fid ip port h] show ?thesis
    by (simp add: SocketBind_iff Take_def ReleasePort_def Release_def)
qed

text \<open>
  C39. The life of a socket that is never connected. \<^verbatim>\<open>Socket\<close>, \<^verbatim>\<open>Bind\<close> and \<^verbatim>\<open>Close\<close> all
  succeed, and afterwards the descriptor table, the free descriptors, the free ports and the
  open file table are what they were. The open file id is not given back: the pool of ids
  has lost one.
\<close>

theorem socket_bind_close_round_trip:
  assumes fd: "Allocate (fd_pool p) = (fd, fpl)" "0 \<le> fd" "pool_wf (fd_pool p)" "fd_table p fd = None"
    and fid: "Allocate (open_file_id_pool h) = (fid, ipl)" "0 \<le> fid" "open_files_table h fid = None"
    and port: "ip \<noteq> []" "port \<noteq> 0" "unat port < 2147483648" "int32_of_uint32 port \<in> pool (port_pool h)"
  shows "\<exists>p1 h1 h2 p3 h3. Process_Socket p h = (fd, p1, h1) \<and> Process_Bind p1 fd ip port h1 = (True, h2) \<and>
    Process_Close p1 fd h2 = Inr (True, p3, h3) \<and>
    fd_table p3 = fd_table p \<and> pool (fd_pool p3) = pool (fd_pool p) \<and>
    pool (port_pool h3) = pool (port_pool h) \<and> open_files_table h3 = open_files_table h \<and>
    open_file_id_pool h3 = snd (Allocate (open_file_id_pool h))"
proof -
  let ?f = "IncRef (KernelOpenFile_new SOCKET)"
  let ?p1 = "p\<lparr>fd_pool := fpl, fd_table := (fd_table p)(fd \<mapsto> fid)\<rparr>"
  let ?h1 = "h\<lparr>open_file_id_pool := ipl, open_files_table := (open_files_table h)(fid \<mapsto> ?f)\<rparr>"
  let ?f2 = "?f\<lparr>socket := Socket_Bind_addr Socket_new ip port\<rparr>"
  let ?h2 = "?h1\<lparr>port_pool := (port_pool h)\<lparr>pool := pool (port_pool h) - {int32_of_uint32 port}\<rparr>,
      open_files_table := (open_files_table h)(fid \<mapsto> ?f2)\<rparr>"
  have f: "socket ?f = Socket_new" "file_type ?f = SOCKET" "Refs ?f = 1"
    by (simp_all add: IncRef_def KernelOpenFile_new_def Refs_def int32_of_uint32_def)
  have s1: "Process_Socket p h = (fd, ?p1, ?h1)"
    using fd fid by (simp add: Process_Socket_def CreateNewSocket_ok emplace_def domIff)
  have fdt: "FindFdMappedFileId ?p1 fd = fid" by (simp add: FindFdMappedFileId_def)
  have s2: "Process_Bind ?p1 fd ip port ?h1 = (True, ?h2)"
    using fid(2) port(4) f fdt
    by (simp add: Process_Bind_def SocketBind_def GetSocket_def Take_def set_socket_def)
  have bound: "isBound (Socket_Bind_addr Socket_new ip port)"
    using port by (simp add: isBound_Bind_addr)
  have rel: "ReleasePort (word_of_int (local_port (local_bound (Socket_Bind_addr Socket_new ip port)))) h' =
      h'\<lparr>port_pool := Release (port_pool h') (int32_of_uint32 port)\<rparr>" for h' :: "'a Host"
    by (simp add: ReleasePort_def Socket_Bind_addr_def int32_of_uint32_def)
  have "tcp_con (Socket_Bind_addr Socket_new ip port) = None"
    by (simp add: Socket_Bind_addr_def Socket_new_def)
  then have s3: "Process_Close ?p1 fd ?h2 = Inr (True, ?p1\<lparr>fd_table := (fd_table p)(fd := None),
        fd_pool := Release fpl fd\<rparr>,
      ?h2\<lparr>port_pool := Release (port_pool ?h2) (int32_of_uint32 port),
        open_files_table := (open_files_table h)(fid := None)\<rparr>)"
    using fid(2) f bound fdt rel by (simp add: Process_Close_def DecOpenFileRef_def Refs_def)
  have "fd \<in> pool (fd_pool p)" "pool fpl = pool (fd_pool p) - {fd}"
    using num_pool.alloc_some [OF fd(3,1,2)] by simp_all
  then have "pool (Release fpl fd) = pool (fd_pool p)" by (auto simp: Release_def)
  moreover have "pool (Release (port_pool ?h2) (int32_of_uint32 port)) = pool (port_pool h)"
    using port(4) by (auto simp: Release_def)
  moreover have "(fd_table p)(fd := None) = fd_table p" "(open_files_table h)(fid := None) = open_files_table h"
    using fd(4) fid(3) by auto
  ultimately show ?thesis
    using s1 s2 s3 fid(1) by (intro exI conjI) (assumption | simp)+
qed

theorem socket_bind_close_round_trip_witness:
  "\<exists>p1 h1 h2 p3 h3. Process_Socket (Process_new ''p'') (Host_new ''h'' ''10.0.0.1'' :: list_buffer Host) = (3, p1, h1) \<and>
    Process_Bind p1 3 ''10.0.0.1'' 80 h1 = (True, h2) \<and> Process_Close p1 3 h2 = Inr (True, p3, h3) \<and>
    pool (port_pool h3) = {0..127} \<and> pool (open_file_id_pool h3) = {0..255} - {0}"
proof -
  let ?p = "Process_new ''p''" and ?h = "Host_new ''h'' ''10.0.0.1'' :: list_buffer Host"
  have fd: "Allocate (fd_pool ?p) = (3, (NumPool_new 3 63)\<lparr>pool := {3..63} - {3}\<rparr>)" "pool_wf (fd_pool ?p)"
    "fd_table ?p 3 = None"
    using Allocate_new [of 3 63] by (simp_all add: Process_new_def kMinFd_def kMaxFd_def pool_wf_def)
  have fid: "Allocate (open_file_id_pool ?h) = (0, (NumPool_new 0 255)\<lparr>pool := {0..255} - {0}\<rparr>)"
    "open_files_table ?h 0 = None"
    using Allocate_new [of 0 255] by (simp_all add: Host_new_eq kMinOpenFileId_def kMaxOpenFileId_def)
  have port: "int32_of_uint32 80 \<in> pool (port_pool ?h)" "pool (port_pool ?h) = {0..127}"
    by (simp_all add: Host_new_eq kMinPort_def kMaxPort_def int32_of_uint32_def)
  have "\<exists>p1 h1 h2 p3 h3. Process_Socket ?p ?h = (3, p1, h1) \<and> Process_Bind p1 3 ''10.0.0.1'' 80 h1 = (True, h2) \<and>
      Process_Close p1 3 h2 = Inr (True, p3, h3) \<and> fd_table p3 = fd_table ?p \<and> pool (fd_pool p3) = pool (fd_pool ?p) \<and>
      pool (port_pool h3) = pool (port_pool ?h) \<and> open_files_table h3 = open_files_table ?h \<and>
      open_file_id_pool h3 = snd (Allocate (open_file_id_pool ?h))"
    by (rule socket_bind_close_round_trip [OF fd(1) _ fd(2,3) fid(1) _ fid(2) _ _ _ port(1)]) simp_all
  then show ?thesis using port(2) fid(1) by auto
qed

section \<open>Sockets, connections and controllers\<close>

text \<open>
  The invariant. File ids in the table are not in the pool; every connection owns a live
  controller that has its key, every controller is owned, addresses are fresh; and a socket
  that points to a controller points to a live one, which points back to it.
\<close>

definition owned_tcp :: "'b Host \<Rightarrow> bool" where
  "owned_tcp h \<longleftrightarrow>
     (\<forall>k a. connections h k = Some a \<longrightarrow> (\<exists>c. tcp_objects h a = Some c \<and> tcp_key c = k)) \<and>
     dom (tcp_objects h) \<subseteq> ran (connections h) \<and> (\<forall>a \<in> dom (tcp_objects h). a < next_tcp h)"

definition sockets_ok :: "'b Host \<Rightarrow> bool" where
  "sockets_ok h \<longleftrightarrow>
     (\<forall>fid f a. open_files_table h fid = Some f \<and> tcp_con (socket f) = Some a \<longrightarrow>
        (\<exists>c. tcp_objects h a = Some c \<and> tcp_socket c = fid))"

definition files_ok :: "'b Host \<Rightarrow> bool" where
  "files_ok h \<longleftrightarrow> pool_wf (open_file_id_pool h) \<and> dom (open_files_table h) \<inter> pool (open_file_id_pool h) = {}"

definition host_inv :: "'b Host \<Rightarrow> bool" where
  "host_inv h \<longleftrightarrow> files_ok h \<and> owned_tcp h \<and> sockets_ok h"

lemma host_inv_new: "host_inv (Host_new name ip)"
  by (simp add: host_inv_def files_ok_def owned_tcp_def sockets_ok_def Host_new_eq pool_wf_def
      kMinOpenFileId_def kMaxOpenFileId_def)

text \<open>The invariant looks only at these five fields.\<close>

lemma host_inv_cong:
  assumes "open_file_id_pool h' = open_file_id_pool h" "open_files_table h' = open_files_table h"
    "connections h' = connections h" "tcp_objects h' = tcp_objects h" "next_tcp h' = next_tcp h"
  shows "host_inv h' = host_inv h"
  using assms by (simp add: host_inv_def files_ok_def owned_tcp_def sockets_ok_def)

lemma host_inv_frame [simp]:
  "host_inv (h\<lparr>port_pool := pl\<rparr>) = host_inv h" "host_inv (h\<lparr>listeners := l\<rparr>) = host_inv h"
  "host_inv (h\<lparr>recv_pkt_queue := q\<rparr>) = host_inv h" "host_inv (h\<lparr>send_pkt_queue := q\<rparr>) = host_inv h"
  "host_inv (ReleasePort port h) = host_inv h" "host_inv (SendBackRST key h) = host_inv h"
  by (rule host_inv_cong; simp add: ReleasePort_def SendBackRST_def)+

lemma host_inv_set_socket:
  assumes "host_inv h" "open_files_table h fid = Some f" "tcp_con s = tcp_con (socket f) \<or> tcp_con s = None"
  shows "host_inv (set_socket fid s h)"
  using assms by (auto simp: host_inv_def files_ok_def owned_tcp_def sockets_ok_def set_socket_at)

lemma host_inv_store:
  assumes "host_inv h" "tcp_objects h a = Some c" "tcp_key c' = tcp_key c" "tcp_socket c' = tcp_socket c"
  shows "host_inv (store_tcp a c' h)"
  using assms unfolding host_inv_def files_ok_def owned_tcp_def sockets_ok_def store_tcp_def
  by (auto simp: ran_def) (metis option.inject)+

lemma host_inv_create:
  assumes "host_inv h" "CreateNewSocket h = (fid, h')"
  shows "host_inv h' \<and> connections h' = connections h \<and> tcp_objects h' = tcp_objects h \<and>
    next_tcp h' = next_tcp h \<and> (0 \<le> fid \<longrightarrow> fid \<in> dom (open_files_table h'))"
proof -
  obtain i pl where al: "Allocate (open_file_id_pool h) = (i, pl)" by force
  have wf: "pool_wf (open_file_id_pool h)" using assms(1) by (simp add: host_inv_def files_ok_def)
  show ?thesis
  proof (cases "i < 0")
    case True
    then have "pl = open_file_id_pool h" using num_pool.alloc_none [OF wf al] by simp
    with True al assms show ?thesis by (auto simp: CreateNewSocket_def)
  next
    case False
    then have al': "i \<in> pool (open_file_id_pool h)" "pool pl = pool (open_file_id_pool h) - {i}" "pool_wf pl"
      using num_pool.alloc_some [OF wf al] by auto
    then have none: "open_files_table h i = None"
      using assms(1) by (auto simp: host_inv_def files_ok_def domIff)
    have h': "fid = i" "h' = h\<lparr>open_file_id_pool := pl,
        open_files_table := (open_files_table h)(i \<mapsto> IncRef (KernelOpenFile_new SOCKET))\<rparr>"
      using assms(2) CreateNewSocket_ok [OF al _ none] False by auto
    have "tcp_con (socket (IncRef (KernelOpenFile_new SOCKET))) = None"
      by (simp add: IncRef_def KernelOpenFile_new_def Socket_new_def)
    with assms(1) al' h' show ?thesis
      by (auto simp: host_inv_def files_ok_def owned_tcp_def sockets_ok_def)
  qed
qed

lemma host_inv_erase_file: "host_inv h \<Longrightarrow> host_inv (h\<lparr>open_files_table := (open_files_table h)(fid := None)\<rparr>)"
  by (auto simp: host_inv_def files_ok_def owned_tcp_def sockets_ok_def)

lemma host_inv_refs:
  "host_inv h \<Longrightarrow> open_files_table h fid = Some f \<Longrightarrow> socket f' = socket f \<Longrightarrow>
    host_inv (h\<lparr>open_files_table := (open_files_table h)(fid \<mapsto> f')\<rparr>)"
  by (auto simp: host_inv_def files_ok_def owned_tcp_def sockets_ok_def)

lemma GetSocketD:
  "GetSocket h fid = Some s \<Longrightarrow> \<exists>f. open_files_table h fid = Some f \<and> socket f = s"
  by (auto simp: GetSocket_def split: option.splits if_splits)

lemma host_inv_socket_tcp:
  assumes "host_inv h" "open_files_table h fid = Some f" "tcp_con (socket f) = Some a"
  obtains c where "tcp_objects h a = Some c" "tcp_socket c = fid"
  using assms unfolding host_inv_def sockets_ok_def by blast

lemma derefD: "deref h p = Inr c \<Longrightarrow> \<exists>a. p = Some a \<and> tcp_objects h a = Some c"
  by (auto simp: deref_def split: option.splits)

text \<open>No call of a controller changes whose connection it is.\<close>

lemma identity_frames [simp]:
  "tcp_key (timer_op t call c) = tcp_key c" "tcp_socket (timer_op t call c) = tcp_socket c"
  "tcp_key (ReceiveNewPacket pkt c) = tcp_key c" "tcp_socket (ReceiveNewPacket pkt c) = tcp_socket c"
  "tcp_key (snd (TryShutDown c)) = tcp_key c" "tcp_socket (snd (TryShutDown c)) = tcp_socket c"
  "tcp_key (snd (TryClose c)) = tcp_key c" "tcp_socket (snd (TryClose c)) = tcp_socket c"
  "tcp_key (SetReleasePort b c) = tcp_key c" "tcp_socket (SetReleasePort b c) = tcp_socket c"
  by (simp_all add: ReceiveNewPacket_def TryShutDown_def TryClose_def CloseConnection_def AddTask_def
      SetReleasePort_def timer_op_def)

lemma TearDown_queues_identity:
  "TearDown_queues c = (r, c') \<Longrightarrow> tcp_key c' = tcp_key c \<and> tcp_socket c' = tcp_socket c \<and>
    shutdown_flag c' = shutdown_flag c \<and> release_port c' = release_port c"
  by (auto simp: TearDown_queues_def Let_def split: prod.splits waits.splits)

lemma TryConnect_identity:
  "TryConnect ops c = Inr (r, c') \<Longrightarrow> tcp_key c' = tcp_key c \<and> tcp_socket c' = tcp_socket c"
  by (auto simp: TryConnect_def Let_def bindR_Inr_iff split: if_splits)

lemma ReadData_identity:
  "ReadData ops c sz = Inr (Returns (r, c')) \<Longrightarrow> tcp_key c' = tcp_key c \<and> tcp_socket c' = tcp_socket c"
  by (auto simp: ReadData_def Let_def split: if_splits prod.splits)

lemma WriteData_identity:
  "WriteData ops c buf sz = Returns (r, c') \<Longrightarrow> tcp_key c' = tcp_key c \<and> tcp_socket c' = tcp_socket c"
  by (auto simp: WriteData_def split: if_splits prod.splits)

section \<open>Everything the host does keeps the invariant\<close>

text \<open>
  After a controller is torn down no socket points to it, so it can be deleted.
\<close>

definition no_socket_to :: "tcp_ptr \<Rightarrow> 'b Host \<Rightarrow> bool" where
  "no_socket_to a h \<longleftrightarrow> (\<forall>fid f. open_files_table h fid = Some f \<longrightarrow> tcp_con (socket f) \<noteq> Some a)"

lemma TearDown_inv:
  assumes "host_inv h" "TearDown a h = Inr (Returns h')"
  shows "host_inv h' \<and> no_socket_to a h' \<and> connections h' = connections h \<and> next_tcp h' = next_tcp h \<and>
    (\<exists>c c'. tcp_objects h a = Some c \<and> tcp_objects h' = (tcp_objects h)(a \<mapsto> c') \<and> tcp_key c' = tcp_key c)"
proof -
  obtain c where c: "tcp_objects h a = Some c" and
    rest: "(case TearDown_queues c of (Blocks, c1) \<Rightarrow> Inr Blocks
       | (Returns _, c1) \<Rightarrow> bindR (DetachSocket (tcp_socket c1) (store_tcp a c1 h)) (\<lambda>h1.
             if \<not> shutdown_flag c1 then Inl (Diverges ''AwaitTermination of running listeners'')
             else Inr (Returns (if release_port c1
                then ReleasePort (word_of_int (key_dest_port (tcp_key c1))) h1 else h1)))) = Inr (Returns h')"
    using assms(2) unfolding TearDown_def bindR_Inr_iff by (auto dest!: derefD)
  obtain r c1 where td: "TearDown_queues c = (r, c1)" by force
  note same = TearDown_queues_identity [OF td]
  obtain h1 where h1: "DetachSocket (tcp_socket c1) (store_tcp a c1 h) = Inr h1"
    and h': "h' = (if release_port c1 then ReleasePort (word_of_int (key_dest_port (tcp_key c1))) h1 else h1)"
    using rest td by (cases r) (auto simp: bindR_Inr_iff split: if_splits)
  obtain f where f: "open_files_table h (tcp_socket c1) = Some f"
      "h1 = set_socket (tcp_socket c1) ((socket f)\<lparr>tcp_con := None\<rparr>) (store_tcp a c1 h)"
    using h1 by (auto simp: DetachSocket_def store_tcp_def split: option.splits)
  have inv1: "host_inv (store_tcp a c1 h)" using host_inv_store [OF assms(1) c] same by simp
  then have "host_inv h1" unfolding f(2)
    by (rule host_inv_set_socket) (use f(1) in \<open>simp_all add: store_tcp_def\<close>)
  moreover have "fid = tcp_socket c1" if "open_files_table h fid = Some g" "tcp_con (socket g) = Some a" for fid g
    using host_inv_socket_tcp [OF assms(1) that] c same by fastforce
  then have "no_socket_to a h1"
    using f by (auto simp: no_socket_to_def set_socket_def store_tcp_def)
  moreover have "tcp_objects h1 = (tcp_objects h)(a \<mapsto> c1)" "connections h1 = connections h" "next_tcp h1 = next_tcp h"
    by (simp_all add: f(2) store_tcp_def)
  ultimately show ?thesis
    using c same unfolding h' by (auto simp: ReleasePort_def no_socket_to_def)
qed

lemma host_inv_delete:
  assumes "host_inv h" "connections h key = Some a" "no_socket_to a h"
  shows "host_inv (h\<lparr>connections := (connections h)(key := None), tcp_objects := (tcp_objects h)(a := None)\<rparr>)"
proof -
  have own: "\<exists>c. tcp_objects h b = Some c \<and> tcp_key c = k" if "connections h k = Some b" for k b
    using assms(1) that by (simp add: host_inv_def owned_tcp_def)
  have uniq: "k = key" if "connections h k = Some a" for k
    using own [OF that] own [OF assms(2)] by auto
  have "owned_tcp (h\<lparr>connections := (connections h)(key := None), tcp_objects := (tcp_objects h)(a := None)\<rparr>)"
  proof -
    have "b \<in> ran ((connections h)(key := None))" if "b \<in> dom (tcp_objects h)" "b \<noteq> a" for b
    proof -
      have "b \<in> ran (connections h)" using assms(1) that by (auto simp: host_inv_def owned_tcp_def)
      then obtain k where "connections h k = Some b" by (auto simp: ran_def)
      then show ?thesis using that(2) assms(2) by (auto simp: ran_def intro!: exI [of _ k])
    qed
    then show ?thesis
      using assms(1) own uniq by (auto simp: owned_tcp_def host_inv_def)
  qed
  then show ?thesis
    using assms(1,3) by (auto simp: host_inv_def files_ok_def sockets_ok_def no_socket_to_def)
qed

lemma DeleteTcpConnection_inv:
  assumes "host_inv h" "DeleteTcpConnection key h = Inr (Returns h')"
  shows "host_inv h'"
proof (cases "connections h key")
  case None
  with assms show ?thesis by (simp add: DeleteTcpConnection_def)
next
  case (Some a)
  then obtain h1 where h1: "TearDown a h = Inr (Returns h1)"
      "h' = h1\<lparr>connections := (connections h1)(key := None), tcp_objects := (tcp_objects h1)(a := None)\<rparr>"
    using assms(2) by (auto simp: DeleteTcpConnection_def bindR_Inr_iff waits_Returns_iff)
  from TearDown_inv [OF assms(1) h1(1)] Some show ?thesis
    unfolding h1(2) by (intro host_inv_delete) auto
qed

lemma shut_down_thread_inv:
  assumes "host_inv h" "shut_down_thread a h = Inr (Returns h')"
  shows "host_inv h'"
proof -
  obtain h1 key where "TearDown a h = Inr (Returns h1)" "DeleteTcpConnection key h1 = Inr (Returns h')"
    using assms(2) by (auto simp: shut_down_thread_def bindR_Inr_iff waits_Returns_iff)
  then show ?thesis using TearDown_inv [OF assms(1)] DeleteTcpConnection_inv by blast
qed

lemma DeleteSocketAndConnection_inv:
  assumes "host_inv h" "DeleteSocketAndConnection fid h = Inr (Returns h')"
  shows "host_inv h'"
  using assms host_inv_erase_file [OF assms(1), of fid]
  by (auto simp: DeleteSocketAndConnection_def bindR_Inr_iff Let_def split: option.splits if_splits
      dest: DeleteTcpConnection_inv)

lemma DecOpenFileRef_inv:
  assumes "host_inv h" "DecOpenFileRef fid h = Inr (r, h')"
  shows "host_inv h'"
proof (cases "open_files_table h fid")
  case (Some f)
  show ?thesis
  proof (cases "Refs f \<le> 1")
    case True
    show ?thesis
    proof (cases "tcp_con (socket f)")
      case None
      with Some True assms show ?thesis
        using host_inv_erase_file [of "if isBound (socket f)
          then ReleasePort (word_of_int (local_port (local_bound (socket f)))) h else h" fid]
        by (auto simp: DecOpenFileRef_def Let_def split: if_splits)
    next
      case (Some a)
      note tcp = Some
      then obtain c where c: "deref h (Some a) = Inr c"
        "h' = (store_tcp a (snd (TryClose (if isBound (socket f) then SetReleasePort True c else c))) h)
          \<lparr>open_files_table := (open_files_table h)(fid := None)\<rparr>"
        using \<open>open_files_table h fid = Some f\<close> True assms(2)
        by (auto simp: DecOpenFileRef_def Let_def bindR_Inr_iff store_tcp_def)
      have "host_inv (store_tcp a (snd (TryClose (if isBound (socket f) then SetReleasePort True c else c))) h)"
        using derefD [OF c(1)] by (intro host_inv_store [OF assms(1), where c = c]) auto
      from host_inv_erase_file [OF this, of fid] show ?thesis
        unfolding c(2) by (simp add: store_tcp_def)
    qed
  next
    case False
    with Some assms host_inv_refs [OF assms(1) Some, of "DecRef f"] show ?thesis
      by (auto simp: DecOpenFileRef_def DecRef_def)
  qed
qed (use assms in \<open>simp add: DecOpenFileRef_def\<close>)

lemma ReadData_inv:
  assumes "host_inv h" "Host_ReadData ops fid sz h = Inr (Returns (r, h'))"
  shows "host_inv h'"
  using assms
  by (auto simp: Host_ReadData_def bindR_Inr_iff waits_Returns_iff split_beta split: option.splits
      dest!: derefD ReadData_identity intro!: host_inv_store)

lemma WriteData_inv:
  assumes "host_inv h" "Host_WriteData ops fid buf sz h = Inr (Returns (r, h'))"
  shows "host_inv h'"
  using assms
  by (auto simp: Host_WriteData_def bindR_Inr_iff waits_Returns_iff split_beta split: option.splits if_splits
      dest!: derefD WriteData_identity intro!: host_inv_store)

lemma ShutDownSocket_inv:
  assumes "host_inv h" "ShutDownSocket fid h = Inr (r, h')"
  shows "host_inv h'"
proof (cases "GetSocket h fid")
  case (Some s)
  then obtain f where f: "open_files_table h fid = Some f" "socket f = s" using GetSocketD by blast
  have inv: "host_inv (set_socket fid (s\<lparr>sock_state := SHUTDOWN\<rparr>) h)"
    by (rule host_inv_set_socket [OF assms(1) f(1)]) (simp add: f(2))
  show ?thesis
  proof (cases "sock_state s = SHUTDOWN")
    case False
    then obtain c where c: "deref (set_socket fid (s\<lparr>sock_state := SHUTDOWN\<rparr>) h) (tcp_con s) = Inr c"
      "h' = store_tcp (the (tcp_con s)) (snd (TryShutDown c)) (set_socket fid (s\<lparr>sock_state := SHUTDOWN\<rparr>) h)"
      using Some assms(2) by (auto simp: ShutDownSocket_def Let_def bindR_Inr_iff split_beta)
    with derefD [OF c(1)] show ?thesis by (auto intro!: host_inv_store [OF inv])
  qed (use Some assms in \<open>simp add: ShutDownSocket_def\<close>)
qed (use assms in \<open>simp add: ShutDownSocket_def\<close>)

lemma SocketBind_inv:
  assumes "host_inv h" "SocketBind fid ip port h = (r, h')"
  shows "host_inv h'"
proof (cases "GetSocket h fid")
  case (Some s)
  then obtain f where f: "open_files_table h fid = Some f" "socket f = s" using GetSocketD by blast
  have "host_inv (set_socket fid (Socket_Bind_addr s ip port) (h\<lparr>port_pool := pl\<rparr>))" for pl
    by (rule host_inv_set_socket [where f = f]) (use assms(1) f in \<open>simp_all add: Socket_Bind_addr_def\<close>)
  with Some assms show ?thesis by (auto simp: SocketBind_def split: if_splits prod.splits)
qed (use assms in \<open>simp add: SocketBind_def\<close>)

text \<open>
  Opening a connection: a controller for a key that is free is stored at a fresh address.
  For a key that is taken the new controller is torn down at once while its listeners run,
  which does not return.
\<close>

lemma emplace_connection_Returns:
  assumes "emplace_connection key c h = Inr (Returns h')" "\<not> shutdown_flag c"
  shows "connections h key = None \<and> h' = h\<lparr>tcp_objects := (tcp_objects h)(next_tcp h \<mapsto> c),
    next_tcp := Suc (next_tcp h), connections := (connections h)(key \<mapsto> next_tcp h)\<rparr>"
proof -
  let ?h1 = "h\<lparr>tcp_objects := (tcp_objects h)(next_tcp h \<mapsto> c), next_tcp := Suc (next_tcp h)\<rparr>"
  have "TearDown (next_tcp h) ?h1 \<noteq> Inr (Returns h2)" for h2
  proof -
    obtain r c1 where td: "TearDown_queues c = (r, c1)" by force
    then show ?thesis
      using TearDown_queues_identity [OF td] assms(2)
      by (cases r) (auto simp: TearDown_def deref_def bindR_Inr_iff)
  qed
  then show ?thesis
    using assms(1)
    by (auto simp: emplace_connection_def Let_def bindR_Inr_iff waits_Returns_iff domIff split: if_splits)
qed

lemma host_inv_attach_tcp_objects [simp]:
  "tcp_objects (attach_tcp fid a h) = tcp_objects h" "connections (attach_tcp fid a h) = connections h"
  "next_tcp (attach_tcp fid a h) = next_tcp h"
  by (auto simp: attach_tcp_def split: option.splits)

lemma attach_tcp_file:
  assumes "open_files_table (attach_tcp fid a h) fid' = Some f"
  shows "if fid' = fid then tcp_con (socket f) = Some a else open_files_table h fid' = Some f"
  using assms by (auto simp: attach_tcp_def set_socket_def split: option.splits)

lemma owned_tcp_open:
  assumes "owned_tcp h" "connections h key = None" "tcp_key c = key"
    "tcp_objects h' = (tcp_objects h)(next_tcp h \<mapsto> c)" "next_tcp h' = Suc (next_tcp h)"
    "connections h' = (connections h)(key \<mapsto> next_tcp h)"
  shows "owned_tcp h'"
proof -
  have old: "a < next_tcp h" if "tcp_objects h a = Some c'" for a c'
    using assms(1) that unfolding owned_tcp_def by blast
  have "\<exists>c'. tcp_objects h' a = Some c' \<and> tcp_key c' = k" if k: "connections h' k = Some a" for k a
  proof (cases "k = key")
    case False
    with k assms(6) obtain c' where c': "tcp_objects h a = Some c'" "tcp_key c' = k"
      using assms(1) unfolding owned_tcp_def by auto
    with old [OF c'(1)] show ?thesis by (simp add: assms(4))
  qed (use k assms(3,4,6) in simp)
  moreover have "ran (connections h') = insert (next_tcp h) (ran (connections h))"
    using assms(2,6) by simp
  moreover have "a < Suc (next_tcp h)" if "a \<in> dom (tcp_objects h')" for a
    using that old by (cases "a = next_tcp h") (auto simp: assms(4) less_Suc_eq)
  ultimately show ?thesis
    using assms(1) by (auto simp: owned_tcp_def assms(4,5))
qed

lemma sockets_ok_open:
  assumes "host_inv h" "tcp_socket c = fid" "tcp_objects h' = (tcp_objects h)(next_tcp h \<mapsto> c)"
    "open_files_table h' = open_files_table h"
  shows "sockets_ok (attach_tcp fid (next_tcp h) h')"
  unfolding sockets_ok_def
proof (intro allI impI, elim conjE)
  fix fid' f a
  assume f: "open_files_table (attach_tcp fid (next_tcp h) h') fid' = Some f" "tcp_con (socket f) = Some a"
  show "\<exists>c'. tcp_objects (attach_tcp fid (next_tcp h) h') a = Some c' \<and> tcp_socket c' = fid'"
  proof (cases "fid' = fid")
    case False
    with attach_tcp_file [OF f(1)] assms(4) have "open_files_table h fid' = Some f" by simp
    then obtain c' where c': "tcp_objects h a = Some c'" "tcp_socket c' = fid'"
      using host_inv_socket_tcp [OF assms(1) _ f(2)] by blast
    with assms(1) have "a < next_tcp h" unfolding host_inv_def owned_tcp_def by blast
    with c' show ?thesis by (simp add: assms(3))
  qed (use attach_tcp_file [OF f(1)] f(2) assms(2,3) in simp)
qed

lemma host_inv_open:
  assumes "host_inv h" "connections h key = None" "tcp_key c = key" "tcp_socket c = fid"
  shows "host_inv (attach_tcp fid (next_tcp h) (h\<lparr>tcp_objects := (tcp_objects h)(next_tcp h \<mapsto> c),
    next_tcp := Suc (next_tcp h), connections := (connections h)(key \<mapsto> next_tcp h)\<rparr>))"
proof -
  let ?h = "h\<lparr>tcp_objects := (tcp_objects h)(next_tcp h \<mapsto> c), next_tcp := Suc (next_tcp h),
    connections := (connections h)(key \<mapsto> next_tcp h)\<rparr>"
  have "owned_tcp (attach_tcp fid (next_tcp h) ?h)"
    by (rule owned_tcp_open [of h key c]) (use assms in \<open>simp_all add: host_inv_def\<close>)
  moreover have "sockets_ok (attach_tcp fid (next_tcp h) ?h)"
    by (rule sockets_ok_open) (use assms in simp_all)
  moreover have "files_ok (attach_tcp fid (next_tcp h) ?h)"
    using assms(1) by (auto simp: host_inv_def files_ok_def attach_tcp_def split: option.splits)
  ultimately show ?thesis by (simp add: host_inv_def)
qed

lemma bind_for_connect_inv:
  assumes "host_inv h" "bind_for_connect rnd fid h = Inr (key, h')"
  shows "host_inv h'"
proof (cases "GetSocket h fid")
  case (Some s)
  then obtain f where f: "open_files_table h fid = Some f" "socket f = s" using GetSocketD by blast
  have "host_inv (set_socket fid (Socket_Bind s k) (h\<lparr>port_pool := pl\<rparr>))" for pl k
    by (rule host_inv_set_socket [where f = f]) (use assms(1) f in \<open>simp_all add: Socket_Bind_def\<close>)
  with Some assms show ?thesis by (auto simp: bind_for_connect_def bindR_Inr_iff Let_def split: if_splits)
qed (use assms in \<open>simp add: bind_for_connect_def\<close>)

lemma new_identity [simp]:
  "tcp_key (TcpController_new ops s0 fid key opts) = key" "tcp_socket (TcpController_new ops s0 fid key opts) = fid"
  "shutdown_flag (TcpController_new ops s0 fid key opts) = s0"
  by (simp_all add: TcpController_new_def)

lemma SocketConnect_inv:
  assumes "host_inv h" "SocketConnect ops rnd False fid ip port h = Inr (Returns (r, h'))"
  shows "host_inv h'"
proof -
  obtain local_key h1 where h1: "bind_for_connect rnd fid h = Inr (local_key, h1)"
    using assms(2) by (auto simp: SocketConnect_def bindR_Inr_iff)
  let ?key = "TcpControllerKey_new ip (int32_of_uint32 port) (local_ip local_key) (local_port local_key)"
  let ?c = "TcpController_new ops False fid ?key (GetDefaultOptions\<lparr>send_window_base := 0\<rparr>)"
  obtain h2 a c re c' where h2: "emplace_connection ?key ?c h1 = Inr (Returns h2)" "connection_at ?key h2 = Inr a"
      "deref (attach_tcp fid a h2) (Some a) = Inr c" "TryConnect ops c = Inr (re, c')"
      "h' = (if \<not> re then (store_tcp a c' (attach_tcp fid a h2))
          \<lparr>port_pool := Release (port_pool (store_tcp a c' (attach_tcp fid a h2))) (local_port local_key)\<rparr>
        else store_tcp a c' (attach_tcp fid a h2))"
    using assms(2) h1
    by (auto simp: SocketConnect_def bindR_Inr_iff Let_def waits_Returns_iff split: if_splits)
  have inv1: "host_inv h1" using bind_for_connect_inv [OF assms(1) h1] .
  note em = emplace_connection_Returns [OF h2(1)]
  have a: "a = next_tcp h1" using em h2(2) by (simp add: connection_at_def)
  have "host_inv (attach_tcp fid a h2)" using em host_inv_open [OF inv1, of ?key ?c fid] a by simp
  then have "host_inv (store_tcp a c' (attach_tcp fid a h2))"
    using derefD [OF h2(3)] TryConnect_identity [OF h2(4)] by (auto intro: host_inv_store)
  then show ?thesis unfolding h2(5) by simp
qed

end
