(* ===== verification/Host_System.thy ===== *)
theory Host_System
  imports Host_Resources Tcp_Frames
begin

text \<open>
  The host as a transition system: every call of a process, every round of the two
  listener threads, every delivery and every thread that deletes a connection is a step.
  Every reachable host keeps its resource invariant, so a socket never points to a
  controller that is gone. The converse pointer, from a controller to its socket, is not
  as safe: closing a connected socket frees it while the controller still needs it.
\<close>

section \<open>Passive opens and deliveries keep the invariant\<close>

lemma deliver_to_inv:
  assumes "host_inv h" "deliver_to a pkt h = Inr h'"
  shows "host_inv h'"
  using assms by (auto simp: deliver_to_def bindR_Inr_iff dest!: derefD intro!: host_inv_store)

lemma HandleNewConnection_inv:
  assumes "host_inv h" "HandleNewConnection ops False pkt h = Inr (Returns (b, h'))"
  shows "host_inv h'"
proof (cases "sync (tcp_header pkt) \<and> listeners h (listener_key pkt) \<noteq> None")
  case True
  obtain fid h1 where cr: "CreateNewSocket h = (fid, h1)" by force
  note inv1 = host_inv_create [OF assms(1) cr]
  show ?thesis
  proof (cases "fid < 0")
    case False
    let ?c = "TcpController_new ops False fid (packet_key pkt) (GetDefaultOptions\<lparr>recv_window_base := pkt_seq pkt\<rparr>)"
    obtain h2 a p h3 l where h2: "emplace_connection (packet_key pkt) ?c h1 = Inr (Returns h2)"
        "connection_at (packet_key pkt) h2 = Inr a" "deliver_to a p (attach_tcp fid a h2) = Inr h3"
        "h' = h3\<lparr>listeners := l\<rparr>"
      using True False cr assms(2)
      by (auto simp: HandleNewConnection_def Let_def bindR_Inr_iff waits_Returns_iff)
    note em = emplace_connection_Returns [OF h2(1)]
    have a: "a = next_tcp h1" using em h2(2) by (simp add: connection_at_def)
    have "host_inv (attach_tcp fid a h2)"
      using em inv1 host_inv_open [of h1 "packet_key pkt" ?c fid] a by simp
    from deliver_to_inv [OF this h2(3)] show ?thesis by (simp add: h2(4))
  qed (use True cr assms inv1 in \<open>auto simp: HandleNewConnection_def\<close>)
qed (use assms in \<open>auto simp: HandleNewConnection_def split: if_splits\<close>)

lemma demultiplex_inv:
  "host_inv h \<Longrightarrow> demultiplex ops False n pkts h = Inr (Returns (rest, h')) \<Longrightarrow> host_inv h'"
proof (induction n arbitrary: pkts h)
  case (Suc n)
  show ?case
  proof (cases pkts)
    case (Cons pkt ps)
    let ?open = "if connections h (packet_key pkt) = None then HandleNewConnection ops False pkt h
      else Inr (Returns (True, h))"
    obtain b h1 where h1: "?open = Inr (Returns (b, h1))"
      using Suc.prems(2) by (auto simp: Cons bindR_Inr_iff waits_Returns_iff split: waits.splits)
    then have inv1: "host_inv h1"
      using Suc.prems(1) HandleNewConnection_inv by (auto split: if_splits)
    show ?thesis
    proof (cases b)
      case True
      then obtain a h2 where "connection_at (packet_key pkt) h1 = Inr a" "deliver_to a pkt h1 = Inr h2"
          "demultiplex ops False n ps h2 = Inr (Returns (rest, h'))"
        using Suc.prems(2) h1 by (auto simp: Cons bindR_Inr_iff)
      with Suc.IH deliver_to_inv [OF inv1] show ?thesis by blast
    next
      case False
      let ?h = "if \<not> rst (tcp_header pkt) then SendBackRST (packet_key pkt) h1 else h1"
      have "demultiplex ops False n (pkt # ps) ?h = Inr (Returns (rest, h'))"
        using Suc.prems(2) h1 False by (simp add: Cons bindR_def)
      moreover have "host_inv ?h" using inv1 by simp
      ultimately show ?thesis using Suc.IH by blast
    qed
  qed (use Suc.prems in simp)
qed simp

lemma PacketsReceiveListener_inv:
  assumes "host_inv h" "PacketsReceiveListener_round ops False h = Inr (Returns h')"
  shows "host_inv h'"
proof -
  obtain r q where dq: "DeQueueAllTo True (recv_pkt_queue h) [] = (r, q)" by force
  obtain n pkts where r: "r = Returns (n, pkts)"
    using assms(2) dq by (cases r) (auto simp: PacketsReceiveListener_round_def)
  obtain rest where "demultiplex ops False (unat (of_nat (length pkts) :: uint32)) pkts (h\<lparr>recv_pkt_queue := q\<rparr>)
      = Inr (Returns (rest, h'))"
    using assms(2) dq r
    by (auto simp: PacketsReceiveListener_round_def DemultiplexPacketsToTcps_def bindR_Inr_iff waits_Returns_iff)
  with assms(1) show ?thesis using demultiplex_inv [of "h\<lparr>recv_pkt_queue := q\<rparr>"] by simp
qed

text \<open>A channel whose callback is the one hosts register.\<close>

definition moves_packets :: "'b Host BaseChannel \<Rightarrow> bool" where
  "moves_packets ch \<longleftrightarrow> receiver_callback ch = Some (\<lambda>h pkts. MovePacketsFromChannel pkts h)"

section \<open>The host as a transition system\<close>

text \<open>
  The new controllers of the two rules that make one start with a clear shutdown flag.
\<close>

inductive host_step :: "'b ring_ops \<Rightarrow> 'b Host \<Rightarrow> 'b Host \<Rightarrow> bool" for ops where
  run_forever: "host_step ops h (RunForever h)"
| new_process: "CreateProcess name h = (r, h') \<Longrightarrow> host_step ops h h'"
| new_socket: "CreateNewSocket h = (fid, h') \<Longrightarrow> host_step ops h h'"
| inc_ref: "IncOpenFileRef fid h = (r, h') \<Longrightarrow> host_step ops h h'"
| dec_ref: "DecOpenFileRef fid h = Inr (r, h') \<Longrightarrow> host_step ops h h'"
| delete_file: "DeleteSocketAndConnection fid h = Inr (Returns h') \<Longrightarrow> host_step ops h h'"
| bind_port: "SocketBind fid ip port h = (r, h') \<Longrightarrow> host_step ops h h'"
| listen: "SocketListen fid h = (r, h') \<Longrightarrow> host_step ops h h'"
| accept: "SocketAccept fid h = Returns (r, h') \<Longrightarrow> host_step ops h h'"
| connect: "SocketConnect ops random_number False fid ip port h = Inr (Returns (r, h')) \<Longrightarrow> host_step ops h h'"
| read_data: "Host_ReadData ops fid sz h = Inr (Returns (rd, h')) \<Longrightarrow> host_step ops h h'"
| write_data: "Host_WriteData ops fid bs sz h = Inr (Returns (wr, h')) \<Longrightarrow> host_step ops h h'"
| shut_down: "ShutDownSocket fid h = Inr (r, h') \<Longrightarrow> host_step ops h h'"
| from_channel: "MovePacketsFromChannel pkts h = Inr (h', rest) \<Longrightarrow> host_step ops h h'"
| receive_round: "PacketsReceiveListener_round ops False h = Inr (Returns h') \<Longrightarrow> host_step ops h h'"
| from_tcp: "MultiplexPacketsFromTcp pkts h = Inr h' \<Longrightarrow> host_step ops h h'"
| send_round: "PacketsSendListener_round rnd k (ch :: 'b Host BaseChannel) h = Returns (k', ch', h') \<Longrightarrow>
    host_step ops h h'"
| delete_connection: "shut_down_thread a h = Inr (Returns h') \<Longrightarrow> host_step ops h h'"
| controller: "tcp_objects h a = Some c \<Longrightarrow> tcp_step ops e (m, c) (m', c') \<Longrightarrow> host_step ops h (store_tcp a c' h)"

lemma host_inv_queues:
  "MovePacketsFromChannel pkts h = Inr (h', rest) \<Longrightarrow> host_inv h' = host_inv h"
  "MultiplexPacketsFromTcp pkts h = Inr h' \<Longrightarrow> host_inv h' = host_inv h"
  "PacketsSendListener_round rnd k ch h = Returns (k', ch', h') \<Longrightarrow> host_inv h' = host_inv h"
  "SocketListen fid h = (r, h') \<Longrightarrow> host_inv h' = host_inv h"
  "SocketAccept fid h = Returns (ra, h') \<Longrightarrow> host_inv h' = host_inv h"
  by (auto simp: MovePacketsFromChannel_def MultiplexPacketsFromTcp_def PacketsSendListener_round_def
      SocketListen_def SocketAccept_def bindR_Inr_iff Let_def
      split: prod.splits waits.splits option.splits list.splits)

lemma IncOpenFileRef_inv: "host_inv h \<Longrightarrow> IncOpenFileRef fid h = (r, h') \<Longrightarrow> host_inv h'"
  by (auto simp: IncOpenFileRef_def IncRef_def split: option.splits intro: host_inv_refs)

lemma RunForever_inv: "host_inv h \<Longrightarrow> host_inv (RunForever h)"
  using host_inv_cong [of "RunForever h" h] by (simp add: RunForever_def)

lemma CreateProcess_inv:
  assumes "host_inv h" "CreateProcess name h = (r, h')"
  shows "host_inv h'"
proof -
  have "host_inv h' = host_inv h"
    by (rule host_inv_cong) (use assms(2) in \<open>auto simp: CreateProcess_def\<close>)
  with assms(1) show ?thesis by simp
qed

lemma controller_inv:
  assumes "host_inv h" "tcp_objects h a = Some c" "tcp_step ops e (m, c) (m', c')"
  shows "host_inv (store_tcp a c' h)"
  using host_inv_store [OF assms(1,2)] tcp_step_identity [OF assms(3)] by (simp add: tcp_identity_def)

lemma CreateNewSocket_inv: "host_inv h \<Longrightarrow> CreateNewSocket h = (fid, h') \<Longrightarrow> host_inv h'"
  using host_inv_create by blast

lemmas host_operations_inv =
  CreateProcess_inv CreateNewSocket_inv IncOpenFileRef_inv DecOpenFileRef_inv DeleteSocketAndConnection_inv
  SocketBind_inv SocketConnect_inv ReadData_inv WriteData_inv ShutDownSocket_inv
  PacketsReceiveListener_inv shut_down_thread_inv host_inv_queues [THEN iffD2, rotated]

lemma host_step_inv: "host_step ops h h' \<Longrightarrow> host_inv h \<Longrightarrow> host_inv h'"
  by (induction rule: host_step.induct) (erule RunForever_inv | erule (1) host_operations_inv | erule (2) controller_inv)+

interpretation host_system: invariant_system "\<lambda>h. \<exists>name ip. h = Host_new name ip" "host_step ops" host_inv
proof
  show "host_inv s" if "\<exists>name ip. s = Host_new name ip" for s :: "'a Host" using that host_inv_new by blast
qed (blast intro: host_step_inv)

section \<open>Sockets never dangle\<close>

lemma host_inv_deref:
  assumes "host_inv h" "open_files_table h fid = Some f"
  shows "deref h (tcp_con (socket f)) \<noteq> Inl (Dangling_pointer s)"
proof (cases "tcp_con (socket f)")
  case (Some a)
  obtain c where "tcp_objects h a = Some c" using host_inv_socket_tcp [OF assms Some] by blast
  with Some show ?thesis by (simp add: deref_def)
qed (simp add: deref_def)

lemma ReadData_not_dangling: "ReadData ops c sz \<noteq> Inl (Dangling_pointer s)"
  by (auto simp: ReadData_def Let_def split: prod.splits)

lemma calls_not_dangling:
  assumes "host_inv h"
  shows "Host_ReadData ops fid sz h \<noteq> Inl (Dangling_pointer s)"
    and "Host_WriteData ops fid bs sz h \<noteq> Inl (Dangling_pointer s)"
    and "ShutDownSocket fid h \<noteq> Inl (Dangling_pointer s)"
    and "DecOpenFileRef fid h \<noteq> Inl (Dangling_pointer s)"
proof -
  have sock: "deref h (tcp_con t) \<noteq> Inl (Dangling_pointer s)" if "GetSocket h fid = Some t" for t
    using GetSocketD [OF that] host_inv_deref [OF assms] by blast
  show "Host_ReadData ops fid sz h \<noteq> Inl (Dangling_pointer s)"
  proof (cases "GetSocket h fid")
    case (Some t)
    with sock [OF Some] ReadData_not_dangling show ?thesis
      by (auto simp: Host_ReadData_def bindR_def split: sum.splits waits.splits)
  qed (simp add: Host_ReadData_def)
  show "Host_WriteData ops fid bs sz h \<noteq> Inl (Dangling_pointer s)"
  proof (cases "GetSocket h fid")
    case (Some t)
    with sock [OF Some] show ?thesis
      by (auto simp: Host_WriteData_def bindR_def split: sum.splits waits.splits option.splits)
  qed (simp add: Host_WriteData_def)
  show "ShutDownSocket fid h \<noteq> Inl (Dangling_pointer s)"
  proof (cases "GetSocket h fid")
    case (Some t)
    moreover have "deref (set_socket fid t' h) p = deref h p" for t' p
      by (auto simp: deref_def set_socket_def split: option.splits)
    ultimately show ?thesis using sock [OF Some]
      by (auto simp: ShutDownSocket_def bindR_def Let_def split_beta split: sum.splits)
  qed (simp add: ShutDownSocket_def)
  show "DecOpenFileRef fid h \<noteq> Inl (Dangling_pointer s)"
  proof (cases "open_files_table h fid")
    case (Some f)
    from host_inv_deref [OF assms this, of s] Some show ?thesis
      by (cases "tcp_con (socket f)") (auto simp: DecOpenFileRef_def bindR_def Let_def split: sum.splits)
  qed (simp add: DecOpenFileRef_def)
qed

lemma host_inv_owner:
  assumes "host_inv h" "tcp_objects h a = Some c"
  shows "connections h (tcp_key c) = Some a"
proof -
  have own: "owned_tcp h" using assms(1) by (simp add: host_inv_def)
  with assms(2) have "a \<in> ran (connections h)" by (auto simp: owned_tcp_def)
  then obtain k where k: "connections h k = Some a" by (auto simp: ran_def)
  with own assms(2) have "tcp_key c = k" unfolding owned_tcp_def by force
  with k show ?thesis by simp
qed


section \<open>A socket freed before its connection\<close>

lemma tcp_run_identity:
  "tcp_run ops s es t \<Longrightarrow> tcp_identity (snd t) = tcp_identity (snd s)"
proof (induction rule: tcp_run.induct)
qed (auto dest: tcp_step_identity)

lemma shut_down_without_socket:
  assumes "tcp_objects h a = Some c" "open_files_table h (tcp_socket c) = None"
  shows "shut_down_thread a h \<in> {Inr Blocks, Inl (Dangling_pointer ''socket_'')} \<and>
    (num_readers (pkt_recv_buffer c) = 0 \<and> num_readers (pkt_send_buffer c) = 0 \<longrightarrow>
      shut_down_thread a h = Inl (Dangling_pointer ''socket_''))"
proof -
  obtain r c1 where td: "TearDown_queues c = (r, c1)" by force
  have "TearDown a h = (case r of Blocks \<Rightarrow> Inr Blocks | Returns _ \<Rightarrow> Inl (Dangling_pointer ''socket_''))"
    using TearDown_queues_identity [OF td] assms td
    by (cases r) (auto simp: TearDown_def deref_def DetachSocket_def store_tcp_def bindR_def)
  moreover have "r \<noteq> Blocks" if "num_readers (pkt_recv_buffer c) = 0" "num_readers (pkt_send_buffer c) = 0"
    using td that by (auto simp: TearDown_queues_def Stop_def timer_op_def Let_def split: if_splits prod.splits)
  ultimately show ?thesis
    by (cases r) (auto simp: shut_down_thread_def bindR_def)
qed

text \<open>
  C40. Closing a connected socket for the last time frees it while its controller, which
  still has to exchange FINs, lives on and keeps pointing to it. Whatever the controller
  does from then on, the thread that deletes the connection in the end either waits
  forever or writes through the dangling pointer; and if no reader is inside the
  controller's queues, it writes through it.
\<close>

theorem closed_socket_is_used_after_free:
  assumes "host_inv h" "open_files_table h fid = Some f" "Refs f \<le> 1" "tcp_con (socket f) = Some a"
  shows "\<exists>h' c. DecOpenFileRef fid h = Inr (0, h') \<and> GetSocket h' fid = None \<and> tcp_objects h' a = Some c \<and>
    (\<forall>m es m' c'. tcp_run ops (m, c) es (m', c') \<longrightarrow>
      shut_down_thread a (store_tcp a c' h') \<in> {Inr Blocks, Inl (Dangling_pointer ''socket_'')} \<and>
      (num_readers (pkt_recv_buffer c') = 0 \<and> num_readers (pkt_send_buffer c') = 0 \<longrightarrow>
        shut_down_thread a (store_tcp a c' h') = Inl (Dangling_pointer ''socket_'')))"
proof -
  obtain c0 where c0: "tcp_objects h a = Some c0" "tcp_socket c0 = fid"
    using host_inv_socket_tcp [OF assms(1,2,4)] by blast
  define c where "c = snd (TryClose (if isBound (socket f) then SetReleasePort True c0 else c0))"
  define h' where "h' = (store_tcp a c h)\<lparr>open_files_table := (open_files_table h)(fid := None)\<rparr>"
  have c: "tcp_socket c = fid" by (simp add: c_def c0)
  have dec: "DecOpenFileRef fid h = Inr (0, h')"
    using assms(2-4) c0 by (simp add: DecOpenFileRef_def deref_def h'_def c_def Let_def store_tcp_def bindR_def)
  have run: "shut_down_thread a (store_tcp a c' h') \<in> {Inr Blocks, Inl (Dangling_pointer ''socket_'')} \<and>
      (num_readers (pkt_recv_buffer c') = 0 \<and> num_readers (pkt_send_buffer c') = 0 \<longrightarrow>
        shut_down_thread a (store_tcp a c' h') = Inl (Dangling_pointer ''socket_''))"
    if "tcp_run ops (m, c) es (m', c')" for m es m' c'
    using tcp_run_identity [OF that] c
    by (intro shut_down_without_socket) (auto simp: store_tcp_def h'_def tcp_identity_def)
  have "GetSocket h' fid = None" "tcp_objects h' a = Some c"
    by (simp_all add: GetSocket_def h'_def store_tcp_def)
  with dec run show ?thesis by blast
qed

section \<open>An active open\<close>

lemma SocketConnect_opens:
  assumes "open_files_table h fid = Some f" "file_type f = SOCKET" "isBound (socket f)"
    and key: "key = TcpControllerKey_new ip (int32_of_uint32 port)
      (local_ip (local_bound (socket f))) (local_port (local_bound (socket f)))" "connections h key = None"
  shows "\<exists>h' c. SocketConnect ops random_number False fid ip port h = Inr (Returns (True, h')) \<and>
    open_files_table h' fid = Some (f\<lparr>socket := (socket f)\<lparr>tcp_con := Some (next_tcp h)\<rparr>\<rparr>) \<and>
    connections h' key = Some (next_tcp h) \<and> tcp_objects h' (next_tcp h) = Some c \<and> tcp_state c = SYN_SENT \<and>
    packets (pkt_send_buffer c) = [MakeSyncPacket ops (client_controller ops fid key) 0]"
proof -
  let ?c = "client_controller ops fid key"
  obtain c where c: "TryConnect ops ?c = Inr (True, c)" "tcp_state c = SYN_SENT"
      "packets (pkt_send_buffer c) = [MakeSyncPacket ops ?c 0]"
    using TryConnect_fresh [of ?c ops] by auto
  let ?h = "h\<lparr>tcp_objects := (tcp_objects h)(next_tcp h \<mapsto> ?c), next_tcp := Suc (next_tcp h),
    connections := (connections h)(key \<mapsto> next_tcp h)\<rparr>"
  have "bind_for_connect random_number fid h = Inr (local_bound (socket f), h)"
    using assms by (simp add: bind_for_connect_def GetSocket_def)
  moreover have "emplace_connection key ?c h = Inr (Returns ?h)"
    using key(2) by (simp add: emplace_connection_def domIff Let_def)
  ultimately have "SocketConnect ops random_number False fid ip port h =
      Inr (Returns (True, store_tcp (next_tcp h) c (attach_tcp fid (next_tcp h) ?h)))"
    using c(1) unfolding SocketConnect_def client_controller_def key(1) [symmetric]
    by (simp add: Let_def key(1) [symmetric] connection_at_def deref_def)
  then show ?thesis
    using assms(1) c by (simp add: store_tcp_def attach_tcp_def set_socket_def)
qed

definition bound_host :: "list_buffer Host" where
  "bound_host = snd (SocketBind 0 ''10.0.0.1'' 7 (snd (CreateNewSocket (Host_new ''client'' ''10.0.0.1''))))"

lemma new_host_socket:
  "CreateNewSocket (Host_new name ip) = (0, (Host_new name ip)
    \<lparr>open_file_id_pool := (NumPool_new 0 255)\<lparr>pool := {0..255} - {0}\<rparr>,
     open_files_table := [0 \<mapsto> IncRef (KernelOpenFile_new SOCKET)]\<rparr>)"
  using CreateNewSocket_ok [of "Host_new name ip" 0 "(NumPool_new 0 255)\<lparr>pool := {0..255} - {0}\<rparr>"]
    Allocate_new [of 0 255]
  by (simp add: Host_new_eq kMinOpenFileId_def kMaxOpenFileId_def)

lemma bound_host_file:
  "\<exists>f. open_files_table bound_host 0 = Some f \<and> file_type f = SOCKET \<and> Refs f = 1 \<and>
    local_bound (socket f) = LocalLayerThreeKey_new ''10.0.0.1'' 7"
  unfolding bound_host_def new_host_socket snd_conv
  by (simp add: SocketBind_def GetSocket_def IncRef_def KernelOpenFile_new_def Refs_def
      Socket_new_def isBound_def LocalLayerThreeKey_default_def Take_def Host_new_eq kMinPort_def kMaxPort_def
      int32_of_uint32_def set_socket_def Socket_Bind_addr_def LocalLayerThreeKey_new_def)

lemma bound_host_unconnected: "connections bound_host k = None" "next_tcp bound_host = 0"
  unfolding bound_host_def new_host_socket snd_conv
  by (simp_all add: SocketBind_def Host_new_eq Take_def split: option.splits)

lemma bound_host_reachable: "(host_step list_ring)\<^sup>*\<^sup>* (Host_new ''client'' ''10.0.0.1'') bound_host"
proof -
  have "host_step list_ring (Host_new ''client'' ''10.0.0.1'') (snd (CreateNewSocket (Host_new ''client'' ''10.0.0.1'')))"
    by (rule host_step.new_socket [OF prod.collapse [symmetric]])
  moreover have "host_step list_ring (snd (CreateNewSocket (Host_new ''client'' ''10.0.0.1''))) bound_host"
    unfolding bound_host_def by (rule host_step.bind_port [OF prod.collapse [symmetric]])
  ultimately show ?thesis by simp
qed

text \<open>A host with a socket whose connection is being opened.\<close>

lemma connecting_host_reachable:
  "\<exists>h f c. (host_step list_ring)\<^sup>*\<^sup>* (Host_new ''client'' ''10.0.0.1'') h \<and> open_files_table h 0 = Some f \<and>
    Refs f = 1 \<and> tcp_con (socket f) = Some 0 \<and> tcp_objects h 0 = Some c \<and> tcp_state c = SYN_SENT"
proof -
  obtain f where f: "open_files_table bound_host 0 = Some f" "file_type f = SOCKET" "Refs f = 1"
      "local_bound (socket f) = LocalLayerThreeKey_new ''10.0.0.1'' 7"
    using bound_host_file by blast
  have "isBound (socket f)" using f(4) by (simp add: isBound_def LocalLayerThreeKey_new_def)
  from SocketConnect_opens [OF f(1,2) this refl bound_host_unconnected(1), of list_ring "\<lambda>_. 0" "''10.0.0.2''" 80] bound_host_unconnected(2)
  obtain h c where h: "SocketConnect list_ring (\<lambda>_. 0) False 0 ''10.0.0.2'' 80 bound_host = Inr (Returns (True, h))"
      "open_files_table h 0 = Some (f\<lparr>socket := (socket f)\<lparr>tcp_con := Some 0\<rparr>\<rparr>)" "tcp_objects h 0 = Some c"
      "tcp_state c = SYN_SENT" by auto
  have "(host_step list_ring)\<^sup>*\<^sup>* (Host_new ''client'' ''10.0.0.1'') h"
    using bound_host_reachable host_step.connect [OF h(1)] by (rule rtranclp.rtrancl_into_rtrancl)
  with h f(3) show ?thesis by (auto simp: Refs_def)
qed


theorem closed_socket_is_used_after_free_witness:
  "\<exists>h h' c. (host_step list_ring)\<^sup>*\<^sup>* (Host_new ''client'' ''10.0.0.1'') h \<and> DecOpenFileRef 0 h = Inr (0, h') \<and>
    tcp_objects h' 0 = Some c \<and>
    shut_down_thread 0 (store_tcp 0 c h') \<in> {Inr Blocks, Inl (Dangling_pointer ''socket_'')}"
proof -
  obtain h f where h: "(host_step list_ring)\<^sup>*\<^sup>* (Host_new ''client'' ''10.0.0.1'') h" "open_files_table h 0 = Some f"
      "tcp_con (socket f) = Some 0" "Refs f \<le> 1" using connecting_host_reachable by fastforce
  have "host_inv h" using host_system.reachable_inv [OF _ h(1)] by blast
  from closed_socket_is_used_after_free [OF this h(2,4,3), of list_ring]
  obtain h' c where h': "DecOpenFileRef 0 h = Inr (0, h')" "tcp_objects h' 0 = Some c"
      "shut_down_thread 0 (store_tcp 0 c h') \<in> {Inr Blocks, Inl (Dangling_pointer ''socket_'')}"
    using run_nil [of list_ring "(3, _)"] by blast
  with h(1) show ?thesis by blast
qed

end
