(* ===== verification/Host_Connection.thy ===== *)
theory Host_Connection
  imports Connection Host_System
begin

text \<open>
  The connection through both hosts. Two hosts with one connection between them, and
  others beside it, are joined by two channels that lose packets at random. The steps are
  the system calls of the writer and the reader, the rounds of the controllers' threads,
  and every station of a packet: the controller's queue, the host's queue to the channel,
  the channel, the host's queue from the channel, the controller's inbox. The system is
  the one of \<open>Connection\<close>, seen through the stations: here the view, and the steps of the
  controllers, the applications and the queues to the hosts.
\<close>

section \<open>The stations of a packet\<close>

text \<open>What one host does, on the controller at an address. A round that would block changes nothing.\<close>

definition with_tcp :: "tcp_ptr \<Rightarrow> ('b TcpController \<Rightarrow> 'b TcpController checked) \<Rightarrow> 'b Host \<Rightarrow> 'b Host checked" where
  "with_tcp a f h = bindR (deref h (Some a)) (\<lambda>c. bindR (f c) (\<lambda>c'. Inr (store_tcp a c' h)))"

definition hand_over :: "tcp_ptr \<Rightarrow> 'b Host \<Rightarrow> 'b Host checked" where
  "hand_over a h =
     bindR (deref h (Some a)) (\<lambda>c. let (ps, c') = emits c in MultiplexPacketsFromTcp ps (store_tcp a c' h))"

definition host_sends ::
  "(nat \<Rightarrow> rat) \<Rightarrow> nat \<Rightarrow> 'c BaseChannel \<Rightarrow> 'b Host \<Rightarrow> 'c BaseChannel \<times> 'b Host" where
  "host_sends rnd k ch h = snd (unblocked (k, ch, h) (PacketsSendListener_round rnd k ch h))"

definition channel_round :: "'b Host BaseChannel \<Rightarrow> 'b Host \<Rightarrow> ('b Host BaseChannel \<times> 'b Host) checked" where
  "channel_round ch h = running_round (ch, h) (WaitingForPackets_round ch h)"

definition host_sorts :: "'b ring_ops \<Rightarrow> 'b Host \<Rightarrow> 'b Host checked" where
  "host_sorts ops h = bindR (PacketsReceiveListener_round ops False h) (\<lambda>r. Inr (unblocked h r))"

definition inbox_round ::
  "'b tcp_env \<Rightarrow> tcp_ptr \<Rightarrow> uint32 \<Rightarrow> 'b Host \<Rightarrow> (uint32 \<times> 'b Host) checked" where
  "inbox_round env a m h =
     bindR (deref h (Some a)) (\<lambda>c.
     bindR (running_round (m, c) (PacketReceiveBufferListener_round env m c)) (\<lambda>(m', c').
       Inr (m', store_tcp a c' h)))"

section \<open>Both hosts\<close>

record 'b hosts =
  host_a :: "'b Host"
  host_b :: "'b Host"
  to_b :: "'b Host BaseChannel"
  to_a :: "'b Host BaseChannel"
  shared_limit :: uint32
  wrote :: "byte list"
  took :: "byte list"

text \<open>
  The writer's end is at host a, the reader's at host b; the key is that of the writer's
  controller. Each host has other connections, of which it knows the keys.
\<close>

record ends =
  at_a :: tcp_ptr
  at_b :: tcp_ptr
  file_a :: int32
  file_b :: int32
  key_a :: TcpControllerKey
  others_at_a :: "TcpControllerKey set"
  others_at_b :: "TcpControllerKey set"

abbreviation key_b :: "ends \<Rightarrow> TcpControllerKey" where
  "key_b P \<equiv> reverse_key (key_a P)"

datatype 'b hosts_event =
    Call_write "byte list" | Call_read nat
  | Sender_thread bool | Resend_timer | Probe_timer | Overflow_thread
  | Hand_over_a | Hand_over_b
  | Host_a_sends "nat \<Rightarrow> rat" nat | Host_b_sends "nat \<Rightarrow> rat" nat
  | Reaches_b | Reaches_a | Sorted_b | Sorted_a | Handled_b | Handled_a
  | Others_a tcp_ptr "'b TcpController" "Packet list"   \<comment> \<open>another controller's step, and what it hands over\<close>
  | Others_b tcp_ptr "'b TcpController" "Packet list"

fun hosts_step ::
  "'b ring_ops \<Rightarrow> (SendWindowNode \<Rightarrow> nanoseconds) \<Rightarrow> ends \<Rightarrow> 'b hosts \<Rightarrow> 'b hosts_event \<Rightarrow> 'b hosts checked" where
  "hosts_step ops el P w (Call_write bs) =
     bindR (Host_WriteData ops (file_a P) bs (int (length bs)) (host_a w)) (\<lambda>r.
       let (v, h) = unblocked (0, host_a w) r
       in Inr (w\<lparr>host_a := h, wrote := wrote w @ take (nat v) bs\<rparr>))"
| "hosts_step ops el P w (Call_read n) =
     bindR (Host_ReadData ops (file_b P) (int n) (host_b w)) (\<lambda>r.
       let ((v, bs), h) = unblocked ((0, []), host_b w) r
       in Inr (w\<lparr>host_b := h, took := took w @ bs\<rparr>))"
| "hosts_step ops el P w (Sender_thread started) =
     bindR (with_tcp (at_a P) (\<lambda>c. running_round c (SendBufferListener_round (conn_env ops el started) c)) (host_a w))
       (\<lambda>h. Inr (w\<lparr>host_a := h\<rparr>))"
| "hosts_step ops el P w Resend_timer =
     bindR (with_tcp (at_a P) TimeoutReTransmitter (host_a w)) (\<lambda>h. Inr (w\<lparr>host_a := h\<rparr>))"
| "hosts_step ops el P w Probe_timer =
     bindR (with_tcp (at_a P) ProbeWindowSize (host_a w)) (\<lambda>h. Inr (w\<lparr>host_a := h\<rparr>))"
| "hosts_step ops el P w Overflow_thread =
     bindR (with_tcp (at_b P) (\<lambda>c. running_round c (ReceiveBufferListener_round ops c)) (host_b w))
       (\<lambda>h. Inr (w\<lparr>host_b := h\<rparr>))"
| "hosts_step ops el P w Hand_over_a = bindR (hand_over (at_a P) (host_a w)) (\<lambda>h. Inr (w\<lparr>host_a := h\<rparr>))"
| "hosts_step ops el P w Hand_over_b = bindR (hand_over (at_b P) (host_b w)) (\<lambda>h. Inr (w\<lparr>host_b := h\<rparr>))"
| "hosts_step ops el P w (Host_a_sends rnd k) =
     (let (ch, h) = host_sends rnd k (to_b w) (host_a w) in Inr (w\<lparr>to_b := ch, host_a := h\<rparr>))"
| "hosts_step ops el P w (Host_b_sends rnd k) =
     (let (ch, h) = host_sends rnd k (to_a w) (host_b w) in Inr (w\<lparr>to_a := ch, host_b := h\<rparr>))"
| "hosts_step ops el P w Reaches_b =
     bindR (channel_round (to_b w) (host_b w)) (\<lambda>(ch, h). Inr (w\<lparr>to_b := ch, host_b := h\<rparr>))"
| "hosts_step ops el P w Reaches_a =
     bindR (channel_round (to_a w) (host_a w)) (\<lambda>(ch, h). Inr (w\<lparr>to_a := ch, host_a := h\<rparr>))"
| "hosts_step ops el P w Sorted_b = bindR (host_sorts ops (host_b w)) (\<lambda>h. Inr (w\<lparr>host_b := h\<rparr>))"
| "hosts_step ops el P w Sorted_a = bindR (host_sorts ops (host_a w)) (\<lambda>h. Inr (w\<lparr>host_a := h\<rparr>))"
| "hosts_step ops el P w Handled_b =
     bindR (inbox_round (conn_env ops el False) (at_b P) (shared_limit w) (host_b w)) (\<lambda>(m, h).
       Inr (w\<lparr>shared_limit := m, host_b := h\<rparr>))"
| "hosts_step ops el P w Handled_a =
     bindR (inbox_round (conn_env ops el False) (at_a P) (shared_limit w) (host_a w)) (\<lambda>(m, h).
       Inr (w\<lparr>shared_limit := m, host_a := h\<rparr>))"
| "hosts_step ops el P w (Others_a x c ps) =
     bindR (MultiplexPacketsFromTcp ps (store_tcp x c (host_a w))) (\<lambda>h. Inr (w\<lparr>host_a := h\<rparr>))"
| "hosts_step ops el P w (Others_b x c ps) =
     bindR (MultiplexPacketsFromTcp ps (store_tcp x c (host_b w))) (\<lambda>h. Inr (w\<lparr>host_b := h\<rparr>))"

fun hosts_run ::
  "'b ring_ops \<Rightarrow> (SendWindowNode \<Rightarrow> nanoseconds) \<Rightarrow> ends \<Rightarrow> 'b hosts \<Rightarrow> 'b hosts_event list \<Rightarrow> 'b hosts checked" where
  "hosts_run ops el P w [] = Inr w"
| "hosts_run ops el P w (e # es) = bindR (hosts_step ops el P w e) (\<lambda>w'. hosts_run ops el P w' es)"

section \<open>One connection seen through the hosts\<close>

definition tcp_at :: "tcp_ptr \<Rightarrow> 'b Host \<Rightarrow> 'b TcpController" where
  "tcp_at a h = the (tcp_objects h a)"

text \<open>From one host through the channel to the other, the packet next to arrive first.\<close>

definition path :: "'b Host \<Rightarrow> 'b Host BaseChannel \<Rightarrow> 'b Host \<Rightarrow> Packet list" where
  "path h ch h' = packets (recv_pkt_queue h') @ packets (pkt_buffer ch) @ packets (send_pkt_queue h)"

definition mine :: "TcpControllerKey \<Rightarrow> Packet list \<Rightarrow> Packet list" where
  "mine k ps = filter (\<lambda>p. packet_key p = k) ps"

definition inbox :: "'b TcpController \<Rightarrow> Packet list" where
  "inbox c = packets (pkt_recv_buffer c)"

definition conn_view :: "ends \<Rightarrow> 'b hosts \<Rightarrow> 'b conn" where
  "conn_view P w =
     (let c = tcp_at (at_a P) (host_a w); d = tcp_at (at_b P) (host_b w)
      in \<lparr>sender = c, receiver = d,
          wire_data = inbox d @ mine (key_b P) (path (host_a w) (to_b w) (host_b w)),
          wire_acks = inbox c @ mine (key_a P) (path (host_b w) (to_a w) (host_a w)),
          dup_limit = shared_limit w, written = wrote w, got = took w\<rparr>)"

text \<open>An end of the connection: its host routes to it, its socket leads to it, its packets carry its key.\<close>

definition routes :: "TcpControllerKey \<Rightarrow> TcpControllerKey set \<Rightarrow> tcp_ptr \<Rightarrow> int32 \<Rightarrow> 'b Host \<Rightarrow> bool" where
  "routes k K a fid h \<longleftrightarrow> connections h k = Some a \<and> (\<forall>k'. connections h k' = Some a \<longrightarrow> k' = k) \<and>
     (\<forall>k' \<in> K. \<exists>a'. connections h k' = Some a' \<and> a' \<in> dom (tcp_objects h)) \<and>
     \<not> destroy (recv_pkt_queue h) \<and> \<not> destroy (send_pkt_queue h) \<and>
     (\<exists>s. GetSocket h fid = Some s \<and> tcp_con s = Some a \<and> sock_state s \<noteq> SHUTDOWN)"

definition serves :: "TcpControllerKey \<Rightarrow> tcp_ptr \<Rightarrow> 'b Host \<Rightarrow> bool" where
  "serves k a h \<longleftrightarrow> (\<exists>c. tcp_objects h a = Some c \<and> tcp_key c = k \<and> keyed c \<and> \<not> destroy (pkt_recv_buffer c))"

definition end_ok :: "TcpControllerKey \<Rightarrow> TcpControllerKey set \<Rightarrow> tcp_ptr \<Rightarrow> int32 \<Rightarrow> 'b Host \<Rightarrow> bool" where
  "end_ok k K a fid h \<longleftrightarrow> routes k K a fid h \<and> serves k a h"

definition carrier_ok :: "'b Host BaseChannel \<Rightarrow> bool" where
  "carrier_ok ch \<longleftrightarrow> moves_packets ch \<and> \<not> ch_stop ch \<and> \<not> destroy (pkt_buffer ch)"

text \<open>Every packet on the way is for a connection the other host knows; at most \<open>N\<close> are for other ones.\<close>

definition path_ok :: "nat \<Rightarrow> TcpControllerKey \<Rightarrow> TcpControllerKey set \<Rightarrow> Packet list \<Rightarrow> bool" where
  "path_ok N k K ps \<longleftrightarrow> (\<forall>p \<in> set ps. packet_key p \<in> insert k K) \<and> length (filter (\<lambda>p. packet_key p \<noteq> k) ps) \<le> N"

definition hosts_ok :: "ends \<Rightarrow> nat \<Rightarrow> 'b hosts \<Rightarrow> bool" where
  "hosts_ok P N w \<longleftrightarrow> ports_ok (key_a P) \<and>
     end_ok (key_a P) (others_at_a P) (at_a P) (file_a P) (host_a w) \<and>
     end_ok (key_b P) (others_at_b P) (at_b P) (file_b P) (host_b w) \<and>
     carrier_ok (to_b w) \<and> carrier_ok (to_a w) \<and>
     path_ok N (key_b P) (others_at_b P) (path (host_a w) (to_b w) (host_b w)) \<and>
     path_ok N (key_a P) (others_at_a P) (path (host_b w) (to_a w) (host_a w))"

section \<open>Every step is one of the connection\<close>

text \<open>The view with other inboxes: what a connection does not look at.\<close>

definition rebox :: "PacketQueue \<Rightarrow> PacketQueue \<Rightarrow> 'b conn \<Rightarrow> 'b conn" where
  "rebox p q s = s\<lparr>sender := (sender s)\<lparr>pkt_recv_buffer := p\<rparr>, receiver := (receiver s)\<lparr>pkt_recv_buffer := q\<rparr>\<rparr>"

lemma sim_rebox: "sim ops ok contents b (rebox p q s) n = sim ops ok contents b s n"
  by (simp add: sim_defs rebox_def established_def data_flight_def ack_flight_def right_edge_def)

lemma rebox_self: "rebox (pkt_recv_buffer (sender s)) (pkt_recv_buffer (receiver s)) s = s"
  by (simp add: rebox_def)

fun new_bytes :: "'b hosts_event \<Rightarrow> nat" where
  "new_bytes (Call_write bs) = length bs"
| "new_bytes _ = 0"

fun new_others :: "'b hosts_event \<Rightarrow> nat" where
  "new_others (Others_a x c ps) = length ps"
| "new_others (Others_b x c ps) = length ps"
| "new_others _ = 0"

definition follows ::
  "'b ring_ops \<Rightarrow> (SendWindowNode \<Rightarrow> nanoseconds) \<Rightarrow> ends \<Rightarrow> nat \<Rightarrow> 'b hosts \<Rightarrow> 'b hosts_event \<Rightarrow> bool" where
  "follows ops el P N w e \<longleftrightarrow> (\<exists>es p q. list_all event_ok es \<and> charges es \<le> 1 \<and> offered es \<le> new_bytes e \<and>
     (\<forall>s'. conn_run ops el (rebox p q (conn_view P w)) es = Inr s' \<longrightarrow>
        (\<exists>w'. hosts_step ops el P w e = Inr w' \<and> hosts_ok P (N + new_others e) w' \<and> conn_view P w' = s')))"

lemma followsI:
  assumes "event_ok e'" "charge e' \<le> 1" "offered [e'] \<le> new_bytes e"
    and "\<And>s'. conn_step ops el (conn_view P w) e' = Inr s' \<Longrightarrow>
      \<exists>w'. hosts_step ops el P w e = Inr w' \<and> hosts_ok P (N + new_others e) w' \<and> conn_view P w' = s'"
  shows "follows ops el P N w e"
proof -
  let ?s = "conn_view P w"
  have "conn_run ops el (rebox (pkt_recv_buffer (sender ?s)) (pkt_recv_buffer (receiver ?s)) ?s) [e'] = Inr s' \<Longrightarrow>
      conn_step ops el ?s e' = Inr s'" for s'
    unfolding rebox_self by (simp add: bindR_Inr_iff)
  with assms show ?thesis
    unfolding follows_def
    by (intro exI [of _ "[e']"] exI [of _ "pkt_recv_buffer (sender ?s)"] exI [of _ "pkt_recv_buffer (receiver ?s)"]) auto
qed

lemma follows_still:
  assumes "hosts_step ops el P w e = Inr w'" "hosts_ok P (N + new_others e) w'" "conn_view P w' = rebox p q (conn_view P w)"
  shows "follows ops el P N w e"
  unfolding follows_def using assms by (intro exI [of _ "[]"] exI [of _ p] exI [of _ q]) simp

subsection \<open>Steps of a controller\<close>

lemma with_tcp_at: "tcp_objects h a = Some c \<Longrightarrow> with_tcp a f h = bindR (f c) (\<lambda>c'. Inr (store_tcp a c' h))"
  by (simp add: with_tcp_def deref_def)

lemma store_tcp_fields [simp]:
  "recv_pkt_queue (store_tcp a c h) = recv_pkt_queue h" "send_pkt_queue (store_tcp a c h) = send_pkt_queue h"
  "connections (store_tcp a c h) = connections h" "tcp_at a (store_tcp a c h) = c"
  "tcp_objects (store_tcp a c h) a = Some c" "GetSocket (store_tcp a c h) fid = GetSocket h fid"
  by (simp_all add: store_tcp_def tcp_at_def GetSocket_def)

lemma path_stored [simp]:
  "path (store_tcp a c h) ch h' = path h ch h'" "path h ch (store_tcp a c h') = path h ch h'"
  by (simp_all add: path_def)

lemma routes_stored: "routes k K a fid h \<Longrightarrow> routes k K a fid (store_tcp a' c h)"
proof -
  have "dom (tcp_objects (store_tcp a' c h)) = insert a' (dom (tcp_objects h))" by (simp add: store_tcp_def)
  then show "routes k K a fid h \<Longrightarrow> routes k K a fid (store_tcp a' c h)"
    unfolding routes_def store_tcp_fields by blast
qed

lemma end_ok_put:
  assumes "end_ok k K a fid h" "tcp_key c' = k" "keyed c'" "\<not> destroy (pkt_recv_buffer c')"
  shows "end_ok k K a fid (store_tcp a c' h)"
  using assms routes_stored by (auto simp: end_ok_def serves_def)

lemma end_at: "end_ok k K a fid h \<Longrightarrow> tcp_objects h a = Some (tcp_at a h)"
  by (auto simp: end_ok_def serves_def tcp_at_def)

lemma end_keyed: "end_ok k K a fid h \<Longrightarrow> keyed (tcp_at a h) \<and> tcp_key (tcp_at a h) = k \<and> \<not> destroy (pkt_recv_buffer (tcp_at a h))"
  by (auto simp: end_ok_def serves_def tcp_at_def)

lemma end_ok_stored:
  assumes "end_ok k K a fid h" "tcp_outside c' = tcp_outside (tcp_at a h)" "keyed c'"
  shows "end_ok k K a fid (store_tcp a c' h)"
  using assms end_keyed [OF assms(1)] by (intro end_ok_put) (simp_all add: tcp_outside_def tcp_identity_def)

lemma view_simps [simp]:
  "sender (conn_view P w) = tcp_at (at_a P) (host_a w)" "receiver (conn_view P w) = tcp_at (at_b P) (host_b w)"
  "dup_limit (conn_view P w) = shared_limit w" "written (conn_view P w) = wrote w" "got (conn_view P w) = took w"
  by (simp_all add: conn_view_def Let_def)

lemma hosts_ok_ghosts [simp]:
  "hosts_ok P N (w\<lparr>wrote := x\<rparr>) = hosts_ok P N w" "hosts_ok P N (w\<lparr>took := x\<rparr>) = hosts_ok P N w"
  "hosts_ok P N (w\<lparr>shared_limit := m\<rparr>) = hosts_ok P N w"
  by (simp_all add: hosts_ok_def)

lemma stored_a:
  assumes "hosts_ok P N w" "tcp_outside c' = tcp_outside (tcp_at (at_a P) (host_a w))" "keyed c'"
  shows "hosts_ok P N (w\<lparr>host_a := store_tcp (at_a P) c' (host_a w)\<rparr>)"
    "conn_view P (w\<lparr>host_a := store_tcp (at_a P) c' (host_a w), wrote := x\<rparr>) = (conn_view P w)\<lparr>sender := c', written := x\<rparr>"
    "conn_view P (w\<lparr>host_a := store_tcp (at_a P) c' (host_a w)\<rparr>) = (conn_view P w)\<lparr>sender := c'\<rparr>"
  using assms end_ok_stored [of "key_a P" "others_at_a P" "at_a P" "file_a P" "host_a w"]
  by (auto simp: hosts_ok_def conn_view_def inbox_def tcp_outside_def Let_def)

lemma stored_b:
  assumes "hosts_ok P N w" "tcp_outside c' = tcp_outside (tcp_at (at_b P) (host_b w))" "keyed c'"
  shows "hosts_ok P N (w\<lparr>host_b := store_tcp (at_b P) c' (host_b w)\<rparr>)"
    "conn_view P (w\<lparr>host_b := store_tcp (at_b P) c' (host_b w), took := x\<rparr>) = (conn_view P w)\<lparr>receiver := c', got := x\<rparr>"
    "conn_view P (w\<lparr>host_b := store_tcp (at_b P) c' (host_b w)\<rparr>) = (conn_view P w)\<lparr>receiver := c'\<rparr>"
  using assms end_ok_stored [of "key_b P" "others_at_b P" "at_b P" "file_b P" "host_b w"]
  by (auto simp: hosts_ok_def conn_view_def inbox_def tcp_outside_def Let_def)

lemma running_round_cases:
  assumes "running_round x r = Inr y"
  shows "y = x \<or> r = Some (Inr (Returns y))"
proof (cases r)
  case (Some r')
  then obtain v where v: "r' = Inr v" "y = unblocked x v" using assms by (auto simp: bindR_Inr_iff)
  with Some show ?thesis by (cases v) auto
qed (use assms in simp)

text \<open>A controller's own steps, at either end.\<close>

lemma follows_sender:
  assumes ok: "hosts_ok P N w" and e: "new_others e = 0" "event_ok e'" "charge e' \<le> 1" "offered [e'] \<le> new_bytes e"
    and step: "\<And>s. conn_step ops el s e' = bindR (f (sender s)) (\<lambda>c. Inr (s\<lparr>sender := c\<rparr>))"
    and host: "hosts_step ops el P w e = bindR (with_tcp (at_a P) f (host_a w)) (\<lambda>h. Inr (w\<lparr>host_a := h\<rparr>))"
    and frame: "\<And>c c'. f c = Inr c' \<Longrightarrow> tcp_outside c' = tcp_outside c" "\<And>c c'. keyed c \<Longrightarrow> f c = Inr c' \<Longrightarrow> keyed c'"
  shows "follows ops el P N w e"
proof (rule followsI [OF e(2-4)])
  let ?c = "tcp_at (at_a P) (host_a w)"
  have here: "end_ok (key_a P) (others_at_a P) (at_a P) (file_a P) (host_a w)" using ok by (simp add: hosts_ok_def)
  fix s' assume "conn_step ops el (conn_view P w) e' = Inr s'"
  then obtain c' where c': "f ?c = Inr c'" "s' = (conn_view P w)\<lparr>sender := c'\<rparr>" by (auto simp: step bindR_Inr_iff)
  have k: "keyed c'" using frame(2) [OF _ c'(1)] end_keyed [OF here] by blast
  note st = stored_a [OF ok frame(1) [OF c'(1)] k]
  show "\<exists>w'. hosts_step ops el P w e = Inr w' \<and> hosts_ok P (N + new_others e) w' \<and> conn_view P w' = s'"
    using st(1,3) c' e(1) by (simp add: host with_tcp_at [OF end_at [OF here]])
qed

lemma follows_receiver:
  assumes ok: "hosts_ok P N w" and e: "new_others e = 0" "event_ok e'" "charge e' \<le> 1" "offered [e'] \<le> new_bytes e"
    and step: "\<And>s. conn_step ops el s e' = bindR (f (receiver s)) (\<lambda>c. Inr (s\<lparr>receiver := c\<rparr>))"
    and host: "hosts_step ops el P w e = bindR (with_tcp (at_b P) f (host_b w)) (\<lambda>h. Inr (w\<lparr>host_b := h\<rparr>))"
    and frame: "\<And>c c'. f c = Inr c' \<Longrightarrow> tcp_outside c' = tcp_outside c" "\<And>c c'. keyed c \<Longrightarrow> f c = Inr c' \<Longrightarrow> keyed c'"
  shows "follows ops el P N w e"
proof (rule followsI [OF e(2-4)])
  let ?c = "tcp_at (at_b P) (host_b w)"
  have here: "end_ok (key_b P) (others_at_b P) (at_b P) (file_b P) (host_b w)" using ok by (simp add: hosts_ok_def)
  fix s' assume "conn_step ops el (conn_view P w) e' = Inr s'"
  then obtain c' where c': "f ?c = Inr c'" "s' = (conn_view P w)\<lparr>receiver := c'\<rparr>" by (auto simp: step bindR_Inr_iff)
  have k: "keyed c'" using frame(2) [OF _ c'(1)] end_keyed [OF here] by blast
  note st = stored_b [OF ok frame(1) [OF c'(1)] k]
  show "\<exists>w'. hosts_step ops el P w e = Inr w' \<and> hosts_ok P (N + new_others e) w' \<and> conn_view P w' = s'"
    using st(1,3) c' e(1) by (simp add: host with_tcp_at [OF end_at [OF here]])
qed

lemma running_round_frame:
  assumes "running_round c r = Inr c'"
    and "\<And>c'. r = Some (Inr (Returns c')) \<Longrightarrow> tcp_outside c' = tcp_outside c" "\<And>c'. keyed c \<Longrightarrow> r = Some (Inr (Returns c')) \<Longrightarrow> keyed c'"
  shows "tcp_outside c' = tcp_outside c" "keyed c \<Longrightarrow> keyed c'"
  using running_round_cases [OF assms(1)] assms(2,3) by auto

lemma controller_follows:
  assumes ok: "hosts_ok P N w"
  shows "follows ops el P N w (Sender_thread started)" "follows ops el P N w Resend_timer"
    "follows ops el P N w Probe_timer" "follows ops el P N w Overflow_thread"
proof -
  show "follows ops el P N w (Sender_thread started)"
    by (rule follows_sender [where e' = "Send_loop started" and f = "\<lambda>c. running_round c (SendBufferListener_round (conn_env ops el started) c)", OF ok])
      (auto intro: running_round_frame outside_send_round keyed_send_round)
  show "follows ops el P N w Resend_timer"
    by (rule follows_sender [where e' = Timer_fires and f = TimeoutReTransmitter, OF ok]) (auto intro: outside_rounds keyed_rounds)
  show "follows ops el P N w Probe_timer"
    by (rule follows_sender [where e' = Prober_fires and f = ProbeWindowSize, OF ok]) (auto intro: outside_rounds keyed_rounds)
  show "follows ops el P N w Overflow_thread"
    by (rule follows_receiver [where e' = Receive_loop and f = "\<lambda>c. running_round c (ReceiveBufferListener_round ops c)", OF ok])
      (auto intro: running_round_frame outside_rounds keyed_rounds)
qed

subsection \<open>System calls\<close>

lemma Host_WriteData_at:
  assumes "end_ok k K a fid h"
  shows "Host_WriteData ops fid bs sz h =
    (case WriteData ops (tcp_at a h) bs sz of Blocks \<Rightarrow> Inr Blocks | Returns (v, c') \<Rightarrow> Inr (Returns (v, store_tcp a c' h)))"
proof -
  obtain s where "GetSocket h fid = Some s" "tcp_con s = Some a" "sock_state s \<noteq> SHUTDOWN"
    using assms by (auto simp: end_ok_def routes_def)
  then show ?thesis using end_at [OF assms] by (simp add: Host_WriteData_def deref_def)
qed

lemma Host_ReadData_at:
  assumes "end_ok k K a fid h"
  shows "Host_ReadData ops fid sz h = bindR (ReadData ops (tcp_at a h) sz) (\<lambda>r.
    case r of Blocks \<Rightarrow> Inr Blocks | Returns (v, c') \<Rightarrow> Inr (Returns (v, store_tcp a c' h)))"
proof -
  obtain s where "GetSocket h fid = Some s" "tcp_con s = Some a"
    using assms by (auto simp: end_ok_def routes_def)
  then show ?thesis using end_at [OF assms] by (simp add: Host_ReadData_def deref_def)
qed

lemma view_still [simp]:
  "conn_view P (w\<lparr>wrote := x\<rparr>) = (conn_view P w)\<lparr>written := x\<rparr>" "conn_view P (w\<lparr>took := x\<rparr>) = (conn_view P w)\<lparr>got := x\<rparr>"
  by (simp_all add: conn_view_def Let_def)

lemma write_follows:
  assumes ok: "hosts_ok P N w" and len: "length bs < 2147483648"
  shows "follows ops el P N w (Call_write bs)"
proof (rule followsI [of "App_write bs"])
  let ?c = "tcp_at (at_a P) (host_a w)"
  have here: "end_ok (key_a P) (others_at_a P) (at_a P) (file_a P) (host_a w)" using ok by (simp add: hosts_ok_def)
  fix s' assume step: "conn_step ops el (conn_view P w) (App_write bs) = Inr s'"
  show "\<exists>w'. hosts_step ops el P w (Call_write bs) = Inr w' \<and> hosts_ok P (N + new_others (Call_write bs)) w' \<and> conn_view P w' = s'"
  proof (cases "WriteData ops ?c bs (int (length bs))")
    case Blocks
    then show ?thesis using step ok by (simp add: Host_WriteData_at [OF here] conn_view_def Let_def)
  next
    case (Returns vc)
    obtain v c' where vc: "vc = (v, c')" by force
    note wr = Returns [unfolded vc]
    have "keyed c'" using keyed_calls(3) [OF _ wr] end_keyed [OF here] by blast
    note st = stored_a [OF ok outside_calls(3) [OF wr] this]
    show ?thesis using step st(1,2) wr by (simp add: Host_WriteData_at [OF here])
  qed
qed (use len in simp_all)

lemma read_follows:
  assumes ok: "hosts_ok P N w" and len: "n < 2147483648"
  shows "follows ops el P N w (Call_read n)"
proof (rule followsI [of "App_read n"])
  let ?c = "tcp_at (at_b P) (host_b w)"
  have here: "end_ok (key_b P) (others_at_b P) (at_b P) (file_b P) (host_b w)" using ok by (simp add: hosts_ok_def)
  fix s' assume step: "conn_step ops el (conn_view P w) (App_read n) = Inr s'"
  then obtain r where r: "ReadData ops ?c (int n) = Inr r" by (auto simp: bindR_Inr_iff)
  show "\<exists>w'. hosts_step ops el P w (Call_read n) = Inr w' \<and> hosts_ok P (N + new_others (Call_read n)) w' \<and> conn_view P w' = s'"
  proof (cases r)
    case Blocks
    then show ?thesis using step ok r by (simp add: Host_ReadData_at [OF here] conn_view_def Let_def)
  next
    case (Returns vc)
    obtain v bs c' where vc: "vc = ((v, bs), c')" by (metis surj_pair)
    note rd = r [unfolded Returns vc]
    have "keyed c'" using keyed_calls(2) [OF _ rd] end_keyed [OF here] by blast
    note st = stored_b [OF ok outside_calls(2) [OF rd] this]
    show ?thesis using step st(1,2) rd by (simp add: Host_ReadData_at [OF here])
  qed
qed (use len in simp_all)

subsection \<open>Queues\<close>

lemma end_ok_cong:
  assumes "connections h' = connections h" "tcp_objects h' = tcp_objects h" "\<And>fid. GetSocket h' fid = GetSocket h fid"
    "destroy (recv_pkt_queue h') = destroy (recv_pkt_queue h)" "destroy (send_pkt_queue h') = destroy (send_pkt_queue h)"
  shows "end_ok k K a fid h' = end_ok k K a fid h"
  unfolding end_ok_def routes_def serves_def assms by (rule refl)

definition with_send :: "Packet list \<Rightarrow> 'b Host \<Rightarrow> 'b Host" where
  "with_send ps h = h\<lparr>send_pkt_queue := (send_pkt_queue h)\<lparr>packets := ps\<rparr>\<rparr>"

definition with_recv :: "Packet list \<Rightarrow> 'b Host \<Rightarrow> 'b Host" where
  "with_recv ps h = h\<lparr>recv_pkt_queue := (recv_pkt_queue h)\<lparr>packets := ps\<rparr>\<rparr>"

definition with_chan :: "Packet list \<Rightarrow> 'b Host BaseChannel \<Rightarrow> 'b Host BaseChannel" where
  "with_chan ps ch = ch\<lparr>pkt_buffer := (pkt_buffer ch)\<lparr>packets := ps\<rparr>\<rparr>"

lemmas with_queue_defs = with_send_def with_recv_def with_chan_def

lemma with_queues_end [simp]:
  "end_ok k K a fid (with_send ps h) = end_ok k K a fid h" "end_ok k K a fid (with_recv ps h) = end_ok k K a fid h"
  by (rule end_ok_cong; simp add: with_queue_defs GetSocket_def)+

lemma with_queues [simp]:
  "packets (send_pkt_queue (with_send ps h)) = ps" "recv_pkt_queue (with_send ps h) = recv_pkt_queue h"
  "packets (recv_pkt_queue (with_recv ps h)) = ps" "send_pkt_queue (with_recv ps h) = send_pkt_queue h"
  "packets (pkt_buffer (with_chan ps ch)) = ps"
  "tcp_objects (with_recv ps h) = tcp_objects h" "connections (with_recv ps h) = connections h"
  "tcp_at a (with_send ps h) = tcp_at a h" "tcp_at a (with_recv ps h) = tcp_at a h" "carrier_ok (with_chan ps ch) = carrier_ok ch"
  by (simp_all add: with_queue_defs tcp_at_def carrier_ok_def moves_packets_def)

lemma with_queues_same:
  "packets (send_pkt_queue h) = ps \<Longrightarrow> with_send ps h = h" "packets (recv_pkt_queue h) = ps \<Longrightarrow> with_recv ps h = h"
  "packets (pkt_buffer ch) = ps \<Longrightarrow> with_chan ps ch = ch"
  by (auto simp: with_queue_defs)

lemma path_length:
  assumes "path_ok N k K ps"
  shows "length ps \<le> length (mine k ps) + N"
  using sum_length_filter_compl [of "\<lambda>p. packet_key p = k" ps] assms by (simp add: path_ok_def mine_def)

lemma path_ok_mono: "path_ok N k K ps \<Longrightarrow> N \<le> N' \<Longrightarrow> path_ok N' k K ps"
  by (simp add: path_ok_def)

lemma path_ok_append:
  assumes "path_ok N k K ps" "path_ok N' k K qs"
  shows "path_ok (N + N') k K (ps @ qs)"
  using assms by (auto simp: path_ok_def)

lemma path_ok_own: "\<forall>p \<in> set ps. packet_key p = k \<Longrightarrow> path_ok 0 k K ps"
  by (auto simp: path_ok_def)

lemma path_ok_others: "\<forall>p \<in> set ps. packet_key p \<in> K \<Longrightarrow> path_ok (length ps) k K ps"
  using length_filter_le [of "\<lambda>p. packet_key p \<noteq> k" ps] by (simp add: path_ok_def)

lemma path_ok_subseq:
  assumes "path_ok N k K ps" "subseq qs ps"
  shows "path_ok N k K qs"
proof -
  have "subseq (filter (\<lambda>p. packet_key p \<noteq> k) qs) (filter (\<lambda>p. packet_key p \<noteq> k) ps)" using assms(2) by (rule subseq_filter)
  then have "length (filter (\<lambda>p. packet_key p \<noteq> k) qs) \<le> length (filter (\<lambda>p. packet_key p \<noteq> k) ps)" by (rule list_emb_length)
  moreover have "set qs \<subseteq> set ps" using assms(2) by (auto elim: list_emb_set)
  ultimately show ?thesis using assms(1) unfolding path_ok_def by (meson le_trans subsetD)
qed

definition queued :: "Packet list \<Rightarrow> 'b Host \<Rightarrow> 'b Host" where
  "queued ps h = with_send (packets (send_pkt_queue h) @ ps) h"

lemma queued_simps [simp]:
  "end_ok k K a fid (queued ps h) = end_ok k K a fid h" "tcp_at a (queued ps h) = tcp_at a h"
  "path (queued ps h) ch h' = path h ch h' @ ps" "path h' ch (queued ps h) = path h' ch h"
  by (simp_all add: queued_def path_def)

lemma Multiplex_eq: "length ps < 4294967296 \<Longrightarrow> MultiplexPacketsFromTcp ps h = Inr (queued ps h)"
  by (simp add: MultiplexPacketsFromTcp_def PushAll_small queued_def with_send_def)

lemma hand_over_eq:
  assumes "end_ok k K a fid h" "ports_ok k" "emits (tcp_at a h) = (ps, c')" "length ps < 4294967296"
  shows "hand_over a h = Inr (queued ps (store_tcp a c' h))"
    "\<forall>p \<in> set ps. packet_key p = reverse_key k" "tcp_outside c' = tcp_outside (tcp_at a h)" "keyed c'"
proof -
  let ?c = "tcp_at a h"
  have k: "keyed ?c" "tcp_key ?c = k" using end_keyed [OF assms(1)] by simp_all
  obtain q where q: "ps @ packets (pkt_send_buffer c') = packets (pkt_send_buffer ?c)" "c' = ?c\<lparr>pkt_send_buffer := q\<rparr>"
    using emits_spec [OF assms(3)] by blast
  show "hand_over a h = Inr (queued ps (store_tcp a c' h))"
    using end_at [OF assms(1)] assms(3,4) by (simp add: hand_over_def deref_def Multiplex_eq)
  have "set ps \<subseteq> set (packets (pkt_send_buffer ?c))" using q(1) by (metis Un_upper1 set_append)
  then have "\<forall>p \<in> set ps. carries_key k p" using k by (auto simp: keyed_def)
  then show "\<forall>p \<in> set ps. packet_key p = reverse_key k" using packet_key_carried assms(2) by blast
  show "tcp_outside c' = tcp_outside ?c" using q(2) by simp
  have "packets (pkt_send_buffer ?c) = ps @ packets q" using q by simp
  then have "set (packets q) \<subseteq> set (packets (pkt_send_buffer ?c))" by simp
  then show "keyed c'" using k(1) q(2) by (auto simp: keyed_def)
qed

text \<open>Every queue on the way is short: its length fits the 32 bits in which the code counts packets.\<close>

definition roomy :: "ends \<Rightarrow> nat \<Rightarrow> 'b hosts \<Rightarrow> bool" where
  "roomy P N w \<longleftrightarrow> length (data_flight (conn_view P w)) + N < 4294967296 \<and>
     length (ack_flight (conn_view P w)) + N < 4294967296"

lemma view_wires:
  "wire_data (conn_view P w) = inbox (tcp_at (at_b P) (host_b w)) @ mine (key_b P) (path (host_a w) (to_b w) (host_b w))"
  "wire_acks (conn_view P w) = inbox (tcp_at (at_a P) (host_a w)) @ mine (key_a P) (path (host_b w) (to_a w) (host_a w))"
  by (simp_all add: conn_view_def Let_def)

lemma roomy_paths:
  assumes "hosts_ok P N w" "roomy P N w"
  shows "length (path (host_a w) (to_b w) (host_b w)) < 4294967296"
    "length (path (host_b w) (to_a w) (host_a w)) < 4294967296"
    "length (packets (pkt_send_buffer (tcp_at (at_a P) (host_a w)))) < 4294967296"
    "length (packets (pkt_send_buffer (tcp_at (at_b P) (host_b w)))) < 4294967296"
  using assms path_length [of N "key_b P" "others_at_b P" "path (host_a w) (to_b w) (host_b w)"]
    path_length [of N "key_a P" "others_at_a P" "path (host_b w) (to_a w) (host_a w)"]
  by (simp_all add: hosts_ok_def roomy_def data_flight_def ack_flight_def view_wires)

lemma mine_simps [simp]: "mine k (ps @ qs) = mine k ps @ mine k qs" "mine k [] = []"
  by (simp_all add: mine_def)

lemma mine_own: "\<forall>p \<in> set ps. packet_key p = k \<Longrightarrow> mine k ps = ps"
  by (simp add: mine_def)

lemma mine_others: "\<forall>p \<in> set ps. packet_key p \<noteq> k \<Longrightarrow> mine k ps = []"
  by (simp add: mine_def)

lemma hand_over_a_follows:
  assumes ok: "hosts_ok P N w" and room: "roomy P N w"
  shows "follows ops el P N w Hand_over_a"
proof (rule followsI [of Sender_emits])
  let ?h = "host_a w"
  obtain ps c' where em: "emits (tcp_at (at_a P) ?h) = (ps, c')" by force
  have here: "end_ok (key_a P) (others_at_a P) (at_a P) (file_a P) ?h" and ports: "ports_ok (key_a P)"
    using ok by (simp_all add: hosts_ok_def)
  have "length ps \<le> length (packets (pkt_send_buffer (tcp_at (at_a P) ?h)))" using emits_spec [OF em] by (metis length_append le_add1)
  then have len: "length ps < 4294967296" using roomy_paths(3) [OF ok room] by simp
  note ho = hand_over_eq [OF here ports em len]
  let ?h' = "queued ps (store_tcp (at_a P) c' ?h)"
  have st: "hosts_ok P N (w\<lparr>host_a := store_tcp (at_a P) c' ?h\<rparr>)" using stored_a(1) [OF ok ho(3,4)] .
  have out: "pkt_recv_buffer c' = pkt_recv_buffer (tcp_at (at_a P) ?h)" using ho(3) by (simp add: tcp_outside_def)
  have "hosts_ok P N (w\<lparr>host_a := ?h'\<rparr>)"
    using st path_ok_append [OF _ path_ok_own [OF ho(2)], of N] by (simp add: hosts_ok_def)
  moreover have "conn_view P (w\<lparr>host_a := ?h'\<rparr>) = (conn_view P w)\<lparr>sender := c', wire_data := wire_data (conn_view P w) @ ps\<rparr>"
    using out mine_own [OF ho(2)] by (simp add: conn_view_def Let_def inbox_def)
  moreover fix s' assume "conn_step ops el (conn_view P w) Sender_emits = Inr s'"
  ultimately show "\<exists>w'. hosts_step ops el P w Hand_over_a = Inr w' \<and> hosts_ok P (N + new_others Hand_over_a) w' \<and> conn_view P w' = s'"
    using ho(1) em by simp
qed simp_all

lemma hand_over_b_follows:
  assumes ok: "hosts_ok P N w" and room: "roomy P N w"
  shows "follows ops el P N w Hand_over_b"
proof (rule followsI [of Receiver_emits])
  let ?h = "host_b w"
  obtain ps c' where em: "emits (tcp_at (at_b P) ?h) = (ps, c')" by force
  have here: "end_ok (key_b P) (others_at_b P) (at_b P) (file_b P) ?h" and ports: "ports_ok (key_b P)"
    using ok by (simp_all add: hosts_ok_def)
  have "length ps \<le> length (packets (pkt_send_buffer (tcp_at (at_b P) ?h)))" using emits_spec [OF em] by (metis length_append le_add1)
  then have len: "length ps < 4294967296" using roomy_paths(4) [OF ok room] by simp
  note ho = hand_over_eq [OF here ports em len, simplified]
  let ?h' = "queued ps (store_tcp (at_b P) c' ?h)"
  have st: "hosts_ok P N (w\<lparr>host_b := store_tcp (at_b P) c' ?h\<rparr>)" using stored_b(1) [OF ok ho(3,4)] .
  have out: "pkt_recv_buffer c' = pkt_recv_buffer (tcp_at (at_b P) ?h)" using ho(3) by (simp add: tcp_outside_def)
  have "hosts_ok P N (w\<lparr>host_b := ?h'\<rparr>)"
    using st path_ok_append [OF _ path_ok_own [OF ho(2)], of N] by (simp add: hosts_ok_def)
  moreover have "conn_view P (w\<lparr>host_b := ?h'\<rparr>) = (conn_view P w)\<lparr>receiver := c', wire_acks := wire_acks (conn_view P w) @ ps\<rparr>"
    using out mine_own [OF ho(2)] by (simp add: conn_view_def Let_def inbox_def)
  moreover fix s' assume "conn_step ops el (conn_view P w) Receiver_emits = Inr s'"
  ultimately show "\<exists>w'. hosts_step ops el P w Hand_over_b = Inr w' \<and> hosts_ok P (N + new_others Hand_over_b) w' \<and> conn_view P w' = s'"
    using ho(1) em by simp
qed simp_all

end
