(* ===== verification/Host_Delivery.thy ===== *)
theory Host_Delivery
  imports Host_Connection
begin

text \<open>
  The rest of a packet's way between two hosts: other connections beside it, the channels
  that lose packets, the sorting at the other host and the controllers' inboxes. Each step
  is a run of the connection; together, the bytes read at one host are a prefix of the bytes
  written at the other.
\<close>

section \<open>Other connections\<close>

lemma end_ok_elsewhere: "end_ok k K a fid h \<Longrightarrow> x \<noteq> a \<Longrightarrow> end_ok k K a fid (store_tcp x c h)"
  using routes_stored by (auto simp: end_ok_def serves_def store_tcp_def)

lemma tcp_elsewhere: "x \<noteq> a \<Longrightarrow> tcp_at a (store_tcp x c h) = tcp_at a h"
  by (simp add: tcp_at_def store_tcp_def)

lemma others_follow:
  assumes ok: "hosts_ok P N w" and len: "length ps < 4294967296"
  shows "x \<noteq> at_a P \<Longrightarrow> \<forall>p \<in> set ps. packet_key p \<in> others_at_b P - {key_b P} \<Longrightarrow> follows ops el P N w (Others_a x c ps)"
    "x \<noteq> at_b P \<Longrightarrow> \<forall>p \<in> set ps. packet_key p \<in> others_at_a P - {key_a P} \<Longrightarrow> follows ops el P N w (Others_b x c ps)"
proof -
  note ok' = ok [unfolded hosts_ok_def]
  have more: "path_ok (N + length ps) k K ps'" if "path_ok N k K ps'" for k K ps' using path_ok_mono [OF that] by simp
  show "follows ops el P N w (Others_a x c ps)"
    if x: "x \<noteq> at_a P" and ps: "\<forall>p \<in> set ps. packet_key p \<in> others_at_b P - {key_b P}"
  proof (rule follows_still)
    let ?w = "w\<lparr>host_a := queued ps (store_tcp x c (host_a w))\<rparr>"
    show "hosts_step ops el P w (Others_a x c ps) = Inr ?w" using len by (simp add: Multiplex_eq)
    show "hosts_ok P (N + new_others (Others_a x c ps)) ?w"
      using ok' more path_ok_append [OF _ path_ok_others, of N "key_b P" "others_at_b P"] ps
      by (simp add: hosts_ok_def end_ok_elsewhere [OF _ x])
    show "conn_view P ?w = rebox (pkt_recv_buffer (sender (conn_view P w))) (pkt_recv_buffer (receiver (conn_view P w))) (conn_view P w)"
      using mine_others [of ps "key_b P"] ps unfolding rebox_self by (simp add: conn_view_def Let_def tcp_elsewhere [OF x])
  qed
  show "follows ops el P N w (Others_b x c ps)"
    if x: "x \<noteq> at_b P" and ps: "\<forall>p \<in> set ps. packet_key p \<in> others_at_a P - {key_a P}"
  proof (rule follows_still)
    let ?w = "w\<lparr>host_b := queued ps (store_tcp x c (host_b w))\<rparr>"
    show "hosts_step ops el P w (Others_b x c ps) = Inr ?w" using len by (simp add: Multiplex_eq)
    show "hosts_ok P (N + new_others (Others_b x c ps)) ?w"
      using ok' more path_ok_append [OF _ path_ok_others, of N "key_a P" "others_at_a P"] ps
      by (simp add: hosts_ok_def end_ok_elsewhere [OF _ x])
    show "conn_view P ?w = rebox (pkt_recv_buffer (sender (conn_view P w))) (pkt_recv_buffer (receiver (conn_view P w))) (conn_view P w)"
      using mine_others [of ps "key_a P"] ps unfolding rebox_self by (simp add: conn_view_def Let_def tcp_elsewhere [OF x])
  qed
qed

section \<open>The channels\<close>

lemma subseq_removes:
  assumes "subseq ys xs"
  shows "\<exists>is. foldl (\<lambda>zs i. remove_nth i zs) (pre @ xs) is = pre @ ys"
  using assms
proof (induction ys xs arbitrary: pre rule: list_emb.induct)
  case (list_emb_Nil xs)
  show ?case
  proof (induction xs)
    case (Cons x xs)
    then obtain "is" where "foldl (\<lambda>zs i. remove_nth i zs) (pre @ xs) is = pre @ []" by blast
    then show ?case by (intro exI [of _ "length pre # is"]) (simp add: remove_nth_append)
  qed (auto intro: exI [of _ "[]"])
next
  case (list_emb_Cons xs ys y)
  then obtain "is" where "foldl (\<lambda>zs i. remove_nth i zs) (pre @ ys) is = pre @ xs" by blast
  then show ?case by (intro exI [of _ "length pre # is"]) (simp add: remove_nth_append)
next
  case (list_emb_Cons2 x y xs ys)
  from list_emb_Cons2.IH [of "pre @ [y]"] list_emb_Cons2.hyps show ?case by auto
qed

lemma lose_run:
  "conn_run ops el s (map Lose_data_pkt is) = Inr (s\<lparr>wire_data := foldl (\<lambda>zs i. remove_nth i zs) (wire_data s) is\<rparr>)"
  "conn_run ops el s (map Lose_ack_pkt is) = Inr (s\<lparr>wire_acks := foldl (\<lambda>zs i. remove_nth i zs) (wire_acks s) is\<rparr>)"
  by (induction "is" arbitrary: s) simp_all

lemma lose_costs:
  "list_all event_ok (map Lose_data_pkt is)" "charges (map Lose_data_pkt is) = 0" "offered (map Lose_data_pkt is) = 0"
  "list_all event_ok (map Lose_ack_pkt is)" "charges (map Lose_ack_pkt is) = 0" "offered (map Lose_ack_pkt is) = 0"
  by (induction "is") simp_all

lemma follows_loss:
  assumes "hosts_step ops el P w e = Inr w'" "hosts_ok P (N + new_others e) w'"
    and "conn_view P w' = (conn_view P w)\<lparr>wire_data := ds\<rparr> \<and> subseq ds (wire_data (conn_view P w)) \<or>
      conn_view P w' = (conn_view P w)\<lparr>wire_acks := ds\<rparr> \<and> subseq ds (wire_acks (conn_view P w))"
  shows "follows ops el P N w e"
proof -
  let ?s = "conn_view P w"
  have "\<exists>es. list_all event_ok es \<and> charges es = 0 \<and> offered es = 0 \<and> conn_run ops el ?s es = Inr (conn_view P w')"
    using assms(3)
  proof
    assume v: "conn_view P w' = ?s\<lparr>wire_data := ds\<rparr> \<and> subseq ds (wire_data ?s)"
    then obtain "is" where "foldl (\<lambda>zs i. remove_nth i zs) (wire_data ?s) is = ds" using subseq_removes [of ds _ "[]"] by auto
    with v show ?thesis using lose_run(1) [of ops el ?s "is"] lose_costs(1-3) by metis
  next
    assume v: "conn_view P w' = ?s\<lparr>wire_acks := ds\<rparr> \<and> subseq ds (wire_acks ?s)"
    then obtain "is" where "foldl (\<lambda>zs i. remove_nth i zs) (wire_acks ?s) is = ds" using subseq_removes [of ds _ "[]"] by auto
    with v show ?thesis using lose_run(2) [of ops el ?s "is"] lose_costs(4-6) by metis
  qed
  then obtain es where es: "list_all event_ok es" "charges es = 0" "offered es = 0" "conn_run ops el ?s es = Inr (conn_view P w')"
    by blast
  with assms(1,2) show ?thesis
    unfolding follows_def
    by (intro exI [of _ es] exI [of _ "pkt_recv_buffer (sender ?s)"] exI [of _ "pkt_recv_buffer (receiver ?s)"])
       (simp add: rebox_self [of ?s, simplified])
qed

lemma host_sends_eq:
  assumes "\<not> destroy (send_pkt_queue h)" "\<forall>i. 0 \<le> rnd i" "length (packets (send_pkt_queue h)) < 4294967296"
  shows "host_sends rnd k ch h =
    (with_chan (packets (pkt_buffer ch) @ survivors rnd k (packets (send_pkt_queue h))) ch, with_send [] h)"
proof (cases "packets (send_pkt_queue h) = []")
  case True
  then have "PacketsSendListener_round rnd k ch h = Blocks"
    using assms(1) by (simp add: PacketsSendListener_round_def DeQueueAllTo_def dequeue_all_locked_def IncReaders_def)
  with True show ?thesis by (simp add: host_sends_def with_queues_same)
next
  case False
  have "snd (Channel_Send rnd k ch (packets (send_pkt_queue h))) =
      ([], with_chan (packets (pkt_buffer ch) @ survivors rnd k (packets (send_pkt_queue h))) ch)"
    using Channel_Send_survivors [OF assms(2,3)] by (simp add: with_chan_def)
  then show ?thesis
    using DeQueueAllTo_running [OF assms(1) False]
    by (simp add: host_sends_def PacketsSendListener_round_def with_send_def split_beta Let_def)
qed

lemma path_survivors:
  "subseq (path (with_send [] h) (with_chan (packets (pkt_buffer ch) @ survivors rnd k (packets (send_pkt_queue h))) ch) h') (path h ch h')"
  by (simp add: path_def subseq_append' survivors_subseq)

lemma end_queues: "end_ok k K a fid h \<Longrightarrow> \<not> destroy (send_pkt_queue h) \<and> \<not> destroy (recv_pkt_queue h)"
  by (simp add: end_ok_def routes_def)

lemma path_parts:
  "length (packets (send_pkt_queue h)) \<le> length (path h ch h')" "length (packets (pkt_buffer ch)) \<le> length (path h ch h')"
  "length (packets (recv_pkt_queue h')) \<le> length (path h ch h')"
  by (simp_all add: path_def)

lemma subseq_mine: "subseq qs ps \<Longrightarrow> subseq (mine k qs) (mine k ps)"
  by (simp add: mine_def)

lemma path_with [simp]: "path h' ch (with_send ps h) = path h' ch h" "path (with_recv ps h) ch h' = path h ch h'"
  by (simp_all add: path_def)

lemma host_a_sends_follows:
  assumes ok: "hosts_ok P N w" and room: "roomy P N w" and rnd: "\<forall>i. 0 \<le> rnd i"
  shows "follows ops el P N w (Host_a_sends rnd k)"
proof (rule follows_loss)
  note ok' = ok [unfolded hosts_ok_def]
  let ?ps = "packets (send_pkt_queue (host_a w))"
  let ?w = "w\<lparr>to_b := with_chan (packets (pkt_buffer (to_b w)) @ survivors rnd k ?ps) (to_b w), host_a := with_send [] (host_a w)\<rparr>"
  have up: "\<not> destroy (send_pkt_queue (host_a w))" using ok' end_queues by blast
  have len: "length ?ps < 4294967296" using roomy_paths(1) [OF ok room] path_parts(1) le_less_trans by blast
  show "hosts_step ops el P w (Host_a_sends rnd k) = Inr ?w" by (simp add: host_sends_eq [OF up rnd len])
  show "hosts_ok P (N + new_others (Host_a_sends rnd k)) ?w"
    using ok' by (simp add: hosts_ok_def path_ok_subseq [OF _ path_survivors])
  show "conn_view P ?w = (conn_view P w)\<lparr>wire_data := wire_data (conn_view P ?w)\<rparr> \<and>
      subseq (wire_data (conn_view P ?w)) (wire_data (conn_view P w)) \<or>
    conn_view P ?w = (conn_view P w)\<lparr>wire_acks := wire_data (conn_view P ?w)\<rparr> \<and>
      subseq (wire_data (conn_view P ?w)) (wire_acks (conn_view P w))"
    by (simp add: conn_view_def Let_def subseq_append' subseq_mine [OF path_survivors])
qed

lemma host_b_sends_follows:
  assumes ok: "hosts_ok P N w" and room: "roomy P N w" and rnd: "\<forall>i. 0 \<le> rnd i"
  shows "follows ops el P N w (Host_b_sends rnd k)"
proof (rule follows_loss)
  note ok' = ok [unfolded hosts_ok_def]
  let ?ps = "packets (send_pkt_queue (host_b w))"
  let ?w = "w\<lparr>to_a := with_chan (packets (pkt_buffer (to_a w)) @ survivors rnd k ?ps) (to_a w), host_b := with_send [] (host_b w)\<rparr>"
  have up: "\<not> destroy (send_pkt_queue (host_b w))" using ok' end_queues by blast
  have len: "length ?ps < 4294967296" using roomy_paths(2) [OF ok room] path_parts(1) le_less_trans by blast
  show "hosts_step ops el P w (Host_b_sends rnd k) = Inr ?w" by (simp add: host_sends_eq [OF up rnd len])
  show "hosts_ok P (N + new_others (Host_b_sends rnd k)) ?w"
    using ok' by (simp add: hosts_ok_def path_ok_subseq [OF _ path_survivors])
  show "conn_view P ?w = (conn_view P w)\<lparr>wire_data := wire_acks (conn_view P ?w)\<rparr> \<and>
      subseq (wire_acks (conn_view P ?w)) (wire_data (conn_view P w)) \<or>
    conn_view P ?w = (conn_view P w)\<lparr>wire_acks := wire_acks (conn_view P ?w)\<rparr> \<and>
      subseq (wire_acks (conn_view P ?w)) (wire_acks (conn_view P w))"
    by (simp add: conn_view_def Let_def subseq_append' subseq_mine [OF path_survivors])
qed

lemma channel_round_eq:
  assumes "carrier_ok ch" "length (packets (pkt_buffer ch)) < 4294967296"
  shows "channel_round ch h =
    Inr (with_chan [] ch, with_recv (packets (recv_pkt_queue h) @ packets (pkt_buffer ch)) h)"
proof (cases "packets (pkt_buffer ch) = []")
  case True
  then have "WaitingForPackets_round ch h = Some (Inr Blocks)"
    using assms(1) by (simp add: carrier_ok_def WaitingForPackets_round_def DeQueueAllTo_def dequeue_all_locked_def IncReaders_def)
  with True show ?thesis by (simp add: channel_round_def with_queues_same)
next
  case False
  have "MovePacketsFromChannel (packets (pkt_buffer ch)) h = Inr (with_recv (packets (recv_pkt_queue h) @ packets (pkt_buffer ch)) h, [])"
    using assms(2) by (simp add: MovePacketsFromChannel_def PushAll_small with_recv_def)
  then show ?thesis
    using WaitingForPackets_round_delivers [of ch "\<lambda>h pkts. MovePacketsFromChannel pkts h" h] assms False
    by (simp add: channel_round_def carrier_ok_def moves_packets_def with_chan_def)
qed

lemma path_moved [simp]:
  "path h (with_chan [] ch) (with_recv (packets (recv_pkt_queue h') @ packets (pkt_buffer ch)) h') = path h ch h'"
  by (simp add: path_def)

lemma reaches_follows:
  assumes ok: "hosts_ok P N w" and room: "roomy P N w"
  shows "follows ops el P N w Reaches_b" "follows ops el P N w Reaches_a"
proof -
  note ok' = ok [unfolded hosts_ok_def]
  have len: "length (packets (pkt_buffer (to_b w))) < 4294967296" "length (packets (pkt_buffer (to_a w))) < 4294967296"
    using roomy_paths(1,2) [OF ok room] path_parts(2) le_less_trans by blast+
  show "follows ops el P N w Reaches_b"
    by (rule follows_still [OF _ _ trans [OF _ rebox_self [symmetric]], where w' = "w\<lparr>to_b := with_chan [] (to_b w),
          host_b := with_recv (packets (recv_pkt_queue (host_b w)) @ packets (pkt_buffer (to_b w))) (host_b w)\<rparr>"])
      (use ok' len in \<open>simp_all add: channel_round_eq hosts_ok_def conn_view_def Let_def\<close>)
  show "follows ops el P N w Reaches_a"
    by (rule follows_still [OF _ _ trans [OF _ rebox_self [symmetric]], where w' = "w\<lparr>to_a := with_chan [] (to_a w),
          host_a := with_recv (packets (recv_pkt_queue (host_a w)) @ packets (pkt_buffer (to_a w))) (host_a w)\<rparr>"])
      (use ok' len in \<open>simp_all add: channel_round_eq hosts_ok_def conn_view_def Let_def\<close>)
qed

section \<open>Sorting\<close>

lemma delivered_to_table: "open_files_table (delivered_to conns ps h) = open_files_table h"
  by (induction conns ps h rule: delivered_to.induct) (auto split: option.splits simp: store_tcp_def)

lemma delivered_to_fields:
  "connections (delivered_to conns ps h) = connections h" "send_pkt_queue (delivered_to conns ps h) = send_pkt_queue h"
  "recv_pkt_queue (delivered_to conns ps h) = recv_pkt_queue h" "dom (tcp_objects (delivered_to conns ps h)) = dom (tcp_objects h)"
  "GetSocket (delivered_to conns ps h) fid = GetSocket h fid"
  by (induction conns ps h rule: delivered_to.induct)
    (auto split: option.splits simp: store_tcp_def GetSocket_def delivered_to_table)

text \<open>The controller after the packets of a batch that are for it were put into its inbox.\<close>

definition put_in :: "Packet list \<Rightarrow> 'b TcpController \<Rightarrow> 'b TcpController" where
  "put_in ps c = c\<lparr>pkt_recv_buffer := (pkt_recv_buffer c)\<lparr>packets := packets (pkt_recv_buffer c) @ ps\<rparr>\<rparr>"

lemma host_sorts_eq:
  assumes e: "end_ok k K a fid h" and known: "\<forall>p \<in> set (packets (recv_pkt_queue h)). packet_key p \<in> insert k K"
    and len: "length (packets (recv_pkt_queue h)) < 4294967296"
  obtains h' where "host_sorts ops h = Inr h'" "end_ok k K a fid h'"
    "tcp_at a h' = put_in (mine k (packets (recv_pkt_queue h))) (tcp_at a h)"
    "packets (recv_pkt_queue h') = []" "send_pkt_queue h' = send_pkt_queue h"
proof (cases "packets (recv_pkt_queue h) = []")
  case True
  then have "PacketsReceiveListener_round ops False h = Inr Blocks"
    using end_queues [OF e] by (simp add: PacketsReceiveListener_round_def DeQueueAllTo_def dequeue_all_locked_def IncReaders_def)
  with True e show thesis by (intro that [of h]) (simp_all add: host_sorts_def put_in_def)
next
  case False
  let ?ps = "packets (recv_pkt_queue h)" and ?h = "with_recv [] h"
  let ?h' = "delivered_to (connections h) ?ps ?h"
  have r: "connections h k = Some a" "\<And>k'. connections h k' = Some a \<Longrightarrow> k' = k"
      "\<And>k'. k' \<in> K \<Longrightarrow> \<exists>a'. connections h k' = Some a' \<and> a' \<in> dom (tcp_objects h)"
    using e unfolding end_ok_def routes_def by blast+
  have at: "tcp_objects h a = Some (tcp_at a h)" by (rule end_at [OF e])
  have dom: "\<exists>a. connections ?h (packet_key p) = Some a \<and> a \<in> dom (tcp_objects ?h)" if "p \<in> set ?ps" for p
  proof (cases "packet_key p = k")
    case False
    then show ?thesis using known that r(3) by force
  qed (use r(1) at in auto)
  have "host_sorts ops h = Inr ?h'"
    using demultiplex_known [of ?ps ?h ops False] dom DeQueueAllTo_running [of "recv_pkt_queue h", OF _ False] end_queues [OF e] len
    by (simp add: host_sorts_def PacketsReceiveListener_round_def DemultiplexPacketsToTcps_def unat_of_nat_u32 with_recv_def)
  moreover have obj: "tcp_objects ?h' a = Some (put_in (mine k ?ps) (tcp_at a h))"
    using delivered_to_object [of ?h a "tcp_at a h" "connections h" k ?ps, OF _ r(1) r(2)] at by (simp add: put_in_def mine_def)
  moreover have "end_ok k K a fid ?h'"
  proof -
    have "routes k K a fid ?h" using e with_queues_end(2) [of k K a fid "[]" h] by (simp add: end_ok_def del: with_queues_end)
    then have "routes k K a fid ?h'" unfolding routes_def delivered_to_fields .
    moreover have "serves k a ?h'" using obj end_keyed [OF e] by (simp add: serves_def put_in_def)
    ultimately show ?thesis by (simp add: end_ok_def)
  qed
  ultimately show thesis by (intro that [of ?h']) (simp_all add: delivered_to_fields tcp_at_def)
qed

lemma path_sorted:
  assumes "packets (recv_pkt_queue h'') = []" "send_pkt_queue h'' = send_pkt_queue h'"
  shows "path h ch h' = packets (recv_pkt_queue h') @ path h ch h''" "path h'' ch h = path h' ch h"
    "path_ok N k K (path h ch h') \<Longrightarrow> path_ok N k K (path h ch h'')"
proof -
  show p: "path h ch h' = packets (recv_pkt_queue h') @ path h ch h''" "path h'' ch h = path h' ch h"
    using assms by (simp_all add: path_def)
  show "path_ok N k K (path h ch h') \<Longrightarrow> path_ok N k K (path h ch h'')"
    unfolding p(1) by (erule path_ok_subseq) (rule subseq_drop_many [OF subseq_order.refl])
qed

lemma put_in_simps: "inbox (put_in ps c) = inbox c @ ps" "put_in ps c = c\<lparr>pkt_recv_buffer := pkt_recv_buffer (put_in ps c)\<rparr>"
  by (simp_all add: put_in_def inbox_def)

lemma path_known: "path_ok N k K (path h ch h') \<Longrightarrow> \<forall>p \<in> set (packets (recv_pkt_queue h')). packet_key p \<in> insert k K"
  by (simp add: path_ok_def path_def)

lemma sorted_follows:
  assumes ok: "hosts_ok P N w" and room: "roomy P N w"
  shows "follows ops el P N w Sorted_b" "follows ops el P N w Sorted_a"
proof -
  note ok' = ok [unfolded hosts_ok_def]
  have len: "length (packets (recv_pkt_queue (host_b w))) < 4294967296" "length (packets (recv_pkt_queue (host_a w))) < 4294967296"
    using roomy_paths(1,2) [OF ok room] path_parts(3) le_less_trans by blast+
  have ends: "end_ok (key_b P) (others_at_b P) (at_b P) (file_b P) (host_b w)" "end_ok (key_a P) (others_at_a P) (at_a P) (file_a P) (host_a w)"
    and known: "\<forall>p \<in> set (packets (recv_pkt_queue (host_b w))). packet_key p \<in> insert (key_b P) (others_at_b P)"
      "\<forall>p \<in> set (packets (recv_pkt_queue (host_a w))). packet_key p \<in> insert (key_a P) (others_at_a P)"
    using ok' path_known by blast+
  show "follows ops el P N w Sorted_b"
  proof (rule host_sorts_eq [OF ends(1) known(1) len(1), of ops])
    let ?ps = "mine (key_b P) (packets (recv_pkt_queue (host_b w)))" and ?d = "tcp_at (at_b P) (host_b w)"
    fix h' assume h': "host_sorts ops (host_b w) = Inr h'" "end_ok (key_b P) (others_at_b P) (at_b P) (file_b P) h'"
      "tcp_at (at_b P) h' = put_in ?ps ?d" "packets (recv_pkt_queue h') = []" "send_pkt_queue h' = send_pkt_queue (host_b w)"
    note p = path_sorted [OF h'(4,5)]
    have "hosts_step ops el P w Sorted_b = Inr (w\<lparr>host_b := h'\<rparr>)" using h'(1) by simp
    moreover have "hosts_ok P (N + new_others Sorted_b) (w\<lparr>host_b := h'\<rparr>)" using ok' h'(2) p(2,3) by (simp add: hosts_ok_def)
    moreover have "conn_view P (w\<lparr>host_b := h'\<rparr>) =
        rebox (pkt_recv_buffer (tcp_at (at_a P) (host_a w))) (pkt_recv_buffer (put_in ?ps ?d)) (conn_view P w)"
      using p(2) by (simp add: conn_view_def Let_def rebox_def h'(3) put_in_simps(1) p(1) flip: put_in_simps(2))
    ultimately show ?thesis by (rule follows_still)
  qed
  show "follows ops el P N w Sorted_a"
  proof (rule host_sorts_eq [OF ends(2) known(2) len(2), of ops])
    let ?ps = "mine (key_a P) (packets (recv_pkt_queue (host_a w)))" and ?d = "tcp_at (at_a P) (host_a w)"
    fix h' assume h': "host_sorts ops (host_a w) = Inr h'" "end_ok (key_a P) (others_at_a P) (at_a P) (file_a P) h'"
      "tcp_at (at_a P) h' = put_in ?ps ?d" "packets (recv_pkt_queue h') = []" "send_pkt_queue h' = send_pkt_queue (host_a w)"
    note p = path_sorted [OF h'(4,5)]
    have "hosts_step ops el P w Sorted_a = Inr (w\<lparr>host_a := h'\<rparr>)" using h'(1) by simp
    moreover have "hosts_ok P (N + new_others Sorted_a) (w\<lparr>host_a := h'\<rparr>)" using ok' h'(2) p(2,3) by (simp add: hosts_ok_def)
    moreover have "conn_view P (w\<lparr>host_a := h'\<rparr>) =
        rebox (pkt_recv_buffer (put_in ?ps ?d)) (pkt_recv_buffer (tcp_at (at_b P) (host_b w))) (conn_view P w)"
      using p(2) by (simp add: conn_view_def Let_def rebox_def h'(3) put_in_simps(1) p(1) flip: put_in_simps(2))
    ultimately show ?thesis by (rule follows_still)
  qed
qed

section \<open>The inboxes\<close>

lemma handled_frames:
  assumes "HandleReceivedPackets env m c ps = Inr (m', c')"
  shows "tcp_outside c' = tcp_outside c" "keyed c \<Longrightarrow> keyed c'"
proof -
  have "tcp_outside c' = tcp_outside c \<and> (keyed c \<longrightarrow> keyed c')"
    using assms
  proof (induction ps arbitrary: m c)
    case (Cons p ps)
    then obtain m1 c1 where "HandleReceivedPacket env m c p = Inr (m1, c1)" "HandleReceivedPackets env m1 c1 ps = Inr (m', c')"
      by (auto simp: bindR_Inr_iff)
    with Cons.IH outside_handle keyed_handle show ?case by metis
  qed simp
  then show "tcp_outside c' = tcp_outside c" "keyed c \<Longrightarrow> keyed c'" by simp_all
qed

lemma arrive_run:
  "wire_data s = ps @ ds \<Longrightarrow> conn_run ops el s (replicate (length ps) Data_arrives) =
    bindR (HandleReceivedPackets (conn_env ops el False) (dup_limit s) (receiver s) ps) (\<lambda>(m, c).
      Inr (s\<lparr>receiver := c, dup_limit := m, wire_data := ds\<rparr>))"
  "wire_acks s = ps @ as \<Longrightarrow> conn_run ops el s (replicate (length ps) Ack_arrives) =
    bindR (HandleReceivedPackets (conn_env ops el False) (dup_limit s) (sender s) ps) (\<lambda>(m, c).
      Inr (s\<lparr>sender := c, dup_limit := m, wire_acks := as\<rparr>))"
proof (induction ps arbitrary: s)
  case (Cons p ps)
  { case 1
    then show ?case
      using Cons.IH(1) by (cases "HandleReceivedPacket (conn_env ops el False) (dup_limit s) (receiver s) p") auto
  next
    case 2
    then show ?case
      using Cons.IH(2) by (cases "HandleReceivedPacket (conn_env ops el False) (dup_limit s) (sender s) p") auto }
qed simp_all

lemma arrive_costs:
  "list_all event_ok (replicate n Data_arrives)" "charges (replicate n Data_arrives) = 0" "offered (replicate n Data_arrives) = 0"
  "list_all event_ok (replicate n Ack_arrives)" "charges (replicate n Ack_arrives) = 0" "offered (replicate n Ack_arrives) = 0"
  by (induction n) simp_all

definition empty_inbox :: "'b TcpController \<Rightarrow> PacketQueue" where
  "empty_inbox c = (pkt_recv_buffer c)\<lparr>packets := []\<rparr>"

lemma inbox_round_eq:
  assumes "end_ok k K a fid h"
  shows "inbox_round env a m h =
    (if shutdown_flag (tcp_at a h) \<or> inbox (tcp_at a h) = [] then Inr (m, h)
     else bindR (HandleReceivedPackets env m ((tcp_at a h)\<lparr>pkt_recv_buffer := empty_inbox (tcp_at a h)\<rparr>) (inbox (tcp_at a h)))
       (\<lambda>(m', c'). Inr (m', store_tcp a c' h)))"
proof -
  let ?c = "tcp_at a h"
  have at: "tcp_objects h a = Some ?c" and up: "\<not> destroy (pkt_recv_buffer ?c)" using end_at [OF assms] end_keyed [OF assms] by auto
  have same: "store_tcp a ?c h = h" using at by (simp add: store_tcp_def fun_upd_idem)
  show ?thesis
  proof (cases "shutdown_flag ?c \<or> inbox ?c = []")
    case True
    then have "running_round (m, ?c) (PacketReceiveBufferListener_round env m ?c) = Inr (m, ?c)"
      using up by (auto simp: PacketReceiveBufferListener_round_def inbox_def DeQueueAllTo_def dequeue_all_locked_def IncReaders_def)
    with True show ?thesis using at same by (simp add: inbox_round_def deref_def)
  next
    case False
    then show ?thesis
      using at DeQueueAllTo_running [OF up]
      by (cases "HandleReceivedPackets env m (?c\<lparr>pkt_recv_buffer := empty_inbox ?c\<rparr>) (inbox ?c)")
        (auto simp: inbox_round_def deref_def PacketReceiveBufferListener_round_def inbox_def empty_inbox_def)
  qed
qed

lemma handled_end_ok:
  assumes "end_ok k K a fid h"
    and "HandleReceivedPackets env m ((tcp_at a h)\<lparr>pkt_recv_buffer := empty_inbox (tcp_at a h)\<rparr>) ps = Inr (m', c')"
  shows "end_ok k K a fid (store_tcp a c' h)" "inbox c' = []"
proof -
  have "tcp_outside c' = tcp_outside ((tcp_at a h)\<lparr>pkt_recv_buffer := empty_inbox (tcp_at a h)\<rparr>)" "keyed c'"
    using handled_frames [OF assms(2)] end_keyed [OF assms(1)] by simp_all
  then show "end_ok k K a fid (store_tcp a c' h)" "inbox c' = []"
    using end_keyed [OF assms(1)] assms(1)
    by (auto simp: tcp_outside_def tcp_identity_def empty_inbox_def inbox_def intro!: end_ok_put)
qed

lemma handled_b_follows:
  assumes ok: "hosts_ok P N w"
  shows "follows ops el P N w Handled_b"
proof -
  let ?c = "tcp_at (at_b P) (host_b w)" and ?env = "conn_env ops el False"
  have here: "end_ok (key_b P) (others_at_b P) (at_b P) (file_b P) (host_b w)" using ok by (simp add: hosts_ok_def)
  note rd = inbox_round_eq [OF here, of ?env "shared_limit w"]
  show ?thesis
  proof (cases "shutdown_flag ?c \<or> inbox ?c = []")
    case True
    then show ?thesis
      by (intro follows_still [where w' = w, OF _ _ rebox_self [symmetric]]) (use ok rd in simp_all)
  next
    case False
    let ?s = "rebox (pkt_recv_buffer (tcp_at (at_a P) (host_a w))) (empty_inbox ?c) (conn_view P w)" and ?ds = "mine (key_b P) (path (host_a w) (to_b w) (host_b w))"
    have wire: "wire_data ?s = inbox ?c @ ?ds" by (simp add: rebox_def conn_view_def Let_def)
    have "\<exists>w'. hosts_step ops el P w Handled_b = Inr w' \<and> hosts_ok P (N + new_others Handled_b) w' \<and> conn_view P w' = s'"
      if run: "conn_run ops el ?s (replicate (length (inbox ?c)) Data_arrives) = Inr s'" for s'
    proof -
      obtain m' c' where c': "HandleReceivedPackets ?env (shared_limit w) (?c\<lparr>pkt_recv_buffer := empty_inbox ?c\<rparr>) (inbox ?c) = Inr (m', c')"
          "s' = ?s\<lparr>receiver := c', dup_limit := m', wire_data := ?ds\<rparr>"
        using run unfolding arrive_run(1) [OF wire] by (auto simp: bindR_Inr_iff rebox_def)
      let ?w = "w\<lparr>shared_limit := m', host_b := store_tcp (at_b P) c' (host_b w)\<rparr>"
      note e = handled_end_ok [OF here c'(1)]
      have "hosts_step ops el P w Handled_b = Inr ?w" using False rd c'(1) by simp
      moreover have "hosts_ok P N ?w" using ok e(1) by (simp add: hosts_ok_def)
      moreover have "conn_view P ?w = s'" using e(2) unfolding c'(2) by (simp add: conn_view_def Let_def rebox_def)
      ultimately show ?thesis by simp
    qed
    then show ?thesis
      unfolding follows_def using arrive_costs(1-3)
      by (intro exI [of _ "replicate (length (inbox ?c)) Data_arrives"] exI [of _ "pkt_recv_buffer (tcp_at (at_a P) (host_a w))"] exI [of _ "empty_inbox ?c"]) simp
  qed
qed

lemma handled_a_follows:
  assumes ok: "hosts_ok P N w"
  shows "follows ops el P N w Handled_a"
proof -
  let ?c = "tcp_at (at_a P) (host_a w)" and ?env = "conn_env ops el False"
  have here: "end_ok (key_a P) (others_at_a P) (at_a P) (file_a P) (host_a w)" using ok by (simp add: hosts_ok_def)
  note rd = inbox_round_eq [OF here, of ?env "shared_limit w"]
  show ?thesis
  proof (cases "shutdown_flag ?c \<or> inbox ?c = []")
    case True
    then show ?thesis
      by (intro follows_still [where w' = w, OF _ _ rebox_self [symmetric]]) (use ok rd in simp_all)
  next
    case False
    let ?s = "rebox (empty_inbox ?c) (pkt_recv_buffer (tcp_at (at_b P) (host_b w))) (conn_view P w)" and ?ds = "mine (key_a P) (path (host_b w) (to_a w) (host_a w))"
    have wire: "wire_acks ?s = inbox ?c @ ?ds" by (simp add: rebox_def conn_view_def Let_def)
    have "\<exists>w'. hosts_step ops el P w Handled_a = Inr w' \<and> hosts_ok P (N + new_others Handled_a) w' \<and> conn_view P w' = s'"
      if run: "conn_run ops el ?s (replicate (length (inbox ?c)) Ack_arrives) = Inr s'" for s'
    proof -
      obtain m' c' where c': "HandleReceivedPackets ?env (shared_limit w) (?c\<lparr>pkt_recv_buffer := empty_inbox ?c\<rparr>) (inbox ?c) = Inr (m', c')"
          "s' = ?s\<lparr>sender := c', dup_limit := m', wire_acks := ?ds\<rparr>"
        using run unfolding arrive_run(2) [OF wire] by (auto simp: bindR_Inr_iff rebox_def)
      let ?w = "w\<lparr>shared_limit := m', host_a := store_tcp (at_a P) c' (host_a w)\<rparr>"
      note e = handled_end_ok [OF here c'(1)]
      have "hosts_step ops el P w Handled_a = Inr ?w" using False rd c'(1) by simp
      moreover have "hosts_ok P N ?w" using ok e(1) by (simp add: hosts_ok_def)
      moreover have "conn_view P ?w = s'" using e(2) unfolding c'(2) by (simp add: conn_view_def Let_def rebox_def)
      ultimately show ?thesis by simp
    qed
    then show ?thesis
      unfolding follows_def using arrive_costs(4-6)
      by (intro exI [of _ "replicate (length (inbox ?c)) Ack_arrives"] exI [of _ "empty_inbox ?c"] exI [of _ "pkt_recv_buffer (tcp_at (at_b P) (host_b w))"]) simp
  qed
qed

section \<open>Every step\<close>

fun hosts_event_ok :: "ends \<Rightarrow> 'b hosts_event \<Rightarrow> bool" where
  "hosts_event_ok P (Call_write bs) = (length bs < 2147483648)"
| "hosts_event_ok P (Call_read n) = (n < 2147483648)"
| "hosts_event_ok P (Host_a_sends rnd k) = (\<forall>i. 0 \<le> rnd i)"
| "hosts_event_ok P (Host_b_sends rnd k) = (\<forall>i. 0 \<le> rnd i)"
| "hosts_event_ok P (Others_a x c ps) = (x \<noteq> at_a P \<and> (\<forall>p \<in> set ps. packet_key p \<in> others_at_b P - {key_b P}))"
| "hosts_event_ok P (Others_b x c ps) = (x \<noteq> at_b P \<and> (\<forall>p \<in> set ps. packet_key p \<in> others_at_a P - {key_a P}))"
| "hosts_event_ok P _ = True"

lemma hosts_step_follows:
  assumes "hosts_ok P N w" "roomy P N w" "hosts_event_ok P e" "new_others e < 4294967296"
  shows "follows ops el P N w e"
  using assms
  by (cases e) (simp_all add: write_follows read_follows controller_follows hand_over_a_follows hand_over_b_follows
      host_a_sends_follows host_b_sends_follows reaches_follows sorted_follows handled_b_follows handled_a_follows
      others_follow del: Diff_iff)

section \<open>Runs\<close>

definition bytes_offered :: "'b hosts_event list \<Rightarrow> nat" where
  "bytes_offered es = sum_list (map new_bytes es)"

definition others_offered :: "'b hosts_event list \<Rightarrow> nat" where
  "others_offered es = sum_list (map new_others es)"

lemma sim_roomy:
  assumes "sim ops ok contents b (conn_view P w) n" "effort k n + N < 4294967296"
  shows "roomy P N w"
proof -
  have "length (data_flight (conn_view P w)) = length (data_ch n)" "length (ack_flight (conn_view P w)) = length (ack_ch n)"
    using assms(1) by (simp_all add: sim_def sim_net_def)
  with assms(2) show ?thesis by (simp add: roomy_def effort_def drain_measure_def)
qed

lemma hosts_step_simulated:
  assumes laws: "ring_laws ops ok contents" and ok: "hosts_ok P N w" and sim: "sim ops ok contents b (conn_view P w) n"
    and inv: "net_inv b k n" and e: "hosts_event_ok P e" "N + new_others e < 2147483648"
    and b: "unat b + length (wrote w) + new_bytes e < 4294967296"
      "effort k n + 5 + 5 * (length (wrote w) + new_bytes e) < 2147483648 + 5 * seq_span (sent n)"
  shows "\<exists>w' n' k'. hosts_step ops el P w e = Inr w' \<and> hosts_ok P (N + new_others e) w' \<and>
    sim ops ok contents b (conn_view P w') n' \<and> net_inv b k' n' \<and> length (wrote w') \<le> length (wrote w) + new_bytes e \<and>
    effort k' n' + 5 * seq_span (sent n) \<le> effort k n + 5 + 5 * seq_span (sent n')"
proof -
  have "seq_span (sent n) \<le> length (wrote w)" using sim_written [OF sim] by simp
  then have "effort k n + N < 4294967296" using b(2) e(2) by (simp add: distrib_left)
  from hosts_step_follows [OF ok sim_roomy [OF sim this] e(1)] e(2) have "follows ops el P N w e" by simp
  then obtain es p q where es: "list_all event_ok es" "charges es \<le> 1" "offered es \<le> new_bytes e"
    and step: "\<And>s'. conn_run ops el (rebox p q (conn_view P w)) es = Inr s' \<Longrightarrow>
      \<exists>w'. hosts_step ops el P w e = Inr w' \<and> hosts_ok P (N + new_others e) w' \<and> conn_view P w' = s'"
    unfolding follows_def by blast
  let ?s = "rebox p q (conn_view P w)"
  have wr: "written ?s = wrote w" by (simp add: rebox_def)
  have s: "sim ops ok contents b ?s n" using sim by (simp add: sim_rebox)
  have "unat b + length (written ?s) + offered es < 4294967296"
    "effort k n + 5 * charges es + 5 * (length (written ?s) + offered es) < 2147483648 + 5 * seq_span (sent n)"
    using b es(2,3) unfolding wr by (simp_all add: distrib_left)
  from conn_run_effort [OF laws s inv es(1) this, of el] obtain s' n' k' where
    s': "conn_run ops el ?s es = Inr s'" "sim ops ok contents b s' n'" "net_inv b k' n'"
      "effort k' n' + 5 * seq_span (sent n) \<le> effort k n + 5 * charges es + 5 * seq_span (sent n')" by blast
  obtain w' where w': "hosts_step ops el P w e = Inr w'" "hosts_ok P (N + new_others e) w'" "conn_view P w' = s'"
    using step [OF s'(1)] by blast
  have "length (wrote w') \<le> length (wrote w) + new_bytes e"
    using conn_run_written [OF s'(1)] es(3) w'(3) wr by (metis add_left_mono le_trans view_simps(4))
  with s' w' es(2) show ?thesis by (intro exI [of _ w'] exI [of _ n'] exI [of _ k']) auto
qed

lemma hosts_run_simulated:
  assumes "ring_laws ops ok contents" "hosts_ok P N w" "sim ops ok contents b (conn_view P w) n" "net_inv b k n"
    and "list_all (hosts_event_ok P) es" "N + others_offered es < 2147483648"
    and "unat b + length (wrote w) + bytes_offered es < 4294967296"
    and "effort k n + 5 * length es + 5 * (length (wrote w) + bytes_offered es) < 2147483648 + 5 * seq_span (sent n)"
  shows "\<exists>w' n' k'. hosts_run ops el P w es = Inr w' \<and> hosts_ok P (N + others_offered es) w' \<and>
    sim ops ok contents b (conn_view P w') n' \<and> net_inv b k' n'"
  using assms
proof (induction es arbitrary: w n k N)
  case Nil
  then show ?case by (auto simp: others_offered_def)
next
  case (Cons e es)
  have split: "others_offered (e # es) = new_others e + others_offered es" "bytes_offered (e # es) = new_bytes e + bytes_offered es"
    by (simp_all add: others_offered_def bytes_offered_def)
  have "hosts_event_ok P e" "N + new_others e < 2147483648" "unat b + length (wrote w) + new_bytes e < 4294967296"
      "effort k n + 5 + 5 * (length (wrote w) + new_bytes e) < 2147483648 + 5 * seq_span (sent n)"
    using Cons.prems(5-8) by (simp_all add: split)
  from hosts_step_simulated [OF Cons.prems(1-4) this, of el] obtain w1 n1 k1 where
    w1: "hosts_step ops el P w e = Inr w1" "hosts_ok P (N + new_others e) w1" "sim ops ok contents b (conn_view P w1) n1"
      "net_inv b k1 n1" "length (wrote w1) \<le> length (wrote w) + new_bytes e"
      "effort k1 n1 + 5 * seq_span (sent n) \<le> effort k n + 5 + 5 * seq_span (sent n1)" by blast
  have "\<exists>w' n' k'. hosts_run ops el P w1 es = Inr w' \<and> hosts_ok P (N + new_others e + others_offered es) w' \<and>
      sim ops ok contents b (conn_view P w') n' \<and> net_inv b k' n'"
  proof (rule Cons.IH [OF Cons.prems(1) w1(2-4)])
    show "unat b + length (wrote w1) + bytes_offered es < 4294967296" using Cons.prems(7) w1(5) unfolding split by linarith
    show "effort k1 n1 + 5 * length es + 5 * (length (wrote w1) + bytes_offered es) < 2147483648 + 5 * seq_span (sent n1)"
      using Cons.prems(8) w1(5,6) unfolding split by (simp add: distrib_left)
  qed (use Cons.prems(5,6) in \<open>simp_all add: split\<close>)
  with w1(1) show ?case by (simp add: split add.assoc)
qed

section \<open>Properties\<close>


text \<open>
  Two hosts with a connection between them, and one more that ends at the second host. The
  other connection's packet travels in the same batch as the data.
\<close>

definition example_key :: TcpControllerKey where
  "example_key = TcpControllerKey_new ''s'' 80 ''c'' 7"

definition other_key :: TcpControllerKey where
  "other_key = TcpControllerKey_new ''s'' 80 ''c'' 8"

definition example_end :: "TcpControllerKey \<Rightarrow> TcpControllerKey \<Rightarrow> list_buffer Host" where
  "example_end k k2 = \<lparr>host_name = [], local_ip_address = key_source_ip k, processes = Map.empty, running = [],
     recv_pkt_queue = PacketQueue_new, send_pkt_queue = PacketQueue_new, open_file_id_pool = \<lparr>pool_name = [], pool = {1}\<rparr>,
     open_files_table = [0 \<mapsto> (IncRef (KernelOpenFile_new SOCKET))\<lparr>socket := Socket_new\<lparr>tcp_con := Some 0\<rparr>\<rparr>],
     connections = [k \<mapsto> 0, k2 \<mapsto> 1], tcp_objects = [0 \<mapsto> idle_peer k, 1 \<mapsto> idle_peer k2], next_tcp = 2,
     listeners = Map.empty, port_pool = \<lparr>pool_name = [], pool = {}\<rparr>, pool_started = True\<rparr>"

definition example_channel :: "list_buffer Host BaseChannel" where
  "example_channel = BaseChannel_Start (BaseChannel_new (Some (\<lambda>h pkts. MovePacketsFromChannel pkts h)))"

definition example_hosts :: "list_buffer hosts" where
  "example_hosts = \<lparr>host_a = example_end example_key other_key, host_b = example_end (reverse_key example_key) (reverse_key other_key),
     to_b = example_channel, to_a = example_channel, shared_limit = kMaxDuplicatedAcksOrigin, wrote = [], took = []\<rparr>"

definition example_ends :: ends where
  "example_ends = \<lparr>at_a = 0, at_b = 0, file_a = 0, file_b = 0, key_a = example_key,
     others_at_a = {}, others_at_b = {reverse_key other_key}\<rparr>"

definition example_hosts_events :: "list_buffer hosts_event list" where
  "example_hosts_events = [Call_write [1, 2, 3], Sender_thread False, Hand_over_a,
     Others_a 1 (idle_peer other_key) [MakeFinPacket (idle_peer other_key) 0], Host_a_sends (\<lambda>_. 1) 0,
     Reaches_b, Sorted_b, Handled_b, Call_read 2]"

lemma example_keys:
  "ports_ok example_key" "ports_ok other_key" "other_key \<noteq> example_key"
  "reverse_key other_key \<noteq> reverse_key example_key" "reverse_key example_key \<noteq> reverse_key other_key"
  by (simp_all add: ports_ok_def example_key_def other_key_def reverse_key_def TcpControllerKey_new_def)

lemma idle_peer_serves:
  "tcp_key (idle_peer k) = k" "keyed (idle_peer k)" "packets (pkt_recv_buffer (idle_peer k)) = []" "\<not> destroy (pkt_recv_buffer (idle_peer k))"
  by (simp_all add: idle_peer_def client_controller_def TcpController_new_def keyed_def PacketQueue_new_def SendWindow_new_def)

lemma example_end_ok:
  assumes "k2 \<noteq> k" "K \<subseteq> {k2}"
  shows "end_ok k K 0 0 (example_end k k2)"
proof -
  have "routes k K 0 0 (example_end k k2)"
    unfolding routes_def
  proof (intro conjI allI impI ballI)
    show "connections (example_end k k2) k = Some 0" using assms(1) by (simp add: example_end_def)
    show "k' = k" if "connections (example_end k k2) k' = Some 0" for k'
      using that by (auto simp: example_end_def split: if_splits)
    show "\<exists>a'. connections (example_end k k2) k' = Some a' \<and> a' \<in> dom (tcp_objects (example_end k k2))" if "k' \<in> K" for k'
      using that assms(2) by (auto simp: example_end_def)
  qed (simp_all add: example_end_def PacketQueue_new_def GetSocket_def IncRef_def KernelOpenFile_new_def Socket_new_def)
  moreover have "serves k 0 (example_end k k2)" by (simp add: serves_def example_end_def idle_peer_serves)
  ultimately show ?thesis by (simp add: end_ok_def)
qed

lemma example_hosts_ok: "hosts_ok example_ends 0 example_hosts"
proof -
  have "path (example_end k k2) example_channel (example_end k' k2') = []" for k k2 k' k2'
    by (simp add: path_def example_end_def example_channel_def BaseChannel_Start_def BaseChannel_new_def PacketQueue_new_def)
  moreover have "carrier_ok example_channel"
    by (simp add: carrier_ok_def moves_packets_def example_channel_def BaseChannel_Start_def BaseChannel_new_def PacketQueue_new_def)
  ultimately show ?thesis
    using example_keys by (simp add: hosts_ok_def example_ends_def example_hosts_def path_ok_def example_end_ok)
qed

lemma example_start: "conn_view example_ends example_hosts = conn_start (idle_peer example_key) (idle_peer (reverse_key example_key))"
  by (simp add: conn_view_def conn_start_def example_ends_def example_hosts_def tcp_at_def example_end_def path_def
      example_channel_def BaseChannel_Start_def BaseChannel_new_def PacketQueue_new_def inbox_def idle_peer_serves)

lemma idle_ready:
  "ready_sender list_ring_inv snd 0 (idle_peer k)" "ready_receiver list_ring_inv snd 0 (idle_peer k)"
  "unat (capacity (send_window (idle_peer k))) \<le> unat (rb_free_space list_ring (recv_buffer (idle_peer k')))"
  by (simp_all add: ready_sender_def ready_receiver_def idle_peer_def established_def
      list_ring_def list_ring_inv_def SendWindow_new_def)

lemma example_hosts_events_ok:
  "list_all (hosts_event_ok example_ends) example_hosts_events" "bytes_offered example_hosts_events = 3"
  "others_offered example_hosts_events = 1" "length example_hosts_events = 9"
proof -
  have "packet_key (MakeFinPacket (idle_peer other_key) 0) = reverse_key other_key"
    using packet_key_carried [OF made_packets_carry_key(3)] example_keys(2) by (metis idle_peer_serves(1))
  then show "list_all (hosts_event_ok example_ends) example_hosts_events"
    using example_keys by (simp add: example_hosts_events_def example_ends_def)
qed (simp_all add: example_hosts_events_def bytes_offered_def others_offered_def)

lemma example_run: "case hosts_run list_ring (\<lambda>_. 0) example_ends example_hosts example_hosts_events of
    Inr w \<Rightarrow> took w = [1, 2] \<and> wrote w = [1, 2, 3] | Inl _ \<Rightarrow> False"
  by code_simp


end
