(* ===== verification/Queue_Threads.thy ===== *)
theory Queue_Threads
  imports Packet_Queue
begin

text \<open>
  The threads that share one \<^verbatim>\<open>PacketQueue\<close>: any number of readers inside \<^verbatim>\<open>DeQueue\<close> or
  \<^verbatim>\<open>DeQueueAllTo\<close>, pushing threads, and one thread that runs \<^verbatim>\<open>Stop\<close>. A step is what one
  thread does between two points where another may run: taking the mutex, the work done
  under it, going to sleep on the condition variable, a notification. In
  \<^verbatim>\<open>cv_.wait(lock, pred)\<close> the test of the predicate and the release of the mutex are two
  steps, because \<^verbatim>\<open>Stop\<close> stores \<^verbatim>\<open>destroy_\<close> and notifies without taking the mutex.
\<close>

section \<open>Threads\<close>

datatype read_op = Read_one | Read_all

datatype reader_pc =
    Outside
  | Entered read_op bool      \<comment> \<open>\<^verbatim>\<open>IncReaders\<close> done; the flag is \<^verbatim>\<open>blocking\<close>\<close>
  | Locked read_op bool       \<comment> \<open>owns the mutex\<close>
  | Parking read_op           \<comment> \<open>predicate found false, mutex still owned\<close>
  | Waiting read_op           \<comment> \<open>asleep on \<^verbatim>\<open>cv_\<close>, mutex released\<close>
  | Woken read_op             \<comment> \<open>notified, mutex not yet taken again\<close>
  | Leaving                   \<comment> \<open>has its result, \<^verbatim>\<open>DecReaders\<close> to run\<close>
  | Decremented bool          \<comment> \<open>left \<^verbatim>\<open>num_readers_mutex_\<close>; the flag is \<^verbatim>\<open>last_reader\<close>\<close>

datatype stop_pc = Stop_idle | Stop_stored | Stop_checking | Stop_parked | Stop_done

record queue_sys =
  queue :: PacketQueue
  mutex :: "nat option"
  readers :: "reader_pc list"
  notifies :: nat             \<comment> \<open>pushing threads that have not yet run \<^verbatim>\<open>notify_one\<close>\<close>
  stopper :: stop_pc
  pushed :: "Packet list"
  taken :: "Packet list"

datatype actor = Reader nat | Pusher | Notifier | Stopper

definition read_locked ::
  "read_op \<Rightarrow> bool \<Rightarrow> PacketQueue \<Rightarrow> (Packet list \<times> PacketQueue) waits" where
  "read_locked op blocking q =
     (case op of
        Read_one \<Rightarrow> (case dequeue_locked blocking q of
            Blocks \<Rightarrow> Blocks
          | Returns (r, q') \<Rightarrow> Returns (case r of None \<Rightarrow> [] | Some p \<Rightarrow> [p], q'))
      | Read_all \<Rightarrow> (case dequeue_all_locked blocking q [] of
            Blocks \<Rightarrow> Blocks
          | Returns (_, q', ps) \<Rightarrow> Returns (ps, q')))"

fun wake :: "reader_pc \<Rightarrow> reader_pc" where
  "wake (Waiting op) = Woken op"
| "wake pc = pc"

fun inside :: "reader_pc \<Rightarrow> bool" where
  "inside Outside = False"
| "inside (Decremented _) = False"
| "inside _ = True"

fun owns_mutex :: "reader_pc \<Rightarrow> bool" where
  "owns_mutex (Locked _ _) = True"
| "owns_mutex (Parking _) = True"
| "owns_mutex _ = False"

abbreviation at_reader :: "queue_sys \<Rightarrow> nat \<Rightarrow> reader_pc \<Rightarrow> bool" where
  "at_reader s i pc \<equiv> i < length (readers s) \<and> readers s ! i = pc"

abbreviation set_reader :: "nat \<Rightarrow> reader_pc \<Rightarrow> queue_sys \<Rightarrow> queue_sys" where
  "set_reader i pc s \<equiv> s\<lparr>readers := (readers s)[i := pc]\<rparr>"

section \<open>Steps\<close>

text \<open>The flag allows spurious wake-ups, which the standard permits and never promises.\<close>

inductive queue_step :: "bool \<Rightarrow> actor \<Rightarrow> queue_sys \<Rightarrow> queue_sys \<Rightarrow> bool"
  for spurious where
  enter: "at_reader s i Outside \<Longrightarrow>
    queue_step spurious (Reader i) s (set_reader i (Entered op blocking) (s\<lparr>queue := IncReaders (queue s)\<rparr>))"
| lock: "at_reader s i (Entered op blocking) \<Longrightarrow> mutex s = None \<Longrightarrow>
    queue_step spurious (Reader i) s (set_reader i (Locked op blocking) (s\<lparr>mutex := Some i\<rparr>))"
| relock: "at_reader s i (Woken op) \<Longrightarrow> mutex s = None \<Longrightarrow>
    queue_step spurious (Reader i) s (set_reader i (Locked op True) (s\<lparr>mutex := Some i\<rparr>))"
| finish: "at_reader s i (Locked op blocking) \<Longrightarrow> read_locked op blocking (queue s) = Returns (ps, q') \<Longrightarrow>
    queue_step spurious (Reader i) s
      (set_reader i Leaving (s\<lparr>mutex := None, queue := q', taken := taken s @ ps\<rparr>))"
| park: "at_reader s i (Locked op blocking) \<Longrightarrow> read_locked op blocking (queue s) = Blocks \<Longrightarrow>
    queue_step spurious (Reader i) s (set_reader i (Parking op) s)"
| sleep: "at_reader s i (Parking op) \<Longrightarrow>
    queue_step spurious (Reader i) s (set_reader i (Waiting op) (s\<lparr>mutex := None\<rparr>))"
| spurious_wakeup: "spurious \<Longrightarrow> at_reader s i (Waiting op) \<Longrightarrow>
    queue_step spurious (Reader i) s (set_reader i (Woken op) s)"
| leave: "at_reader s i Leaving \<Longrightarrow> DecReaders (queue s) = (last_reader, q') \<Longrightarrow>
    queue_step spurious (Reader i) s (set_reader i (Decremented last_reader) (s\<lparr>queue := q'\<rparr>))"
| gone: "at_reader s i (Decremented last_reader) \<Longrightarrow>
    queue_step spurious (Reader i) s
      (set_reader i Outside
        (s\<lparr>stopper := (if destroy (queue s) \<and> last_reader \<and> stopper s = Stop_parked
                       then Stop_checking else stopper s)\<rparr>))"
| push: "mutex s = None \<Longrightarrow>
    queue_step spurious Pusher s
      (s\<lparr>queue := snd (Push (queue s) p), pushed := pushed s @ [p], notifies := Suc (notifies s)\<rparr>)"
| push_all: "mutex s = None \<Longrightarrow> length ps < 4294967296 \<Longrightarrow>
    queue_step spurious Pusher s
      (s\<lparr>queue := fst (snd (PushAll (queue s) ps)), pushed := pushed s @ ps,
         notifies := Suc (notifies s)\<rparr>)"
| notify: "notifies s = Suc n \<Longrightarrow> at_reader s i (Waiting op) \<Longrightarrow>
    queue_step spurious Notifier s (set_reader i (Woken op) (s\<lparr>notifies := n\<rparr>))"
| notify_nobody: "notifies s = Suc n \<Longrightarrow> \<forall>pc \<in> set (readers s). wake pc = pc \<Longrightarrow>
    queue_step spurious Notifier s (s\<lparr>notifies := n\<rparr>)"
| stop_store: "stopper s = Stop_idle \<Longrightarrow>
    queue_step spurious Stopper s (s\<lparr>stopper := Stop_stored, queue := snd (Stop (queue s))\<rparr>)"
| stop_notify: "stopper s = Stop_stored \<Longrightarrow>
    queue_step spurious Stopper s (s\<lparr>stopper := Stop_checking, readers := map wake (readers s)\<rparr>)"
| stop_wait: "stopper s = Stop_checking \<Longrightarrow> \<not> num_readers (queue s) \<le> 0 \<Longrightarrow>
    queue_step spurious Stopper s (s\<lparr>stopper := Stop_parked\<rparr>)"
| stop_return: "stopper s = Stop_checking \<Longrightarrow> num_readers (queue s) \<le> 0 \<Longrightarrow>
    queue_step spurious Stopper s (s\<lparr>stopper := Stop_done\<rparr>)"

inductive_cases queue_step_readerE: "queue_step spurious (Reader i) s t"
inductive_cases queue_step_stopperE: "queue_step spurious Stopper s t"
inductive_cases queue_step_notifierE: "queue_step spurious Notifier s t"

definition queue_next :: "bool \<Rightarrow> queue_sys \<Rightarrow> queue_sys \<Rightarrow> bool" where
  "queue_next spurious s t \<longleftrightarrow> (\<exists>a. queue_step spurious a s t)"

definition queue_init :: "nat \<Rightarrow> queue_sys" where
  "queue_init n = \<lparr>queue = PacketQueue_new, mutex = None, readers = replicate n Outside,
     notifies = 0, stopper = Stop_idle, pushed = [], taken = []\<rparr>"

section \<open>The invariant\<close>

definition count_inside :: "reader_pc list \<Rightarrow> nat" where
  "count_inside rs = length (filter inside rs)"

definition queue_inv :: "queue_sys \<Rightarrow> bool" where
  "queue_inv s \<longleftrightarrow> length (readers s) < 4294967296 \<and>
     pushed s = taken s @ packets (queue s) \<and>
     unat (num_readers (queue s)) = count_inside (readers s) \<and>
     (\<forall>i < length (readers s). owns_mutex (readers s ! i) \<longleftrightarrow> mutex s = Some i) \<and>
     (destroy (queue s) \<longleftrightarrow> stopper s \<noteq> Stop_idle)"

lemma count_inside_update:
  "i < length rs \<Longrightarrow>
    count_inside (rs[i := pc]) + (if inside (rs ! i) then 1 else 0) =
    count_inside rs + (if inside pc then 1 else 0)"
proof (induction rs arbitrary: i)
  case (Cons r rs)
  then show ?case by (cases i) (auto simp: count_inside_def)
qed simp

lemma count_inside_le: "count_inside rs \<le> length rs"
  by (simp add: count_inside_def)

lemma count_inside_wake [simp]: "count_inside (map wake rs) = count_inside rs"
proof -
  have "inside (wake pc) = inside pc" for pc by (cases pc) auto
  then show ?thesis by (induction rs) (auto simp: count_inside_def)
qed

lemma owns_mutex_wake [simp]: "owns_mutex (wake pc) = owns_mutex pc"
  by (cases pc) auto

lemma count_inside_less:
  assumes "i < length rs" "\<not> inside (rs ! i)"
  shows "count_inside rs < length rs"
proof -
  have "rs ! i \<in> set rs" using assms(1) by simp
  then show ?thesis
    using assms(2) length_filter_less [of "rs ! i" rs inside] by (simp add: count_inside_def)
qed

lemma read_locked_spec:
  assumes "read_locked op blocking q = Returns (ps, q')"
  shows "packets q = ps @ packets q' \<and> destroy q' = destroy q \<and> num_readers q' = num_readers q"
  using assms
  by (auto simp: read_locked_def dequeue_locked_def dequeue_all_locked_def
      split: read_op.splits if_splits waits.splits prod.splits)

text \<open>
  Moving one reader. The counter must follow the reader across the border, and the mutex
  must be where the new program counter says.
\<close>

lemma queue_inv_move:
  assumes "queue_inv s" "i < length (readers s)"
    and "readers t = (readers s)[i := pc]" "pushed t = taken t @ packets (queue t)"
    and "destroy (queue t) = destroy (queue s)" "stopper t = Stop_idle \<longleftrightarrow> stopper s = Stop_idle"
    and "unat (num_readers (queue t)) + (if inside (readers s ! i) then 1 else 0) =
      unat (num_readers (queue s)) + (if inside pc then 1 else 0)"
    and "owns_mutex pc \<longleftrightarrow> mutex t = Some i"
    and "\<And>j. j \<noteq> i \<Longrightarrow> mutex t = Some j \<longleftrightarrow> mutex s = Some j"
  shows "queue_inv t"
  using assms count_inside_update [OF assms(2), of pc]
  by (auto simp: queue_inv_def nth_list_update)

lemma queue_inv_no_owner:
  assumes "queue_inv s" "at_reader s i pc" "owns_mutex pc"
  shows "mutex s = Some i"
  using assms by (auto simp: queue_inv_def)

lemma queue_inv_not_owner:
  assumes "queue_inv s" "at_reader s i pc" "\<not> owns_mutex pc"
  shows "mutex s \<noteq> Some i"
  using assms by (auto simp: queue_inv_def)

lemma num_readers_enter:
  assumes "queue_inv s" "at_reader s i pc" "\<not> inside pc"
  shows "unat (num_readers (queue s) + 1) = unat (num_readers (queue s)) + 1"
proof -
  have "unat (num_readers (queue s)) < length (readers s)"
    using assms count_inside_less [of i "readers s"] by (auto simp: queue_inv_def)
  then show ?thesis
    using assms(1) by (subst unat_add_u32) (auto simp: queue_inv_def)
qed

lemma num_readers_leave:
  assumes "queue_inv s" "at_reader s i pc" "inside pc"
  shows "unat (num_readers (queue s) - 1) + 1 = unat (num_readers (queue s))"
proof -
  have "0 < unat (num_readers (queue s))"
    using assms count_inside_update [of i "readers s" Outside] by (auto simp: queue_inv_def)
  then have "1 \<le> num_readers (queue s)" by (simp add: word_le_nat_alt)
  then show ?thesis using \<open>0 < unat _\<close> by (simp add: unat_sub_u32)
qed

lemma queue_step_inv:
  assumes "queue_inv s" "queue_step spurious a s t"
  shows "queue_inv t"
  using assms(2)
proof cases
  case (enter i op blocking)
  show ?thesis
    using enter assms(1) num_readers_enter [OF assms(1), of i Outside]
      queue_inv_not_owner [OF assms(1), of i Outside]
    by (intro queue_inv_move [OF assms(1), of i t "Entered op blocking"])
       (auto simp: IncReaders_def queue_inv_def)
next
  case (lock i op blocking)
  then show ?thesis
    using assms(1)
    by (intro queue_inv_move [OF assms(1), of i t "Locked op blocking"]) (auto simp: queue_inv_def)
next
  case (relock i op)
  then show ?thesis
    using assms(1)
    by (intro queue_inv_move [OF assms(1), of i t "Locked op True"]) (auto simp: queue_inv_def)
next
  case (finish i op blocking ps q')
  then show ?thesis
    using assms(1) read_locked_spec [of op blocking "queue s" ps q']
      queue_inv_no_owner [OF assms(1), of i "Locked op blocking"]
    by (intro queue_inv_move [OF assms(1), of i t Leaving]) (auto simp: queue_inv_def)
next
  case (park i op blocking)
  then show ?thesis
    using assms(1) queue_inv_no_owner [OF assms(1), of i "Locked op blocking"]
    by (intro queue_inv_move [OF assms(1), of i t "Parking op"]) (auto simp: queue_inv_def)
next
  case (sleep i op)
  then show ?thesis
    using assms(1) queue_inv_no_owner [OF assms(1), of i "Parking op"]
    by (intro queue_inv_move [OF assms(1), of i t "Waiting op"]) (auto simp: queue_inv_def)
next
  case (spurious_wakeup i op)
  then show ?thesis
    using assms(1) queue_inv_not_owner [OF assms(1), of i "Waiting op"]
    by (intro queue_inv_move [OF assms(1), of i t "Woken op"]) (auto simp: queue_inv_def)
next
  case (leave i last_reader q')
  then show ?thesis
    using assms(1) num_readers_leave [OF assms(1), of i Leaving]
      queue_inv_not_owner [OF assms(1), of i Leaving]
    by (intro queue_inv_move [OF assms(1), of i t "Decremented last_reader"])
       (auto simp: queue_inv_def DecReaders_def)
next
  case (gone i last_reader)
  then show ?thesis
    using assms(1) queue_inv_not_owner [OF assms(1), of i "Decremented last_reader"]
    by (intro queue_inv_move [OF assms(1), of i t Outside]) (auto simp: queue_inv_def)
next
  case (notify n i op)
  then show ?thesis
    using assms(1) queue_inv_not_owner [OF assms(1), of i "Waiting op"]
    by (intro queue_inv_move [OF assms(1), of i t "Woken op"]) (auto simp: queue_inv_def)
qed (use assms(1) in \<open>auto simp: queue_inv_def Push_def PushAll_small Stop_def\<close>)

interpretation queue_system:
  invariant_system "\<lambda>s. \<exists>n < 4294967296. s = queue_init n" "queue_next spurious" queue_inv
proof
  show "queue_inv s" if "\<exists>n < 4294967296. s = queue_init n" for s
    using that by (auto simp: queue_init_def queue_inv_def PacketQueue_new_def count_inside_def)
  show "queue_inv t" if "queue_inv s" "queue_next spurious s t" for s t
    using that queue_step_inv by (auto simp: queue_next_def)
qed

section \<open>What the threads can rely on\<close>

text \<open>
  C16. However readers, pushing threads and \<^verbatim>\<open>Stop\<close> interleave, with or without spurious
  wake-ups: the packets taken by readers, in the order they were taken, followed by the
  packets still queued, are exactly the packets pushed, in the order they were pushed; the
  reader count is the number of threads between \<^verbatim>\<open>IncReaders\<close> and \<^verbatim>\<open>DecReaders\<close>; and at
  most one reader owns the mutex.
\<close>

theorem queue_is_fifo_under_interleaving:
  assumes "n < 4294967296" "(queue_next spurious)\<^sup>*\<^sup>* (queue_init n) s"
  shows "pushed s = taken s @ packets (queue s) \<and>
    unat (num_readers (queue s)) = length (filter inside (readers s)) \<and>
    length (filter owns_mutex (readers s)) \<le> 1"
proof -
  have inv: "queue_inv s"
    using assms by (intro queue_system.reachable_inv) auto
  have "i = j" if "at_reader s i pc" "at_reader s j pc'" "owns_mutex pc" "owns_mutex pc'" for i j pc pc'
    using inv that by (auto simp: queue_inv_def)
  then have "card {i. i < length (readers s) \<and> owns_mutex (readers s ! i)} \<le> 1"
    using card_le_Suc0_iff_eq [of "{i. i < length (readers s) \<and> owns_mutex (readers s ! i)}"] by auto
  with inv show ?thesis
    by (simp add: queue_inv_def count_inside_def length_filter_conv_card)
qed


text \<open>
  Two schedules of one reader and one stopping thread, as sequences of steps. In the first
  the reader finds nothing to read just before the flag is stored, and falls asleep just
  after the notification.
\<close>

definition parked_reader_sys :: queue_sys where
  "parked_reader_sys = \<lparr>queue = \<lparr>packets = [], destroy = True, num_readers = 1\<rparr>, mutex = None,
     readers = [Waiting Read_all], notifies = 0, stopper = Stop_parked, pushed = [], taken = []\<rparr>"

definition leaving_reader_sys :: queue_sys where
  "leaving_reader_sys = \<lparr>queue = \<lparr>packets = [], destroy = True, num_readers = 0\<rparr>, mutex = None,
     readers = [Decremented True], notifies = 0, stopper = Stop_done, pushed = [], taken = []\<rparr>"

lemmas queue_ops_eval = queue_init_def PacketQueue_new_def IncReaders_def DecReaders_def
  read_locked_def dequeue_all_locked_def Stop_def

lemma queue_next_run:
  "queue_step spurious a s t \<Longrightarrow> (queue_next spurious)\<^sup>*\<^sup>* t u \<Longrightarrow> (queue_next spurious)\<^sup>*\<^sup>* s u"
  by (rule converse_rtranclp_into_rtranclp) (auto simp: queue_next_def)

lemma parked_reader_reachable: "(queue_next False)\<^sup>*\<^sup>* (queue_init 1) parked_reader_sys"
  apply (rule queue_next_run [OF enter [where i = 0 and op = Read_all and blocking = True]], simp add: queue_ops_eval)
  apply (rule queue_next_run [OF lock [where i = 0 and op = Read_all and blocking = True]], simp_all add: queue_ops_eval)
  apply (rule queue_next_run [OF park [where i = 0 and op = Read_all and blocking = True]], simp_all add: queue_ops_eval)
  apply (rule queue_next_run [OF stop_store], simp add: queue_ops_eval)
  apply (rule queue_next_run [OF stop_notify], simp add: queue_ops_eval)
  apply (rule queue_next_run [OF sleep [where i = 0 and op = Read_all]], simp add: queue_ops_eval)
  apply (rule queue_next_run [OF stop_wait], simp_all add: queue_ops_eval)
  apply (simp add: parked_reader_sys_def)
  done

lemma leaving_reader_reachable:
  "(queue_next False)\<^sup>*\<^sup>* (queue_init 1) (leaving_reader_sys\<lparr>stopper := Stop_checking\<rparr>)"
  apply (rule queue_next_run [OF enter [where i = 0 and op = Read_all and blocking = True]], simp add: queue_ops_eval)
  apply (rule queue_next_run [OF stop_store], simp add: queue_ops_eval)
  apply (rule queue_next_run [OF stop_notify], simp add: queue_ops_eval)
  apply (rule queue_next_run [OF lock [where i = 0 and op = Read_all and blocking = True]], simp_all add: queue_ops_eval)
  apply (rule queue_next_run [OF finish [where i = 0 and op = Read_all and blocking = True]], simp_all add: queue_ops_eval)
  apply (rule queue_next_run [OF leave [where i = 0]], simp_all add: queue_ops_eval)
  apply (simp add: leaving_reader_sys_def)
  done

lemma leaving_reader_stop_returns:
  "queue_step spurious Stopper (leaving_reader_sys\<lparr>stopper := Stop_checking\<rparr>) leaving_reader_sys"
  using stop_return [of "leaving_reader_sys\<lparr>stopper := Stop_checking\<rparr>" spurious]
  by (simp add: leaving_reader_sys_def)

lemma parked_reader_stuck: "a \<noteq> Pusher \<Longrightarrow> \<not> queue_step False a parked_reader_sys t"
  by (cases a) (auto elim!: queue_step_readerE queue_step_stopperE queue_step_notifierE
      simp: parked_reader_sys_def)

text \<open>
  C18. \<^verbatim>\<open>Stop\<close> can wait forever. The flag is stored and the condition variable notified
  without holding the mutex, so both can fall between a reader's test of the predicate and
  the moment it is asleep: a reachable state has the flag set, the reader asleep, \<^verbatim>\<open>Stop\<close>
  waiting for the reader, and no step left for anybody but a further push.
\<close>

theorem stop_can_deadlock_with_reader:
  "\<exists>s. (queue_next False)\<^sup>*\<^sup>* (queue_init 1) s \<and> destroy (queue s) \<and> readers s = [Waiting Read_all] \<and>
     stopper s = Stop_parked \<and> \<not> (\<exists>a t. a \<noteq> Pusher \<and> queue_step False a s t)"
  using parked_reader_reachable parked_reader_stuck
  by (intro exI [of _ parked_reader_sys]) (auto simp: parked_reader_sys_def)

text \<open>
  C19. \<^verbatim>\<open>Stop\<close> can return, and the queue be destroyed, while a reader is still inside
  \<^verbatim>\<open>DecReaders\<close>: it has released the counter's mutex and is about to read \<^verbatim>\<open>destroy_\<close>.
\<close>

theorem stop_can_return_before_reader_is_gone:
  "\<exists>s. (queue_next False)\<^sup>*\<^sup>* (queue_init 1) s \<and> stopper s = Stop_done \<and> readers s = [Decremented True]"
  using rtranclp.rtrancl_into_rtrancl [OF leaving_reader_reachable, of leaving_reader_sys]
    leaving_reader_stop_returns [of False]
  by (intro exI [of _ leaving_reader_sys]) (auto simp: leaving_reader_sys_def queue_next_def)

theorem queue_is_fifo_under_interleaving_witness:
  "pushed parked_reader_sys = taken parked_reader_sys @ packets (queue parked_reader_sys) \<and>
   unat (num_readers (queue parked_reader_sys)) = 1"
  using queue_is_fifo_under_interleaving [OF _ parked_reader_reachable] by (simp add: parked_reader_sys_def)


end
