(* ===== verification/Tcp_Congestion.thy ===== *)
theory Tcp_Congestion
  imports Tcp_Controller
begin

text \<open>
  What the congestion control and the round trip estimator of \<^verbatim>\<open>TcpController.cc\<close> do. The
  calls to both are commented out in \<^verbatim>\<open>HandleACK\<close>; the functions are as the code has them.
\<close>

section \<open>Congestion control\<close>

definition ack_new :: AckResult where
  "ack_new = \<lparr>ack_refreshed = True, dup_ack = False, re_transmit = False, rtt = None\<rparr>"

definition ack_dup :: AckResult where
  "ack_dup = \<lparr>ack_refreshed = False, dup_ack = True, re_transmit = False, rtt = None\<rparr>"

definition ack_lost :: AckResult where
  "ack_lost = \<lparr>ack_refreshed = False, dup_ack = True, re_transmit = True, rtt = None\<rparr>"

lemmas ack_kinds = ack_new_def ack_dup_def ack_lost_def

lemmas cc_defs = UpdateCongestionControl_def cc_fast_recovery_def cc_enter_recovery_def
  kDefaultDataPacketSize_def kInitialSSThresh_def

text \<open>A sequence of acknowledgements, one call each.\<close>

fun cc_run :: "'b TcpController \<Rightarrow> AckResult list \<Rightarrow> 'b TcpController checked" where
  "cc_run c [] = Inr c"
| "cc_run c (a # as) = bindR (UpdateCongestionControl c a) (\<lambda>c'. cc_run c' as)"

lemma cc_run_append: "cc_run c (as @ bs) = bindR (cc_run c as) (\<lambda>c'. cc_run c' bs)"
  by (induction as arbitrary: c) (simp_all add: bindR_assoc)

text \<open>
  The window, the threshold and the phase are all the function looks at: on them it is a
  small machine of its own.
\<close>

definition cc_view :: "'b TcpController \<Rightarrow> CongestionControlState \<times> nat \<times> nat" where
  "cc_view c = (cc_state c, unat (cwnd c), unat (ssthresh c))"

lemma slow_start_step:
  assumes "cc_state c = SLOW_START" "unat (cwnd c) + 10 < 4294967296"
  shows "\<exists>c'. UpdateCongestionControl c ack_new = Inr c' \<and> unat (cwnd c') = unat (cwnd c) + 10 \<and>
    ssthresh c' = ssthresh c \<and>
    cc_state c' = (if unat (ssthresh c) \<le> unat (cwnd c) + 10 then CONGESTION_AVOIDANCE else SLOW_START)"
proof -
  have "unat (cwnd c + 10) = unat (cwnd c) + 10"
    using assms(2) by (subst unat_add_u32) simp_all
  with assms(1) show ?thesis
    by (simp add: cc_defs ack_kinds Let_def word_le_nat_alt)
qed

text \<open>
  In slow start each new acknowledgement adds one segment to the congestion window, and the
  phase ends exactly with the one that brings the window to the threshold: after \<open>k\<close> of
  them, the window below the threshold before each, it is larger by \<open>10 k\<close>.
\<close>

lemma slow_start_run:
  assumes "cc_state c = SLOW_START" "unat (cwnd c) + 10 * k < unat (ssthresh c) + 10"
    and "unat (cwnd c) < unat (ssthresh c)" "unat (ssthresh c) + 10 < 4294967296"
  shows "\<exists>c'. cc_run c (replicate k ack_new) = Inr c' \<and> unat (cwnd c') = unat (cwnd c) + 10 * k \<and>
    ssthresh c' = ssthresh c \<and>
    cc_state c' = (if unat (ssthresh c) \<le> unat (cwnd c) + 10 * k then CONGESTION_AVOIDANCE else SLOW_START)"
  using assms
proof (induction k arbitrary: c)
  case (Suc k)
  obtain c1 where c1: "UpdateCongestionControl c ack_new = Inr c1" "unat (cwnd c1) = unat (cwnd c) + 10"
      "ssthresh c1 = ssthresh c"
      "cc_state c1 = (if unat (ssthresh c) \<le> unat (cwnd c) + 10 then CONGESTION_AVOIDANCE else SLOW_START)"
    using slow_start_step [of c] Suc.prems by auto
  show ?case
  proof (cases k)
    case 0
    then show ?thesis using c1 by simp
  next
    case (Suc j)
    then have "unat (cwnd c1) < unat (ssthresh c1)" using Suc.prems c1 by simp
    then show ?thesis using Suc.IH [of c1] Suc.prems c1 by auto
  qed
qed simp

lemmas fresh_controller = TcpController_new_def GetDefaultOptions_def
  kDefaultDataPacketSize_def kInitialSSThresh_def

text \<open>
  Congestion avoidance does not avoid congestion additively: because its case falls
  through into that of fast recovery, a new acknowledgement sets the window to the
  threshold, whatever it was, instead of adding to it; and a loss leaves it one segment
  larger than the threshold plus two segments that the code computes first.
\<close>

lemma congestion_avoidance_falls_through:
  assumes "cc_state c = CONGESTION_AVOIDANCE" "cwnd c \<noteq> 0"
  shows "UpdateCongestionControl c ack_new = Inr (c\<lparr>cwnd := ssthresh c\<rparr>) \<and>
    UpdateCongestionControl c ack_lost =
      Inr (c\<lparr>ssthresh := cwnd c div 2, cwnd := cwnd c div 2 + 30, cc_state := FAST_RECOVERY\<rparr>)"
  using assms by (simp add: cc_defs ack_kinds Let_def)


section \<open>The round trip estimator\<close>

text \<open>
  As long as the values are exactly representable, rounding changes nothing; the estimate
  is then a weighted mean, truncated.
\<close>

lemma trunc_int64_bounds:
  assumes "of_int lo \<le> r" "r \<le> of_int hi"
  shows "lo \<le> trunc_int64 r" "trunc_int64 r \<le> hi"
  using assms by (auto simp: trunc_int64_def le_floor_iff ceiling_le_iff)
    (meson floor_le_iff ceiling_le_iff le_floor_iff le_of_int_ceiling of_int_floor_le of_int_le_iff order_trans)+

text \<open>
  What IEEE doubles guarantee here: an integer number of eighths below \<open>2^53\<close> of them is
  represented exactly.
\<close>

definition exact_eighths :: "(rat \<Rightarrow> rat) \<Rightarrow> bool" where
  "exact_eighths rnd \<longleftrightarrow> (\<forall>n. \<bar>n\<bar> \<le> 9007199254740992 \<longrightarrow> rnd (of_int n / 8) = of_int n / 8)"

lemma exact_eighthsD:
  "exact_eighths rnd \<Longrightarrow> x = of_int n / 8 \<Longrightarrow> \<bar>n\<bar> \<le> 9007199254740992 \<Longrightarrow> rnd x = x"
  unfolding exact_eighths_def by blast

lemma smooth_exact:
  assumes rnd: "exact_eighths rnd" and f: "factor = of_int f / 8" "0 \<le> f" "f \<le> 8"
    and old: "0 \<le> old" "old < 562949953421312" and new: "0 \<le> new" "new < 562949953421312"
  shows "smooth rnd factor old new = trunc_int64 (of_int ((8 - f) * old + f * new) / 8)"
proof -
  have "(8 - f) * old \<le> 8 * old" "f * new \<le> 8 * new"
    using f old new by (auto intro: mult_right_mono)
  moreover have "0 \<le> (8 - f) * old" "0 \<le> f * new" using f old new by auto
  ultimately have bounds: "\<bar>(8 - f) * old\<bar> \<le> 9007199254740992" "\<bar>f * new\<bar> \<le> 9007199254740992"
      "\<bar>(8 - f) * old + f * new\<bar> \<le> 9007199254740992"
    using old new by auto
  have "rnd (of_int old) = of_int old"
    using old by (intro exact_eighthsD [OF rnd, of _ "8 * old"]) auto
  moreover have "rnd (of_int new) = of_int new"
    using new by (intro exact_eighthsD [OF rnd, of _ "8 * new"]) auto
  moreover have "rnd (1 - factor) = 1 - factor"
    using f by (intro exact_eighthsD [OF rnd, of _ "8 - f"]) (auto simp: field_simps)
  moreover have "rnd (of_int old * (1 - factor)) = of_int old * (1 - factor)"
    using f bounds by (intro exact_eighthsD [OF rnd, of _ "(8 - f) * old"]) (auto simp: field_simps)
  moreover have "rnd (of_int new * factor) = of_int new * factor"
    using f bounds by (intro exact_eighthsD [OF rnd, of _ "f * new"]) (auto simp: field_simps)
  moreover have sum: "of_int old * (1 - factor) + of_int new * factor =
      of_int ((8 - f) * old + f * new) / (8 :: rat)"
    unfolding f(1) by (simp add: field_simps)
  moreover have "rnd (of_int ((8 - f) * old + f * new) / 8) = of_int ((8 - f) * old + f * new) / 8"
    using bounds by (intro exact_eighthsD [OF rnd, of _ "(8 - f) * old + f * new"]) auto
  ultimately show ?thesis by (simp only: smooth_def)
qed

lemma smooth_between:
  assumes "exact_eighths rnd" "factor = of_int f / 8" "0 \<le> f" "f \<le> 8"
    and "0 \<le> lo" "lo \<le> old" "old \<le> hi" "lo \<le> new" "new \<le> hi" "hi < 562949953421312"
  shows "lo \<le> smooth rnd factor old new" "smooth rnd factor old new \<le> hi"
proof -
  let ?n = "(8 - f) * old + f * new"
  have "(8 - f) * lo \<le> (8 - f) * old" "f * lo \<le> f * new" "(8 - f) * old \<le> (8 - f) * hi" "f * new \<le> f * hi"
    using assms by (auto intro: mult_left_mono)
  then have "8 * lo \<le> ?n" "?n \<le> 8 * hi"
    by (auto simp: algebra_simps)
  then have "of_int (8 * lo) \<le> (of_int ?n :: rat)" "(of_int ?n :: rat) \<le> of_int (8 * hi)"
    by (simp_all only: of_int_le_iff)
  then have "of_int lo \<le> of_int ?n / (8 :: rat)" "of_int ?n / (8 :: rat) \<le> of_int hi"
    by simp_all
  from trunc_int64_bounds [OF this] assms
  show "lo \<le> smooth rnd factor old new" "smooth rnd factor old new \<le> hi"
    by (simp_all add: smooth_exact [OF assms(1-4)])
qed



end
