(* ===== verification/Recv_Nodes.thy ===== *)
theory Recv_Nodes
  imports Recv_Window
begin

text \<open>
  The receive window as \<^verbatim>\<open>RecvWindow.cc\<close> has it: a doubly linked list of nodes behind a dummy
  head, changed through its \<^verbatim>\<open>prev\<close> and \<^verbatim>\<open>next\<close> pointers. It refines the list of packets of
  \<open>Recv_Window\<close>: the loops end, every pointer written is the right one, and results and
  failed checks are the same.
\<close>

section \<open>Nodes\<close>

type_synonym addr = nat

record RecvWindowNode =
  rn_pkt :: "Packet option"
  rn_prev :: "addr option"
  rn_next :: "addr option"

text \<open>A new node goes to the end of the store, so that its address is new.\<close>

type_synonym store = "RecvWindowNode list"

definition RecvWindowNode_new :: RecvWindowNode where
  "RecvWindowNode_new = \<lparr>rn_pkt = None, rn_prev = None, rn_next = None\<rparr>"

record LinkedWindow =
  lw_recv_base :: uint32
  lw_capacity :: uint32
  lw_head :: addr
  lw_store :: store

definition LinkedWindow_new :: "uint32 \<Rightarrow> uint32 \<Rightarrow> LinkedWindow" where
  "LinkedWindow_new base cap =
     \<lparr>lw_recv_base = base, lw_capacity = cap, lw_head = 0, lw_store = [RecvWindowNode_new]\<rparr>"

definition node_at :: "store \<Rightarrow> addr \<Rightarrow> RecvWindowNode checked" where
  "node_at h a = (if a < length h then Inr (h ! a) else Inl (Dangling_pointer ''node''))"

definition next_at :: "store \<Rightarrow> addr \<Rightarrow> addr option checked" where
  "next_at h a = bindR (node_at h a) (\<lambda>n. Inr (rn_next n))"

definition pkt_at :: "store \<Rightarrow> addr \<Rightarrow> Packet checked" where
  "pkt_at h a = bindR (node_at h a) (\<lambda>n.
     case rn_pkt n of None \<Rightarrow> Inl (Null_pointer ''pkt'') | Some p \<Rightarrow> Inr p)"

definition upd :: "addr \<Rightarrow> (RecvWindowNode \<Rightarrow> RecvWindowNode) \<Rightarrow> store \<Rightarrow> store" where
  "upd a f h = h[a := f (h ! a)]"

abbreviation set_next :: "addr \<Rightarrow> addr option \<Rightarrow> store \<Rightarrow> store" where
  "set_next a v \<equiv> upd a (\<lambda>n. n\<lparr>rn_next := v\<rparr>)"

abbreviation set_prev :: "addr \<Rightarrow> addr option \<Rightarrow> store \<Rightarrow> store" where
  "set_prev a v \<equiv> upd a (\<lambda>n. n\<lparr>rn_prev := v\<rparr>)"

section \<open>Receiving a packet\<close>

text \<open>The loop that looks for the place of insertion; \<open>None\<close> if it never ends.\<close>

partial_function (option) insert_walk :: "store \<Rightarrow> uint32 \<Rightarrow> addr \<Rightarrow> addr checked option" where
  "insert_walk h s node =
     (case next_at h node of
        Inl e \<Rightarrow> Some (Inl e)
      | Inr None \<Rightarrow> Some (Inr node)
      | Inr (Some b) \<Rightarrow>
          (case pkt_at h b of
             Inl e \<Rightarrow> Some (Inl e)
           | Inr q \<Rightarrow>
               if s > pkt_seq q then
                 if s \<ge> pkt_seq q + payload_size q then insert_walk h s b
                 else Some (Inl (Sanity_check ''Packet size ranges overlap''))
               else Some (Inr node)))"

text \<open>The loop that follows the packets that each start where the one before ends.\<close>

partial_function (option) run_walk :: "store \<Rightarrow> addr \<Rightarrow> addr checked option" where
  "run_walk h node =
     (case next_at h node of
        Inl e \<Rightarrow> Some (Inl e)
      | Inr None \<Rightarrow> Some (Inr node)
      | Inr (Some b) \<Rightarrow>
          (case pkt_at h node of
             Inl e \<Rightarrow> Some (Inl e)
           | Inr p \<Rightarrow>
               (case pkt_at h b of
                  Inl e \<Rightarrow> Some (Inl e)
                | Inr q \<Rightarrow> if pkt_seq p + payload_size p = pkt_seq q then run_walk h b else Some (Inr node))))"

definition link_node :: "store \<Rightarrow> addr \<Rightarrow> addr \<Rightarrow> Packet \<Rightarrow> store checked" where
  "link_node h a node p =
     bindR (next_at h node) (\<lambda>nx.
     let h1 = set_next a nx h
     in bindR (case nx of
           None \<Rightarrow> Inr h1
         | Some b \<Rightarrow>
             let h2 = set_prev b (Some a) h1
             in bindR (pkt_at h2 b) (\<lambda>q.
                bindR (guardR (pkt_seq p + payload_size p \<le> pkt_seq q)
                         (Sanity_check ''Packet size ranges overlap'')) (\<lambda>_. Inr h2))) (\<lambda>h2.
       Inr (set_next node (Some a) (set_prev a (Some node) h2))))"

definition cut_run :: "store \<Rightarrow> addr \<Rightarrow> addr \<Rightarrow> addr \<Rightarrow> store checked" where
  "cut_run h hd_addr a node =
     bindR (next_at h node) (\<lambda>nx.
     let h1 = set_next hd_addr nx h;
         h2 = (case nx of None \<Rightarrow> h1 | Some b \<Rightarrow> set_prev b (Some hd_addr) h1)
     in Inr (set_next node None (set_prev a None h2)))"

definition bindO :: "'a checked option \<Rightarrow> ('a \<Rightarrow> 'b checked option) \<Rightarrow> 'b checked option" where
  "bindO m f = (case m of None \<Rightarrow> None | Some (Inl e) \<Rightarrow> Some (Inl e) | Some (Inr x) \<Rightarrow> f x)"

definition Linked_ReceivePacket ::
  "LinkedWindow \<Rightarrow> Packet \<Rightarrow> (uint32 \<times> addr option \<times> LinkedWindow) checked option" where
  "Linked_ReceivePacket w p =
     (if pkt_seq p < lw_recv_base w then Some (Inr (lw_recv_base w, None, w))
      else
        let a = length (lw_store w);
            h0 = lw_store w @ [RecvWindowNode_new\<lparr>rn_pkt := Some p\<rparr>]
        in bindO (insert_walk h0 (pkt_seq p) (lw_head w)) (\<lambda>node.
           bindO (Some (link_node h0 a node p)) (\<lambda>h1.
           if pkt_seq p = lw_recv_base w then
             bindO (Some (bindR (next_at h1 (lw_head w)) (\<lambda>nx. guardR (nx = Some a)
                 (Sanity_check ''new node is in-order, must have been inserted to queue head'')))) (\<lambda>_.
             bindO (run_walk h1 a) (\<lambda>last_node.
             bindO (Some (cut_run h1 (lw_head w) a last_node)) (\<lambda>h2.
             bindO (Some (pkt_at h2 last_node)) (\<lambda>q.
               let base = pkt_seq q + payload_size q
               in Some (Inr (base, Some a, w\<lparr>lw_recv_base := base, lw_store := h2\<rparr>))))))
           else Some (Inr (lw_recv_base w, None, w\<lparr>lw_store := h1\<rparr>)))))"

text \<open>The packets of the nodes that were returned, read the way the controller walks them.\<close>

partial_function (option) node_packets :: "store \<Rightarrow> addr option \<Rightarrow> Packet list checked option" where
  "node_packets h r =
     (case r of
        None \<Rightarrow> Some (Inr [])
      | Some a \<Rightarrow>
          (case pkt_at h a of
             Inl e \<Rightarrow> Some (Inl e)
           | Inr p \<Rightarrow>
               (case next_at h a of
                  Inl e \<Rightarrow> Some (Inl e)
                | Inr nx \<Rightarrow> Option.bind (node_packets h nx) (\<lambda>rest. Some (bindR rest (\<lambda>ps. Inr (p # ps)))))))"

section \<open>Doubly linked lists\<close>

text \<open>Behind the node \<open>p\<close> come the nodes \<open>as\<close>, linked in both directions, and then \<open>n\<close>.\<close>

fun dll :: "store \<Rightarrow> addr \<Rightarrow> addr list \<Rightarrow> addr option \<Rightarrow> bool" where
  "dll h p [] n = (p < length h \<and> rn_next (h ! p) = n)"
| "dll h p (a # as) n =
     (p < length h \<and> rn_next (h ! p) = Some a \<and> rn_prev (h ! a) = Some p \<and> dll h a as n)"

lemma length_upd [simp]: "length (upd a f h) = length h"
  by (simp add: upd_def)

lemma nth_upd: "upd a f h ! b = (if a = b \<and> a < length h then f (h ! a) else h ! b)"
  by (cases "a < length h") (auto simp: upd_def list_update_beyond)

lemma dll_append:
  "dll h p (as @ b # bs) n \<longleftrightarrow> dll h p as (Some b) \<and> rn_prev (h ! b) = Some (last (p # as)) \<and> dll h b bs n"
  by (induction as arbitrary: p) auto

lemma dll_bound: "dll h p as n \<Longrightarrow> x \<in> set (p # as) \<Longrightarrow> x < length h"
  by (induction as arbitrary: p) auto

lemma dll_frame:
  assumes "dll h p as n" "length h \<le> length h'"
    and "\<And>x. x \<in> set (p # as) \<Longrightarrow> rn_next (h' ! x) = rn_next (h ! x)"
    and "\<And>x. x \<in> set as \<Longrightarrow> rn_prev (h' ! x) = rn_prev (h ! x)"
  shows "dll h' p as n"
  using assms by (induction as arbitrary: p) auto

text \<open>Only the last \<open>next\<close> pointer of a segment changes.\<close>

lemma dll_relast:
  assumes "dll h p as n" "length h \<le> length h'" "distinct (p # as)"
    and "\<And>x. x \<in> set (p # as) \<Longrightarrow> x \<noteq> last (p # as) \<Longrightarrow> rn_next (h' ! x) = rn_next (h ! x)"
    and "\<And>x. x \<in> set as \<Longrightarrow> rn_prev (h' ! x) = rn_prev (h ! x)" "rn_next (h' ! last (p # as)) = m"
  shows "dll h' p as m"
  using assms
proof (induction as arbitrary: p)
  case (Cons a as)
  have "p \<noteq> last (a # as)" using Cons.prems(3) by (auto dest: sym)
  then show ?case using Cons by auto
qed simp

section \<open>The loops\<close>

definition stored :: "store \<Rightarrow> addr list \<Rightarrow> Packet list \<Rightarrow> bool" where
  "stored h as ps \<longleftrightarrow> map (\<lambda>a. rn_pkt (h ! a)) as = map Some ps"

lemma stored_simps [simp]:
  "stored h [] ps \<longleftrightarrow> ps = []" "stored h as [] \<longleftrightarrow> as = []"
  "stored h (a # as) (p # ps) \<longleftrightarrow> rn_pkt (h ! a) = Some p \<and> stored h as ps"
  by (auto simp: stored_def)

lemma stored_length: "stored h as ps \<Longrightarrow> length as = length ps"
  unfolding stored_def by (metis length_map)

lemma stored_append:
  "stored h (as @ bs) ps \<longleftrightarrow> (\<exists>qs rs. ps = qs @ rs \<and> stored h as qs \<and> stored h bs rs)"
proof
  assume l: "stored h (as @ bs) ps"
  have "stored h as (take (length as) ps) \<and> stored h bs (drop (length as) ps)"
    using l stored_length [OF l] unfolding stored_def
    by (metis append_eq_conv_conj drop_map map_append take_map length_map)
  then show "\<exists>qs rs. ps = qs @ rs \<and> stored h as qs \<and> stored h bs rs"
    using append_take_drop_id by metis
qed (auto simp: stored_def)

lemma stored_frame:
  assumes "stored h as ps" "\<And>x. x \<in> set as \<Longrightarrow> rn_pkt (h' ! x) = rn_pkt (h ! x)"
  shows "stored h' as ps"
proof -
  have "map (\<lambda>a. rn_pkt (h' ! a)) as = map (\<lambda>a. rn_pkt (h ! a)) as" using assms(2) by simp
  then show ?thesis using assms(1) by (simp only: stored_def)
qed

lemma node_reads:
  assumes "a < length h"
  shows "next_at h a = Inr (rn_next (h ! a))"
    and "rn_pkt (h ! a) = Some p \<Longrightarrow> pkt_at h a = Inr p"
  using assms by (simp_all add: next_at_def pkt_at_def node_at_def)

lemma insert_walk_list:
  assumes "dll h p as None" "stored h as ns"
  shows "insert_walk h s p = Some (case insert_scan s ns of
    Inl e \<Rightarrow> Inl e | Inr (before, after) \<Rightarrow> Inr (last (p # take (length before) as)))"
  using assms
proof (induction s ns arbitrary: p as rule: insert_scan.induct)
  case (1 s)
  then show ?case by (simp add: insert_walk.simps [of h s p] node_reads)
next
  case (2 s n ns)
  then obtain a bs where as: "as = a # bs" by (cases as) auto
  have d: "p < length h" "rn_next (h ! p) = Some a" "dll h a bs None" "rn_pkt (h ! a) = Some n" "stored h bs ns"
    using "2.prems" by (auto simp: as)
  then have "a < length h" by (auto dest: dll_bound)
  then have walk: "insert_walk h s p = (if s > pkt_seq n then
      if s \<ge> pkt_seq n + payload_size n then insert_walk h s a
      else Some (Inl (Sanity_check ''Packet size ranges overlap'')) else Some (Inr p))"
    using d(1,2,4) by (simp add: insert_walk.simps [of h s p] node_reads)
  show ?case
  proof (cases "s > pkt_seq n \<and> s \<ge> pkt_seq n + payload_size n")
    case True
    then have "insert_walk h s a = Some (case insert_scan s ns of
        Inl e \<Rightarrow> Inl e | Inr (before, after) \<Rightarrow> Inr (last (a # take (length before) bs)))"
      using "2.IH" d(3,5) by blast
    then show ?thesis using True walk by (auto simp: as bindR_def split: sum.splits)
  qed (auto simp: walk)
qed

lemma run_walk_list:
  assumes "dll h a as None" "rn_pkt (h ! a) = Some p" "stored h as ns" "in_order_run p ns = (run, rest)"
  shows "run_walk h a = Some (Inr (last (a # take (length run - 1) as)))"
  using assms
proof (induction p ns arbitrary: a as run rest rule: in_order_run.induct)
  case (1 p)
  then show ?case by (simp add: run_walk.simps [of h a] node_reads)
next
  case (2 n m ms)
  then obtain b bs where as: "as = b # bs" by (cases as) auto
  have d: "a < length h" "rn_next (h ! a) = Some b" "dll h b bs None" "rn_pkt (h ! b) = Some m" "stored h bs ms"
    using "2.prems" by (auto simp: as)
  then have "b < length h" by (auto dest: dll_bound)
  then have walk: "run_walk h a = (if pkt_seq n + payload_size n = pkt_seq m then run_walk h b else Some (Inr a))"
    using d "2.prems"(2) by (simp add: run_walk.simps [of h a] node_reads)
  show ?case
  proof (cases "pkt_seq n + payload_size n = pkt_seq m")
    case True
    obtain run' rest' where r: "in_order_run m ms = (run', rest')" by fastforce
    then have "run_walk h b = Some (Inr (last (b # take (length run' - 1) bs)))"
      using "2.IH" True d by blast
    moreover have "run = n # run'" using "2.prems"(4) True r by simp
    moreover have "run' \<noteq> []" using in_order_run_split [OF r] by auto
    ultimately show ?thesis using walk True by (cases run') (auto simp: as)
  next
    case False
    then show ?thesis using walk "2.prems"(4) by auto
  qed
qed

lemma node_packets_dll:
  assumes "dll h a as None" "stored h (a # as) ps"
  shows "node_packets h (Some a) = Some (Inr ps)"
  using assms
proof (induction as arbitrary: a ps)
  case Nil
  then obtain p where "ps = [p]" "rn_pkt (h ! a) = Some p" by (cases ps) auto
  with Nil show ?case by (simp add: node_packets.simps [of h "Some a"] node_packets.simps [of h None] node_reads)
next
  case (Cons b as)
  then obtain p qs where "ps = p # qs" "rn_pkt (h ! a) = Some p" "stored h (b # as) qs" by (cases ps) auto
  with Cons show ?case by (simp add: node_packets.simps [of h "Some a"] node_reads)
qed

section \<open>Changing the links\<close>

lemma dll_last: "dll h p as n \<Longrightarrow> rn_next (h ! last (p # as)) = n"
  by (induction as arbitrary: p) auto

definition same_pkts :: "store \<Rightarrow> store \<Rightarrow> bool" where
  "same_pkts h h' \<longleftrightarrow> length h' = length h \<and> (\<forall>x. rn_pkt (h' ! x) = rn_pkt (h ! x))"

lemma same_pkts_upd [simp]:
  "same_pkts h (set_next a v h') \<longleftrightarrow> same_pkts h h'" "same_pkts h (set_prev a v h') \<longleftrightarrow> same_pkts h h'"
  "same_pkts h h"
  by (auto simp: same_pkts_def nth_upd)

lemma link_node_list:
  fixes pk :: Packet
  assumes d: "dll h p (as @ bs) None" and dist: "distinct (p # as @ bs)"
    and a: "a < length h" "a \<notin> set (p # as @ bs)" and st: "stored h bs qs"
  defines "fits \<equiv> qs = [] \<or> pkt_seq pk + payload_size pk \<le> pkt_seq (hd qs)"
  shows "\<not> fits \<Longrightarrow> link_node h a (last (p # as)) pk = Inl (Sanity_check ''Packet size ranges overlap'')"
    and "fits \<Longrightarrow> \<exists>h'. link_node h a (last (p # as)) pk = Inr h' \<and> same_pkts h h' \<and> dll h' p (as @ a # bs) None"
proof -
  let ?node = "last (p # as)" and ?nx = "if bs = [] then None else Some (hd bs)"
  have first: "dll h p as ?nx" using d by (cases bs) (auto simp: dll_append)
  have node: "?node < length h" "rn_next (h ! ?node) = ?nx" "?node \<in> set (p # as)"
    using dll_bound [OF first, of ?node] dll_last [OF first] last_in_set [of "p # as"] by auto
  let ?h1 = "set_next a ?nx h"
  let ?h2 = "if bs = [] then ?h1 else set_prev (hd bs) (Some a) ?h1"
  let ?h' = "set_next ?node (Some a) (set_prev a (Some ?node) ?h2)"
  have pk: "qs = [] \<longleftrightarrow> bs = []" "bs \<noteq> [] \<Longrightarrow> pkt_at ?h2 (hd bs) = Inr (hd qs)"
  proof -
    show "qs = [] \<longleftrightarrow> bs = []" using stored_length [OF st] by auto
    assume "bs \<noteq> []"
    then obtain b cs where b: "bs = b # cs" by (cases bs) auto
    then have "b < length h" using dll_bound [OF d] by auto
    with b st show "pkt_at ?h2 (hd bs) = Inr (hd qs)"
      by (cases qs) (auto simp: node_reads nth_upd)
  qed
  have run: "link_node h a ?node pk = (if fits then Inr ?h' else Inl (Sanity_check ''Packet size ranges overlap''))"
    using node(1,2) pk by (cases bs) (auto simp: link_node_def node_reads Let_def fits_def)
  then show "\<not> fits \<Longrightarrow> link_node h a ?node pk = Inl (Sanity_check ''Packet size ranges overlap'')" by simp
  have ne: "?node \<noteq> a" "?node \<notin> set bs" using node(3) a(2) dist by auto
  have "dll ?h' p as (Some a)"
    using first by (rule dll_relast) (use dist a node ne in \<open>auto simp: nth_upd\<close>)
  moreover have "rn_prev (?h' ! a) = Some ?node" using a(1) ne by (simp add: nth_upd)
  moreover have "dll ?h' a bs None"
  proof (cases bs)
    case Nil
    then show ?thesis using a(1) ne by (simp add: nth_upd)
  next
    case (Cons b cs)
    have tail: "dll h b cs None" using d by (simp add: Cons dll_append)
    have "dll ?h' b cs None"
      using tail by (rule dll_frame) (use dist a ne in \<open>auto simp: Cons nth_upd\<close>)
    then show ?thesis using a ne dll_bound [OF tail, of b] by (simp add: Cons nth_upd)
  qed
  ultimately have "dll ?h' p (as @ a # bs) None" by (simp only: dll_append simp_thms)
  moreover have "same_pkts h ?h'" by simp
  ultimately show "fits \<Longrightarrow> \<exists>h'. link_node h a ?node pk = Inr h' \<and> same_pkts h h' \<and> dll h' p (as @ a # bs) None"
    using run by auto
qed

lemma cut_run_list:
  assumes d: "dll h p (a # as @ bs) None" and dist: "distinct (p # a # as @ bs)"
  shows "\<exists>h'. cut_run h p a (last (a # as)) = Inr h' \<and> same_pkts h h' \<and> dll h' p bs None \<and>
    dll h' a as None \<and> rn_prev (h' ! a) = None"
proof -
  let ?node = "last (a # as)" and ?nx = "if bs = [] then None else Some (hd bs)"
  have first: "dll h a as ?nx" using d by (cases bs) (auto simp: dll_append)
  have node: "?node < length h" "rn_next (h ! ?node) = ?nx" "?node \<in> set (a # as)"
    using dll_bound [OF first, of ?node] dll_last [OF first] last_in_set [of "a # as"] by auto
  have a: "a < length h" "p < length h" using dll_bound [OF d] by auto
  let ?h1 = "set_next p ?nx h"
  let ?h2 = "if bs = [] then ?h1 else set_prev (hd bs) (Some p) ?h1"
  let ?h' = "set_next ?node None (set_prev a None ?h2)"
  have run: "cut_run h p a ?node = Inr ?h'"
    using node(1,2) by (cases bs) (simp_all add: cut_run_def node_reads Let_def)
  have ne: "?node \<noteq> p" "?node \<notin> set bs" using node(3) dist by auto
  have "dll ?h' a as None"
    using first by (rule dll_relast) (use dist node ne in \<open>auto simp: nth_upd\<close>)
  moreover have "dll ?h' p bs None"
  proof (cases bs)
    case Nil
    then show ?thesis using a ne dist by (simp add: nth_upd)
  next
    case (Cons b cs)
    have tail: "dll h b cs None" using d dll_append [of h p "a # as" b cs None] by (simp add: Cons)
    have "dll ?h' b cs None"
      using tail by (rule dll_frame) (use dist ne in \<open>auto simp: Cons nth_upd\<close>)
    then show ?thesis using a ne dist dll_bound [OF tail, of b] by (simp add: Cons nth_upd)
  qed
  moreover have "rn_prev (?h' ! a) = None" using a dist by (auto simp: nth_upd)
  ultimately show ?thesis using run by (intro exI [of _ ?h']) simp
qed

section \<open>Refinement\<close>

definition represents :: "LinkedWindow \<Rightarrow> RecvWindow \<Rightarrow> bool" where
  "represents w l \<longleftrightarrow> lw_recv_base w = recv_base l \<and> lw_capacity w = rw_capacity l \<and>
     (\<exists>as. distinct (lw_head w # as) \<and> dll (lw_store w) (lw_head w) as None \<and> stored (lw_store w) as (rw_nodes l))"

lemma representsI:
  assumes "lw_recv_base w = recv_base l" "lw_capacity w = rw_capacity l" "distinct (lw_head w # as)"
    and "dll (lw_store w) (lw_head w) as None" "stored (lw_store w) as (rw_nodes l)"
  shows "represents w l"
  unfolding represents_def using assms by blast

lemma represents_new: "represents (LinkedWindow_new b cap) (RecvWindow_new b cap)"
  by (rule representsI [where as = "[]"])
     (simp_all add: LinkedWindow_new_def RecvWindow_new_def RecvWindowNode_new_def)

lemma bindO_simps [simp]:
  "bindO (Some (Inl e)) f = Some (Inl e)" "bindO (Some (Inr x)) f = f x"
  by (simp_all add: bindO_def)

lemma insert_scan_append: "insert_scan s ns = Inr (bef, aft) \<Longrightarrow> ns = bef @ aft"
  by (induction s ns arbitrary: bef rule: insert_scan.induct) (auto simp: bindR_Inr_iff split: if_splits)

lemma stored_same: "stored h as ps \<Longrightarrow> same_pkts h h' \<Longrightarrow> stored h' as ps"
  by (auto simp: same_pkts_def intro: stored_frame)

text \<open>The nodes handed to the controller: a list of their own, linked in both directions.\<close>

definition delivered_nodes :: "store \<Rightarrow> addr option \<Rightarrow> Packet list \<Rightarrow> bool" where
  "delivered_nodes h r run \<longleftrightarrow> (case r of None \<Rightarrow> run = []
     | Some a \<Rightarrow> \<exists>as. dll h a as None \<and> rn_prev (h ! a) = None \<and> stored h (a # as) run)"

lemma delivered_nodes_packets: "delivered_nodes h r run \<Longrightarrow> node_packets h r = Some (Inr run)"
  by (cases r) (auto simp: delivered_nodes_def node_packets_dll node_packets.simps [of h None])

text \<open>
  The run that is delivered: the loop finds its last node, the links are cut, and the
  nodes of the run make a list of their own.
\<close>

lemma deliver_run:
  assumes d: "dll h p (a # bs) None" and dist: "distinct (p # a # bs)"
    and st: "rn_pkt (h ! a) = Some pk" "stored h bs after" and run: "in_order_run pk after = (run, rest)"
  obtains node h' cs where "run_walk h a = Some (Inr node)" "cut_run h p a node = Inr h'"
    "pkt_at h' node = Inr (last run)" "delivered_nodes h' (Some a) run"
    "dll h' p cs None" "distinct (p # cs)" "stored h' cs rest"
proof -
  define as where "as = take (length run - 1) bs"
  define cs where "cs = drop (length run - 1) bs"
  let ?node = "last (a # as)"
  have bs: "bs = as @ cs" by (simp add: as_def cs_def)
  obtain ps where ps: "run = pk # ps" "after = ps @ rest" using in_order_run_split [OF run] by (cases run) auto
  have st': "stored h as ps" "stored h cs rest"
    using st(2) stored_length [OF st(2)] unfolding stored_def as_def cs_def
    by (simp_all add: ps flip: take_map drop_map)
  have walk: "run_walk h a = Some (Inr ?node)"
    using run_walk_list [OF _ st run] d by (simp add: as_def)
  obtain h' where h': "cut_run h p a ?node = Inr h'" "same_pkts h h'" "dll h' p cs None" "dll h' a as None" "rn_prev (h' ! a) = None"
    using cut_run_list [of h p a as cs] d dist unfolding bs by blast
  have all: "stored h' (a # as) run" using stored_same [OF _ h'(2), of "a # as" run] st(1) st'(1) by (simp add: ps)
  have "length (a # as) = length run" by (rule stored_length [OF all])
  then have "rn_pkt (h' ! ?node) = Some (last run)"
    using all unfolding stored_def by (metis last_map list.distinct(1) ps(1))
  moreover have "?node < length h'" using dll_bound [OF h'(4), of ?node] last_in_set [of "a # as"] by blast
  ultimately have "pkt_at h' ?node = Inr (last run)" by (simp add: node_reads)
  moreover have "delivered_nodes h' (Some a) run" using h'(4,5) all by (auto simp: delivered_nodes_def)
  moreover have "distinct (p # cs)" using dist by (auto simp: bs)
  ultimately show thesis using that walk h'(1,3) stored_same [OF st'(2) h'(2)] by blast
qed

definition refines ::
  "(uint32 \<times> addr option \<times> LinkedWindow) checked option \<Rightarrow> (uint32 \<times> Packet list \<times> RecvWindow) checked \<Rightarrow> bool" where
  "refines x y \<longleftrightarrow> (case y of Inl e \<Rightarrow> x = Some (Inl e)
     | Inr (an, run, l) \<Rightarrow> \<exists>r w. x = Some (Inr (an, r, w)) \<and> represents w l \<and>
         delivered_nodes (lw_store w) r run)"

lemma refines_simps [simp]:
  "refines x (Inl e) \<longleftrightarrow> x = Some (Inl e)"
  "refines x (Inr (an, run, l)) \<longleftrightarrow> (\<exists>r w. x = Some (Inr (an, r, w)) \<and> represents w l \<and>
     delivered_nodes (lw_store w) r run)"
  by (simp_all add: refines_def)

lemma delivered_nothing [simp]: "delivered_nodes h None []"
  by (simp add: delivered_nodes_def)

text \<open>After the new node was linked in between the nodes \<open>as\<close> and \<open>bs\<close>.\<close>

lemma linked_refines:
  assumes d: "dll h (lw_head w) (as @ a # bs) None" and dist: "distinct (lw_head w # as @ a # bs)"
    and st: "stored h as before" "rn_pkt (h ! a) = Some p" "stored h bs after"
    and w: "lw_recv_base w = recv_base l" "lw_capacity w = rw_capacity l"
  shows "refines
    (if pkt_seq p = lw_recv_base w then
       bindO (Some (bindR (next_at h (lw_head w)) (\<lambda>nx. guardR (nx = Some a)
           (Sanity_check ''new node is in-order, must have been inserted to queue head'')))) (\<lambda>_.
       bindO (run_walk h a) (\<lambda>last_node.
       bindO (Some (cut_run h (lw_head w) a last_node)) (\<lambda>h2.
       bindO (Some (pkt_at h2 last_node)) (\<lambda>q.
         let base = pkt_seq q + payload_size q
         in Some (Inr (base, Some a, w\<lparr>lw_recv_base := base, lw_store := h2\<rparr>))))))
     else Some (Inr (lw_recv_base w, None, w\<lparr>lw_store := h\<rparr>)))
    (if pkt_seq p = recv_base l then
       bindR (guardR (before = [])
                (Sanity_check ''new node is in-order, must have been inserted to queue head''))
         (\<lambda>_. let (run, rest) = in_order_run p after;
                  base = pkt_seq (last run) + payload_size (last run)
              in Inr (base, run, l\<lparr>rw_nodes := rest, recv_base := base\<rparr>))
     else Inr (recv_base l, [], l\<lparr>rw_nodes := before @ p # after\<rparr>))"
proof (cases "pkt_seq p = recv_base l")
  case False
  have "stored h (as @ a # bs) (before @ p # after)" using st by (simp add: stored_def)
  then have "represents (w\<lparr>lw_store := h\<rparr>) (l\<lparr>rw_nodes := before @ p # after\<rparr>)"
    using d dist w by (intro representsI [where as = "as @ a # bs"]) simp_all
  with False w show ?thesis by simp
next
  case True
  have hd: "next_at h (lw_head w) = Inr (rn_next (h ! lw_head w))"
    using dll_bound [OF d] by (intro node_reads) simp
  show ?thesis
  proof (cases "before = []")
    case False
    then obtain b cs where "as = b # cs" using st(1) by (cases as) auto
    then have "rn_next (h ! lw_head w) \<noteq> Some a" using d dist by auto
    then show ?thesis using True False w(1) hd by simp
  next
    case nil: True
    then have as: "as = []" using st(1) by simp
    obtain run rest where run: "in_order_run p after = (run, rest)" by fastforce
    obtain node h' cs where r: "run_walk h a = Some (Inr node)" "cut_run h (lw_head w) a node = Inr h'"
        "pkt_at h' node = Inr (last run)" "delivered_nodes h' (Some a) run"
        "dll h' (lw_head w) cs None" "distinct (lw_head w # cs)" "stored h' cs rest"
      using deliver_run [OF _ _ st(2,3) run, of "lw_head w"] d dist unfolding as append_Nil by blast
    let ?base = "pkt_seq (last run) + payload_size (last run)"
    have "represents (w\<lparr>lw_recv_base := ?base, lw_store := h'\<rparr>) (l\<lparr>rw_nodes := rest, recv_base := ?base\<rparr>)"
      using r(5-7) w(2) by (intro representsI [where as = cs]) simp_all
    moreover have "rn_next (h ! lw_head w) = Some a" using d by (simp add: as)
    ultimately show ?thesis using True nil w(1) hd run r(1-4) by (simp add: Let_def)
  qed
qed

lemma Linked_ReceivePacket_refines:
  assumes "represents w l"
  shows "refines (Linked_ReceivePacket w p) (ReceivePacket l p)"
proof -
  from assms obtain as where w: "lw_recv_base w = recv_base l" "lw_capacity w = rw_capacity l"
    and as: "distinct (lw_head w # as)" "dll (lw_store w) (lw_head w) as None" "stored (lw_store w) as (rw_nodes l)"
    by (auto simp: represents_def)
  let ?a = "length (lw_store w)" and ?h = "lw_store w @ [RecvWindowNode_new\<lparr>rn_pkt := Some p\<rparr>]"
  have old: "?h ! x = lw_store w ! x" if "x \<in> set (lw_head w # as)" for x
    using dll_bound [OF as(2) that] by (simp add: nth_append)
  have d: "dll ?h (lw_head w) as None" using as(2) by (rule dll_frame) (use old in auto)
  have st: "stored ?h as (rw_nodes l)" using as(3) by (rule stored_frame) (use old in auto)
  have a: "?a \<notin> set (lw_head w # as)" using dll_bound [OF as(2)] by blast
  show ?thesis
  proof (cases "pkt_seq p < recv_base l")
    case True
    then show ?thesis using assms w by (simp add: Linked_ReceivePacket_def ReceivePacket_def)
  next
    case False
    note walk = insert_walk_list [OF d st, of "pkt_seq p"]
    show ?thesis
    proof (cases "insert_scan (pkt_seq p) (rw_nodes l)")
      case (Inl e)
      then show ?thesis using False w walk by (simp add: Linked_ReceivePacket_def ReceivePacket_def Let_def)
    next
      case (Inr r)
      then obtain bef aft where scan: "insert_scan (pkt_seq p) (rw_nodes l) = Inr (bef, aft)" by (cases r) auto
      define xs ys where "xs = take (length bef) as" and "ys = drop (length bef) as"
      have xs: "as = xs @ ys" by (simp add: xs_def ys_def)
      have sts: "stored ?h xs bef" "stored ?h ys aft"
        using st insert_scan_append [OF scan] stored_length [OF st] unfolding stored_def xs_def ys_def
        by (simp_all flip: take_map drop_map)
      note link = link_node_list [OF d [unfolded xs] as(1) [unfolded xs] _ a [unfolded xs] sts(2), of p]
      let ?fits = "aft = [] \<or> pkt_seq p + payload_size p \<le> pkt_seq (hd aft)"
      have run: "insert_walk ?h (pkt_seq p) (lw_head w) = Some (Inr (last (lw_head w # xs)))"
        using walk scan by (simp add: xs_def)
      show ?thesis
      proof (cases ?fits)
        case False
        then show ?thesis
          using link(1) scan run w \<open>\<not> pkt_seq p < recv_base l\<close>
          by (simp add: Linked_ReceivePacket_def ReceivePacket_def Let_def)
      next
        case True
        then obtain h where h: "link_node ?h ?a (last (lw_head w # xs)) p = Inr h" "same_pkts ?h h"
            "dll h (lw_head w) (xs @ ?a # ys) None"
          using link(2) by auto
        have new: "rn_pkt (h ! ?a) = Some p" using h(2) by (simp add: same_pkts_def)
        have dist: "distinct (lw_head w # xs @ ?a # ys)" using as(1) a by (auto simp: xs)
        from linked_refines [OF h(3) dist stored_same [OF sts(1) h(2)] new stored_same [OF sts(2) h(2)] w]
        show ?thesis
          using True scan run h(1) \<open>\<not> pkt_seq p < recv_base l\<close> w
          by (simp add: Linked_ReceivePacket_def ReceivePacket_def Let_def)
      qed
    qed
  qed
qed

section \<open>Properties\<close>

text \<open>Any sequence of packets, with the acknowledgement and the packets handed on for each.\<close>

fun receive_all :: "RecvWindow \<Rightarrow> Packet list \<Rightarrow> (uint32 \<times> Packet list) list checked" where
  "receive_all l [] = Inr []"
| "receive_all l (p # ps) =
     bindR (ReceivePacket l p) (\<lambda>(an, run, l'). bindR (receive_all l' ps) (\<lambda>rs. Inr ((an, run) # rs)))"

fun linked_receive_all :: "LinkedWindow \<Rightarrow> Packet list \<Rightarrow> (uint32 \<times> Packet list) list checked option" where
  "linked_receive_all w [] = Some (Inr [])"
| "linked_receive_all w (p # ps) =
     bindO (Linked_ReceivePacket w p) (\<lambda>(an, r, w').
     bindO (node_packets (lw_store w') r) (\<lambda>run.
     bindO (linked_receive_all w' ps) (\<lambda>rs. Some (Inr ((an, run) # rs)))))"

lemma receive_all_refines:
  "represents w l \<Longrightarrow> linked_receive_all w ps = Some (receive_all l ps)"
proof (induction ps arbitrary: w l)
  case (Cons p ps)
  note ref = Linked_ReceivePacket_refines [OF Cons.prems, of p]
  show ?case
  proof (cases "ReceivePacket l p")
    case (Inl e)
    with ref show ?thesis by simp
  next
    case (Inr r)
    obtain an run l' where r: "r = (an, run, l')" by (cases r) auto
    with ref Inr obtain q w' where "Linked_ReceivePacket w p = Some (Inr (an, q, w'))" "represents w' l'"
        "node_packets (lw_store w') q = Some (Inr run)"
      by (auto dest: delivered_nodes_packets)
    with Cons.IH Inr r show ?thesis by (cases "receive_all l' ps") simp_all
  qed
qed simp

text \<open>
  C14. The linked list is right. For every sequence of packets, in any order, with duplicates
  and overlaps, the window of linked nodes behaves as the list of packets does: both loops
  end, no pointer is null or dangling, and the acknowledgements, the packets handed to the
  controller along their \<^verbatim>\<open>next\<close> pointers, and the sanity check that fails if one does, are
  the same.
\<close>

theorem linked_window_refines_list:
  "linked_receive_all (LinkedWindow_new b cap) ps = Some (receive_all (RecvWindow_new b cap) ps)"
  by (rule receive_all_refines [OF represents_new])

text \<open>
  C15. Nodes that are handed on together hold each other. A run of two or more packets is
  returned as nodes of which the second is the \<^verbatim>\<open>next\<close> of the first and the first the
  \<^verbatim>\<open>prev\<close> of the second; both are owning pointers, so neither node is ever freed.
\<close>

theorem delivered_nodes_hold_each_other:
  assumes "represents w l" "ReceivePacket l p = Inr (an, p1 # p2 # run, l')"
  shows "\<exists>a b w'. Linked_ReceivePacket w p = Some (Inr (an, Some a, w')) \<and> a \<noteq> b \<and>
    rn_next (lw_store w' ! a) = Some b \<and> rn_prev (lw_store w' ! b) = Some a"
proof -
  obtain r w' where w': "Linked_ReceivePacket w p = Some (Inr (an, r, w'))" "delivered_nodes (lw_store w') r (p1 # p2 # run)"
    using Linked_ReceivePacket_refines [OF assms(1), of p] assms(2) by auto
  then obtain a as where a: "r = Some a" "dll (lw_store w') a as None" "rn_prev (lw_store w' ! a) = None"
      "stored (lw_store w') (a # as) (p1 # p2 # run)"
    by (auto simp: delivered_nodes_def split: option.splits)
  then obtain b bs where "as = b # bs" by (cases as) auto
  with a w'(1) show ?thesis by force
qed

theorem delivered_nodes_hold_each_other_witness:
  "\<exists>a b w'. Linked_ReceivePacket \<lparr>lw_recv_base = 5, lw_capacity = 100, lw_head = 0, lw_store =
      [\<lparr>rn_pkt = None, rn_prev = None, rn_next = Some 1\<rparr>,
       \<lparr>rn_pkt = Some (test_pkt 7 [3]), rn_prev = Some 0, rn_next = None\<rparr>]\<rparr> (test_pkt 5 [1, 2]) =
      Some (Inr (8, Some a, w')) \<and> a \<noteq> b \<and>
    rn_next (lw_store w' ! a) = Some b \<and> rn_prev (lw_store w' ! b) = Some a"
proof (rule delivered_nodes_hold_each_other)
  show "represents \<lparr>lw_recv_base = 5, lw_capacity = 100, lw_head = 0, lw_store =
      [\<lparr>rn_pkt = None, rn_prev = None, rn_next = Some 1\<rparr>,
       \<lparr>rn_pkt = Some (test_pkt 7 [3]), rn_prev = Some 0, rn_next = None\<rparr>]\<rparr>
      \<lparr>recv_base = 5, rw_capacity = 100, rw_nodes = [test_pkt 7 [3]]\<rparr>"
    by (rule representsI [where as = "[1]"]) simp_all
  show "ReceivePacket \<lparr>recv_base = 5, rw_capacity = 100, rw_nodes = [test_pkt 7 [3]]\<rparr> (test_pkt 5 [1, 2]) =
      Inr (8, [test_pkt 5 [1, 2], test_pkt 7 [3]], \<lparr>recv_base = 8, rw_capacity = 100, rw_nodes = []\<rparr>)"
    by (simp add: ReceivePacket_def recv_window_eval)
qed

end
