(* ===== verification/Test_Programs.thy ===== *)
theory Test_Programs
  imports Host_System
begin

text \<open>
  \<^verbatim>\<open>main.cc\<close>: the test client and the test server, and the two hosts they run on. A program is
  a machine whose steps are its system calls: the call it makes next, and what it does with
  the answer up to the following call. The calls are answered by the model of the host; and,
  to see that the programs themselves are right, by any sockets that keep the promises of a
  byte stream, however they cut it into pieces.
\<close>

section \<open>System calls and their answers\<close>

definition kAliceIP :: string where
  "kAliceIP = ''127.0.0.1''"

definition kBobIP :: string where
  "kBobIP = ''127.0.0.2''"

definition kAlicePort :: uint32 where
  "kAlicePort = 10"

definition kBobPort :: uint32 where
  "kBobPort = 20"

definition kTestDataSize :: uint32 where
  "kTestDataSize = 100"

datatype syscall =
    Sys_socket
  | Sys_bind int32 string uint32
  | Sys_listen int32
  | Sys_accept int32
  | Sys_connect int32 string uint32
  | Sys_read int32 int32
  | Sys_write int32 "byte list" int32
  | Sys_close int32

datatype reply = Num int32 | Flag bool | Bytes int32 "byte list"

definition perform ::
  "'b ring_ops \<Rightarrow> (uint32 \<Rightarrow> uint32) \<Rightarrow> syscall \<Rightarrow> Process \<Rightarrow> 'b Host \<Rightarrow> (reply \<times> Process \<times> 'b Host) waits checked" where
  "perform ops random_number call p h =
     (case call of
        Sys_socket \<Rightarrow> let (fd, p', h') = Process_Socket p h in Inr (Returns (Num fd, p', h'))
      | Sys_bind fd ip port \<Rightarrow> let (re, h') = Process_Bind p fd ip port h in Inr (Returns (Flag re, p, h'))
      | Sys_listen fd \<Rightarrow> let (re, h') = Process_Listen p fd h in Inr (Returns (Flag re, p, h'))
      | Sys_accept fd \<Rightarrow> bindR (Process_Accept p fd h) (\<lambda>r. Inr (case r of
            Blocks \<Rightarrow> Blocks | Returns (new_fd, p', h') \<Rightarrow> Returns (Num new_fd, p', h')))
      | Sys_connect fd ip port \<Rightarrow>
          bindR (Process_Connect ops random_number False p fd ip port h) (\<lambda>r. Inr (case r of
            Blocks \<Rightarrow> Blocks | Returns (re, h') \<Rightarrow> Returns (Flag re, p, h')))
      | Sys_read fd sz \<Rightarrow> bindR (Process_Read ops p fd sz h) (\<lambda>r. Inr (case r of
            Blocks \<Rightarrow> Blocks | Returns ((re, bs), h') \<Rightarrow> Returns (Bytes re bs, p, h')))
      | Sys_write fd bs sz \<Rightarrow> bindR (Process_Write ops p fd bs sz h) (\<lambda>r. Inr (case r of
            Blocks \<Rightarrow> Blocks | Returns (re, h') \<Rightarrow> Returns (Num re, p, h')))
      | Sys_close fd \<Rightarrow> bindR (Process_Close p fd h) (\<lambda>(re, p', h'). Inr (Returns (Flag re, p', h'))))"

text \<open>Storing what a read returns at an offset of an array; past its end this is undefined.\<close>

definition store_at :: "uint32 \<Rightarrow> byte list \<Rightarrow> byte list \<Rightarrow> byte list checked" where
  "store_at i bs buf =
     (if unat i + length bs \<le> length buf
      then Inr (take (unat i) buf @ bs @ drop (unat i + length bs) buf)
      else Inl (Undefined_behaviour ''write past the end of an array''))"

section \<open>The data\<close>

definition InitData :: "byte list" where
  "InitData = replicate (unat kTestDataSize) 97"

definition ReceivedDataCorrect :: "byte list \<Rightarrow> byte list \<Rightarrow> bool" where
  "ReceivedDataCorrect receive_buffer data \<longleftrightarrow> (\<forall>i < unat kTestDataSize. receive_buffer ! i = data ! i)"

text \<open>The server's service: \<^verbatim>\<open>256 - b\<close>, converted back to a byte.\<close>

definition flip_byte :: "byte \<Rightarrow> byte" where
  "flip_byte b = word_of_int (256 - uint b)"

text \<open>The client's check compares integers: no byte is 256.\<close>

definition flip_correct :: "byte list \<Rightarrow> byte list \<Rightarrow> bool" where
  "flip_correct client_buffer data \<longleftrightarrow> (\<forall>i < unat kTestDataSize. uint (client_buffer ! i) = 256 - uint (data ! i))"

section \<open>The client\<close>

datatype client_pc =
  Client_socket | Client_bind | Client_connect | Client_write | Client_read | Client_close | Client_done

record client =
  cl_pc :: client_pc
  cl_fd :: int32
  cl_writen :: uint32
  cl_readn :: uint32
  cl_buffer :: "byte list"
  cl_verdict :: "bool option" \<comment> \<open>\<^verbatim>\<open>flip_correct\<close>, once computed\<close>

definition client_new :: "byte list \<Rightarrow> client" where
  "client_new buf = \<lparr>cl_pc = Client_socket, cl_fd = 0, cl_writen = 0, cl_readn = 0, cl_buffer = buf, cl_verdict = None\<rparr>"

fun client_call :: "byte list \<Rightarrow> client \<Rightarrow> syscall option" where
  "client_call data c = (case cl_pc c of
     Client_socket \<Rightarrow> Some Sys_socket
   | Client_bind \<Rightarrow> Some (Sys_bind (cl_fd c) kAliceIP kAlicePort)
   | Client_connect \<Rightarrow> Some (Sys_connect (cl_fd c) kBobIP kBobPort)
   | Client_write \<Rightarrow> Some (Sys_write (cl_fd c) (drop (unat (cl_writen c)) data)
       (int32_of_uint32 (kTestDataSize - cl_writen c)))
   | Client_read \<Rightarrow> Some (Sys_read (cl_fd c) (int32_of_uint32 kTestDataSize))
   | Client_close \<Rightarrow> Some (Sys_close (cl_fd c))
   | Client_done \<Rightarrow> None)"

text \<open>The head of the loop that writes, and what follows the loop that reads.\<close>

definition client_write_loop :: "client \<Rightarrow> client" where
  "client_write_loop c = c\<lparr>cl_pc := (if cl_writen c < kTestDataSize then Client_write else Client_read)\<rparr>"

definition client_check :: "byte list \<Rightarrow> client \<Rightarrow> client" where
  "client_check data c =
     (if cl_readn c \<noteq> kTestDataSize then c\<lparr>cl_pc := Client_close\<rparr>
      else c\<lparr>cl_pc := Client_close, cl_verdict := Some (flip_correct (cl_buffer c) data)\<rparr>)"

fun client_reply :: "byte list \<Rightarrow> client_pc \<Rightarrow> reply \<Rightarrow> client \<Rightarrow> client checked" where
  "client_reply data Client_socket (Num fd) c =
     Inr (if fd < 0 then c\<lparr>cl_fd := fd, cl_pc := Client_done\<rparr> else c\<lparr>cl_fd := fd, cl_pc := Client_bind\<rparr>)"
| "client_reply data Client_bind (Flag re) c = Inr (c\<lparr>cl_pc := (if re then Client_connect else Client_done)\<rparr>)"
| "client_reply data Client_connect (Flag re) c =
     Inr (if re then client_write_loop (c\<lparr>cl_writen := 0\<rparr>) else c\<lparr>cl_pc := Client_done\<rparr>)"
| "client_reply data Client_write (Num re) c =
     Inr (if re > 0 then client_write_loop (c\<lparr>cl_writen := cl_writen c + word_of_int re\<rparr>)
          else c\<lparr>cl_pc := Client_read\<rparr>)"
| "client_reply data Client_read (Bytes re bs) c =
     bindR (store_at (cl_readn c) bs (cl_buffer c)) (\<lambda>buf.
       Inr (if re > 0 then c\<lparr>cl_buffer := buf, cl_readn := cl_readn c + word_of_int re\<rparr>
            else client_check data (c\<lparr>cl_buffer := buf\<rparr>)))"
| "client_reply data Client_close (Flag re) c = Inr (c\<lparr>cl_pc := Client_done\<rparr>)"
| "client_reply data pc r c = Inl (Undefined_behaviour ''answer to another call'')"

section \<open>The server\<close>

datatype server_pc =
  Server_socket | Server_bind | Server_listen | Server_accept | Server_read | Server_write
| Server_close bool \<comment> \<open>whether the program returns afterwards\<close>
| Server_done

record server =
  sv_pc :: server_pc
  sv_sock_fd :: int32
  sv_tcp_socket :: int32
  sv_readn :: uint32
  sv_writen :: uint32
  receive_buffer :: "byte list"
  sv_correct :: "bool option" \<comment> \<open>\<^verbatim>\<open>ReceivedDataCorrect()\<close>, as last logged\<close>

definition server_new :: "byte list \<Rightarrow> server" where
  "server_new buf = \<lparr>sv_pc = Server_socket, sv_sock_fd = 0, sv_tcp_socket = -1, sv_readn = 0, sv_writen = 0,
     receive_buffer = buf, sv_correct = None\<rparr>"

fun server_call :: "server \<Rightarrow> syscall option" where
  "server_call s = (case sv_pc s of
     Server_socket \<Rightarrow> Some Sys_socket
   | Server_bind \<Rightarrow> Some (Sys_bind (sv_sock_fd s) kBobIP kBobPort)
   | Server_listen \<Rightarrow> Some (Sys_listen (sv_sock_fd s))
   | Server_accept \<Rightarrow> Some (Sys_accept (sv_sock_fd s))
   | Server_read \<Rightarrow> Some (Sys_read (sv_tcp_socket s) (int32_of_uint32 kTestDataSize))
   | Server_write \<Rightarrow> Some (Sys_write (sv_tcp_socket s) (drop (unat (sv_writen s)) (receive_buffer s))
       (int32_of_uint32 (kTestDataSize - sv_writen s)))
   | Server_close _ \<Rightarrow> Some (Sys_close (sv_tcp_socket s))
   | Server_done \<Rightarrow> None)"

text \<open>What follows the loop that reads: the check, the service, and the head of the loop that writes.\<close>

definition server_write_loop :: "server \<Rightarrow> server" where
  "server_write_loop s = s\<lparr>sv_pc := (if sv_writen s < kTestDataSize then Server_write else Server_close False)\<rparr>"

definition server_serve :: "byte list \<Rightarrow> server \<Rightarrow> server" where
  "server_serve data s =
     (if sv_readn s \<noteq> kTestDataSize then s\<lparr>sv_pc := Server_close True\<rparr>
      else server_write_loop (s\<lparr>sv_correct := Some (ReceivedDataCorrect (receive_buffer s) data),
             receive_buffer := map flip_byte (receive_buffer s), sv_writen := 0\<rparr>))"

definition server_read_loop :: "byte list \<Rightarrow> server \<Rightarrow> server" where
  "server_read_loop data s =
     (if sv_readn s < kTestDataSize then s\<lparr>sv_pc := Server_read\<rparr> else server_serve data s)"

fun server_reply :: "byte list \<Rightarrow> server_pc \<Rightarrow> reply \<Rightarrow> server \<Rightarrow> server checked" where
  "server_reply data Server_socket (Num fd) s =
     Inr (s\<lparr>sv_sock_fd := fd, sv_pc := (if fd < 0 then Server_done else Server_bind)\<rparr>)"
| "server_reply data Server_bind (Flag re) s = Inr (s\<lparr>sv_pc := (if re then Server_listen else Server_done)\<rparr>)"
| "server_reply data Server_listen (Flag re) s = Inr (s\<lparr>sv_pc := (if re then Server_accept else Server_done)\<rparr>)"
| "server_reply data Server_accept (Num fd) s =
     Inr (if fd < 0 then s\<lparr>sv_tcp_socket := fd\<rparr>
          else server_read_loop data (s\<lparr>sv_tcp_socket := fd, sv_readn := 0\<rparr>))"
| "server_reply data Server_read (Bytes re bs) s =
     bindR (store_at (sv_readn s) bs (receive_buffer s)) (\<lambda>buf.
       let s' = s\<lparr>receive_buffer := buf\<rparr>
       in Inr (if re > 0 then server_read_loop data (s'\<lparr>sv_readn := sv_readn s + word_of_int re\<rparr>)
               else if re = 0 then s'\<lparr>sv_pc := Server_close True\<rparr>
               else server_serve data s'))"
| "server_reply data Server_write (Num re) s =
     Inr (if re > 0 then server_write_loop (s\<lparr>sv_writen := sv_writen s + word_of_int re\<rparr>) else s)"
| "server_reply data (Server_close ret) (Flag re) s = Inr (s\<lparr>sv_pc := (if ret then Server_done else Server_accept)\<rparr>)"
| "server_reply data pc r s = Inl (Undefined_behaviour ''answer to another call'')"

section \<open>The two hosts\<close>

text \<open>
  \<^verbatim>\<open>main\<close>: two channels, two hosts, the callbacks, the thread pools, and one process on each host. Both hosts
  are in one program, so that they share the threshold of duplicate acknowledgements. The
  arguments are the values of uninitialised memory.
\<close>

record 'b world =
  alice :: "'b Host"
  bob :: "'b Host"
  alice_to_bob :: "'b Host BaseChannel"
  bob_to_alice :: "'b Host BaseChannel"
  client_process :: Process
  server_process :: Process
  the_client :: client
  the_server :: server
  max_duplicated_acks :: uint32

definition main_world :: "bool \<Rightarrow> bool \<Rightarrow> byte list \<Rightarrow> byte list \<Rightarrow> 'b world" where
  "main_world stop1 stop2 client_buf server_buf =
     (let to_host = Some (\<lambda>h pkts. MovePacketsFromChannel pkts h)
      in \<lparr>alice = snd (CreateProcess ''Client'' (RunForever (Host_new ''Alice'' kAliceIP))),
          bob = snd (CreateProcess ''Server'' (RunForever (Host_new ''Bob'' kBobIP))),
          alice_to_bob = BaseChannel_Start (RegisterReceiverCallback to_host (BaseChannel_default stop1)),
          bob_to_alice = BaseChannel_Start (RegisterReceiverCallback to_host (BaseChannel_default stop2)),
          client_process = Process_new ''Client'', server_process = Process_new ''Server'',
          the_client = client_new client_buf, the_server = server_new server_buf,
          max_duplicated_acks = kMaxDuplicatedAcksOrigin\<rparr>)"

text \<open>
  The threads of a host: its receiving listener, the steps of its controllers, the packets a
  controller hands to the host, and the threads that delete connections.
\<close>

inductive host_thread :: "'b ring_ops \<Rightarrow> uint32 \<times> 'b Host \<Rightarrow> uint32 \<times> 'b Host \<Rightarrow> bool" for ops where
  receive_round: "pool_started h \<Longrightarrow> PacketsReceiveListener_round ops False h = Inr (Returns h') \<Longrightarrow> host_thread ops (m, h) (m, h')"
| controller: "tcp_objects h a = Some c \<Longrightarrow> tcp_step ops e (m, c) (m', c') \<Longrightarrow>
    host_thread ops (m, h) (m', store_tcp a c' h)"
| multiplex: "tcp_objects h a = Some c \<Longrightarrow> PacketSendBufferListener_round c = Some (Returns (pkts, c')) \<Longrightarrow>
    MultiplexPacketsFromTcp pkts (store_tcp a c' h) = Inr h' \<Longrightarrow> host_thread ops (m, h) (m, h')"
| delete_connection: "shut_down_thread a h = Inr (Returns h') \<Longrightarrow> host_thread ops (m, h) (m, h')"

inductive world_step :: "'b ring_ops \<Rightarrow> byte list \<Rightarrow> 'b world \<Rightarrow> 'b world \<Rightarrow> bool" for ops data where
  client_runs: "pool_started (alice w) \<Longrightarrow> client_call data (the_client w) = Some call \<Longrightarrow>
    perform ops rnd call (client_process w) (alice w) = Inr (Returns (r, p, h)) \<Longrightarrow>
    client_reply data (cl_pc (the_client w)) r (the_client w) = Inr c \<Longrightarrow>
    world_step ops data w (w\<lparr>the_client := c, client_process := p, alice := h\<rparr>)"
| client_returns: "pool_started (alice w) \<Longrightarrow> client_call data (the_client w) = None \<Longrightarrow>
    ReleaseResource (client_process w) (alice w) = Inr (p, h) \<Longrightarrow>
    world_step ops data w (w\<lparr>client_process := p, alice := h\<rparr>)"
| server_runs: "pool_started (bob w) \<Longrightarrow> server_call (the_server w) = Some call \<Longrightarrow>
    perform ops rnd call (server_process w) (bob w) = Inr (Returns (r, p, h)) \<Longrightarrow>
    server_reply data (sv_pc (the_server w)) r (the_server w) = Inr s \<Longrightarrow>
    world_step ops data w (w\<lparr>the_server := s, server_process := p, bob := h\<rparr>)"
| server_returns: "pool_started (bob w) \<Longrightarrow> server_call (the_server w) = None \<Longrightarrow>
    ReleaseResource (server_process w) (bob w) = Inr (p, h) \<Longrightarrow>
    world_step ops data w (w\<lparr>server_process := p, bob := h\<rparr>)"
| alice_thread: "host_thread ops (max_duplicated_acks w, alice w) (m, h) \<Longrightarrow>
    world_step ops data w (w\<lparr>max_duplicated_acks := m, alice := h\<rparr>)"
| bob_thread: "host_thread ops (max_duplicated_acks w, bob w) (m, h) \<Longrightarrow>
    world_step ops data w (w\<lparr>max_duplicated_acks := m, bob := h\<rparr>)"
| alice_sends: "pool_started (alice w) \<Longrightarrow> PacketsSendListener_round rnd k (alice_to_bob w) (alice w) = Returns (k', ch, h) \<Longrightarrow>
    world_step ops data w (w\<lparr>alice_to_bob := ch, alice := h\<rparr>)"
| bob_sends: "pool_started (bob w) \<Longrightarrow> PacketsSendListener_round rnd k (bob_to_alice w) (bob w) = Returns (k', ch, h) \<Longrightarrow>
    world_step ops data w (w\<lparr>bob_to_alice := ch, bob := h\<rparr>)"
| bob_receives: "WaitingForPackets_round (alice_to_bob w) (bob w) = Some (Inr (Returns (ch, h))) \<Longrightarrow>
    world_step ops data w (w\<lparr>alice_to_bob := ch, bob := h\<rparr>)"
| alice_receives: "WaitingForPackets_round (bob_to_alice w) (alice w) = Some (Inr (Returns (ch, h))) \<Longrightarrow>
    world_step ops data w (w\<lparr>bob_to_alice := ch, alice := h\<rparr>)"

subsection \<open>Both hosts keep their invariant\<close>

lemma Process_Close_inv: "host_inv h \<Longrightarrow> Process_Close p fd h = Inr (r, p', h') \<Longrightarrow> host_inv h'"
  by (auto simp: Process_Close_def Let_def bindR_Inr_iff dest: DecOpenFileRef_inv split: if_splits)

lemma ReleaseResource_inv: "host_inv h \<Longrightarrow> ReleaseResource p h = Inr (p', h') \<Longrightarrow> host_inv h'"
proof -
  have "host_inv h \<Longrightarrow> close_all fds p h = Inr (p', h') \<Longrightarrow> host_inv h'" for fds
    by (induction fds arbitrary: p h) (auto simp: bindR_Inr_iff dest: Process_Close_inv)
  then show "host_inv h \<Longrightarrow> ReleaseResource p h = Inr (p', h') \<Longrightarrow> host_inv h'" by (simp add: ReleaseResource_def)
qed

lemma Process_Accept_inv:
  assumes inv: "host_inv h" and acc: "Process_Accept p fd h = Inr (Returns (r, p', h'))"
  shows "host_inv h'"
proof (cases "FindFdMappedFileId p fd < 0")
  case True
  then show ?thesis using assms by (simp add: Process_Accept_def)
next
  case False
  let ?fid = "FindFdMappedFileId p fd"
  obtain new_fid h1 where h1: "SocketAccept ?fid h = Returns (new_fid, h1)"
    using acc False by (cases "SocketAccept ?fid h") (auto simp: Process_Accept_def)
  have inv1: "host_inv h1" using host_inv_queues(5) [OF h1] inv by simp
  obtain new_fd pl where al: "Allocate (fd_pool p) = (new_fd, pl)" by force
  show ?thesis
  proof (cases "new_fd < 0")
    case True
    have "DeleteSocketAndConnection ?fid h1 = Inr (Returns h')"
      using acc False h1 al True by (auto simp: Process_Accept_def bindR_Inr_iff waits_Returns_iff)
    then show ?thesis by (rule DeleteSocketAndConnection_inv [OF inv1])
  next
    case new: False
    then show ?thesis using acc False h1 al inv1 by (simp add: Process_Accept_def)
  qed
qed

lemma perform_inv:
  assumes inv: "host_inv h" and call: "perform ops rnd call p h = Inr (Returns (r, p', h'))"
  shows "host_inv h'"
proof (cases call)
  case Sys_socket
  then show ?thesis
    using inv call CreateNewSocket_inv [OF inv]
    by (auto simp: perform_def Process_Socket_def Let_def split: prod.splits if_splits)
next
  case (Sys_bind fd ip port)
  then show ?thesis
    using inv call SocketBind_inv [OF inv] by (auto simp: perform_def Process_Bind_def Let_def split: prod.splits if_splits)
next
  case (Sys_listen fd)
  then show ?thesis
    using inv call host_inv_queues(4) by (auto simp: perform_def Process_Listen_def Let_def split: prod.splits if_splits)
next
  case (Sys_accept fd)
  then show ?thesis
    using inv call Process_Accept_inv [OF inv] by (auto simp: perform_def bindR_Inr_iff waits_case_Returns_iff)
next
  case (Sys_connect fd ip port)
  then show ?thesis
    using inv call SocketConnect_inv [OF inv]
    by (auto simp: perform_def Process_Connect_def Let_def bindR_Inr_iff waits_case_Returns_iff split: if_splits)
next
  case (Sys_read fd sz)
  then show ?thesis
    using inv call ReadData_inv [OF inv]
    by (auto simp: perform_def Process_Read_def Let_def bindR_Inr_iff waits_case_Returns_iff split: if_splits)
next
  case (Sys_write fd bs sz)
  then show ?thesis
    using inv call WriteData_inv [OF inv]
    by (auto simp: perform_def Process_Write_def Let_def bindR_Inr_iff waits_case_Returns_iff split: if_splits)
next
  case (Sys_close fd)
  then show ?thesis using inv call Process_Close_inv [OF inv] by (auto simp: perform_def bindR_Inr_iff)
qed

lemma host_thread_inv: "host_thread ops (m, h) (m', h') \<Longrightarrow> host_inv h \<Longrightarrow> host_inv h'"
proof (induction "(m, h)" "(m', h')" arbitrary: m h m' h' rule: host_thread.induct)
  case (multiplex h a c pkts c' h' m)
  have "tcp_identity c' = tcp_identity c"
    using outside_identity outside_rounds(4) [OF multiplex(2)] by blast
  then have "host_inv (store_tcp a c' h)"
    using host_inv_store [OF multiplex(4,1)] by (simp add: tcp_identity_def)
  then show ?case using host_inv_queues(2) [OF multiplex(3)] by simp
qed (erule (1) PacketsReceiveListener_inv shut_down_thread_inv | erule (2) controller_inv)+

text \<open>Both hosts, and the callbacks of the channels between them.\<close>

definition world_inv :: "'b world \<Rightarrow> bool" where
  "world_inv w \<longleftrightarrow> host_inv (alice w) \<and> host_inv (bob w) \<and> moves_packets (alice_to_bob w) \<and> moves_packets (bob_to_alice w)"

lemma channel_sends:
  assumes "PacketsSendListener_round rnd k ch h = Returns (k', ch', h')"
  shows "host_inv h' = host_inv h" "moves_packets ch' = moves_packets ch"
  using host_inv_queues(3) [OF assms] assms
  by (auto simp: PacketsSendListener_round_def Channel_Send_def moves_packets_def Let_def split: prod.splits waits.splits)

lemma channel_delivers:
  assumes "moves_packets ch" "WaitingForPackets_round ch h = Some (Inr (Returns (ch', h')))" "host_inv h"
  shows "host_inv h'" "moves_packets ch'"
  using assms
  by (auto simp: WaitingForPackets_round_def moves_packets_def Let_def bindR_Inr_iff host_inv_queues(1)
      split: if_splits prod.splits waits.splits)

lemma world_step_inv: "world_step ops data w w' \<Longrightarrow> world_inv w \<Longrightarrow> world_inv w'"
  by (induction rule: world_step.induct)
     (auto simp: world_inv_def channel_sends dest: perform_inv ReleaseResource_inv host_thread_inv channel_delivers)

interpretation main_system: invariant_system
  "\<lambda>w. \<exists>stop1 stop2 buf1 buf2. w = main_world stop1 stop2 buf1 buf2" "world_step ops data" world_inv
proof
  fix w :: "'a world"
  assume "\<exists>stop1 stop2 buf1 buf2. w = main_world stop1 stop2 buf1 buf2"
  then show "world_inv w"
    using CreateProcess_inv [OF RunForever_inv [OF host_inv_new]] prod.collapse
    by (auto simp: world_inv_def main_world_def Let_def moves_packets_def BaseChannel_Start_def
        RegisterReceiverCallback_def CreateProcess_def intro: CreateProcess_inv [OF RunForever_inv [OF host_inv_new]])
qed (blast intro: world_step_inv)

section \<open>The conversation over byte streams\<close>

text \<open>
  What the sockets promise the two programs. Opening succeeds, connecting once the server
  listens; a write takes at least one byte and at most those offered; a read returns at
  least one byte and at most those asked for, in order, or zero at the end of a stream that
  the other side closed; a call may block otherwise, which is the absence of an answer.
\<close>

record talk =
  t_client :: client
  t_server :: server
  listening :: bool
  connected :: bool
  accepted :: bool
  c2s :: "byte list"
  s2c :: "byte list"
  c_closed :: bool
  s_closed :: bool

definition talk_init :: "byte list \<Rightarrow> byte list \<Rightarrow> talk" where
  "talk_init client_buf server_buf = \<lparr>t_client = client_new client_buf, t_server = server_new server_buf,
     listening = False, connected = False, accepted = False, c2s = [], s2c = [], c_closed = False, s_closed = False\<rparr>"

inductive client_answer :: "talk \<Rightarrow> syscall \<Rightarrow> reply \<Rightarrow> talk \<Rightarrow> bool" where
  "0 \<le> fd \<Longrightarrow> client_answer t Sys_socket (Num fd) t"
| "client_answer t (Sys_bind fd ip port) (Flag True) t"
| "listening t \<Longrightarrow> client_answer t (Sys_connect fd ip port) (Flag True) (t\<lparr>connected := True\<rparr>)"
| "0 < k \<Longrightarrow> int k \<le> sz \<Longrightarrow> k \<le> length bs \<Longrightarrow>
    client_answer t (Sys_write fd bs sz) (Num (int k)) (t\<lparr>c2s := c2s t @ take k bs\<rparr>)"
| "0 < k \<Longrightarrow> int k \<le> sz \<Longrightarrow> k \<le> length (s2c t) \<Longrightarrow>
    client_answer t (Sys_read fd sz) (Bytes (int k) (take k (s2c t))) (t\<lparr>s2c := drop k (s2c t)\<rparr>)"
| "s_closed t \<Longrightarrow> s2c t = [] \<Longrightarrow> client_answer t (Sys_read fd sz) (Bytes 0 []) t"
| "client_answer t (Sys_close fd) (Flag True) (t\<lparr>c_closed := True\<rparr>)"

inductive server_answer :: "talk \<Rightarrow> syscall \<Rightarrow> reply \<Rightarrow> talk \<Rightarrow> bool" where
  "0 \<le> fd \<Longrightarrow> server_answer t Sys_socket (Num fd) t"
| "server_answer t (Sys_bind fd ip port) (Flag True) t"
| "server_answer t (Sys_listen fd) (Flag True) (t\<lparr>listening := True\<rparr>)"
| "connected t \<Longrightarrow> \<not> accepted t \<Longrightarrow> 0 \<le> fd \<Longrightarrow>
    server_answer t (Sys_accept sock) (Num fd) (t\<lparr>accepted := True\<rparr>)"
| "0 < k \<Longrightarrow> int k \<le> sz \<Longrightarrow> k \<le> length bs \<Longrightarrow>
    server_answer t (Sys_write fd bs sz) (Num (int k)) (t\<lparr>s2c := s2c t @ take k bs\<rparr>)"
| "0 < k \<Longrightarrow> int k \<le> sz \<Longrightarrow> k \<le> length (c2s t) \<Longrightarrow>
    server_answer t (Sys_read fd sz) (Bytes (int k) (take k (c2s t))) (t\<lparr>c2s := drop k (c2s t)\<rparr>)"
| "c_closed t \<Longrightarrow> c2s t = [] \<Longrightarrow> server_answer t (Sys_read fd sz) (Bytes 0 []) t"
| "server_answer t (Sys_close fd) (Flag True) (t\<lparr>s_closed := True\<rparr>)"

inductive talk_next :: "byte list \<Rightarrow> talk \<Rightarrow> talk checked \<Rightarrow> bool" for data where
  client_turn: "client_call data (t_client t) = Some call \<Longrightarrow> client_answer t call r t' \<Longrightarrow>
    talk_next data t (bindR (client_reply data (cl_pc (t_client t)) r (t_client t)) (\<lambda>c. Inr (t'\<lparr>t_client := c\<rparr>)))"
| server_turn: "server_call (t_server t) = Some call \<Longrightarrow> server_answer t call r t' \<Longrightarrow>
    talk_next data t (bindR (server_reply data (sv_pc (t_server t)) r (t_server t)) (\<lambda>s. Inr (t'\<lparr>t_server := s\<rparr>)))"

definition talk_step :: "byte list \<Rightarrow> talk \<Rightarrow> talk \<Rightarrow> bool" where
  "talk_step data t t' \<longleftrightarrow> talk_next data t (Inr t')"

inductive_cases client_answer_cases:
  "client_answer t Sys_socket r t'" "client_answer t (Sys_bind fd ip port) r t'"
  "client_answer t (Sys_connect fd ip port) r t'" "client_answer t (Sys_write fd bs sz) r t'"
  "client_answer t (Sys_read fd sz) r t'" "client_answer t (Sys_close fd) r t'"

inductive_cases server_answer_cases:
  "server_answer t Sys_socket r t'" "server_answer t (Sys_bind fd ip port) r t'"
  "server_answer t (Sys_listen fd) r t'" "server_answer t (Sys_accept fd) r t'"
  "server_answer t (Sys_write fd bs sz) r t'" "server_answer t (Sys_read fd sz) r t'"
  "server_answer t (Sys_close fd) r t'"

subsection \<open>The invariant\<close>

definition client_ok :: "byte list \<Rightarrow> client \<Rightarrow> bool" where
  "client_ok data c \<longleftrightarrow> length (cl_buffer c) = 100 \<and> unat (cl_readn c) \<le> 100 \<and>
     (case cl_pc c of
        Client_socket \<Rightarrow> cl_writen c = 0 \<and> cl_readn c = 0
      | Client_bind \<Rightarrow> cl_writen c = 0 \<and> cl_readn c = 0
      | Client_connect \<Rightarrow> cl_writen c = 0 \<and> cl_readn c = 0
      | Client_write \<Rightarrow> unat (cl_writen c) < 100 \<and> cl_readn c = 0
      | Client_read \<Rightarrow> cl_writen c = 100
      | _ \<Rightarrow> cl_writen c = 100 \<and> cl_readn c = 100 \<and> cl_verdict c = Some (0 \<notin> set data))"

definition client_connected :: "client \<Rightarrow> bool" where
  "client_connected c \<longleftrightarrow> cl_pc c \<notin> {Client_socket, Client_bind, Client_connect}"

definition served :: "byte list \<Rightarrow> server \<Rightarrow> bool" where
  "served data s \<longleftrightarrow> receive_buffer s = map flip_byte data \<and> sv_correct s = Some True"

definition server_ok :: "byte list \<Rightarrow> talk \<Rightarrow> server \<Rightarrow> bool" where
  "server_ok data t s \<longleftrightarrow> length (receive_buffer s) = 100 \<and>
     (case sv_pc s of
        Server_accept \<Rightarrow> listening t \<and> s_closed t = accepted t \<and>
          (if accepted t then served data s \<and> sv_writen s = 100 else sv_writen s = 0 \<and> sv_readn s = 0)
      | Server_read \<Rightarrow> listening t \<and> accepted t \<and> \<not> s_closed t \<and> unat (sv_readn s) < 100 \<and> sv_writen s = 0
      | Server_write \<Rightarrow> listening t \<and> accepted t \<and> \<not> s_closed t \<and> unat (sv_writen s) < 100 \<and> served data s
      | Server_close False \<Rightarrow> listening t \<and> accepted t \<and> \<not> s_closed t \<and> sv_writen s = 100 \<and> served data s
      | Server_close True \<Rightarrow> False
      | Server_done \<Rightarrow> False
      | _ \<Rightarrow> \<not> listening t \<and> \<not> accepted t \<and> \<not> s_closed t \<and> sv_writen s = 0 \<and> sv_readn s = 0)"

text \<open>What the server has taken from the stream of the client.\<close>

definition taken :: "byte list \<Rightarrow> talk \<Rightarrow> byte list" where
  "taken data t = (if \<not> accepted t then []
     else if sv_pc (t_server t) = Server_read then take (unat (sv_readn (t_server t))) (receive_buffer (t_server t))
     else data)"

definition talk_inv :: "byte list \<Rightarrow> talk \<Rightarrow> bool" where
  "talk_inv data t \<longleftrightarrow> client_ok data (t_client t) \<and> server_ok data t (t_server t) \<and>
     connected t = client_connected (t_client t) \<and> (accepted t \<longrightarrow> connected t) \<and> (connected t \<longrightarrow> listening t) \<and>
     c_closed t = (cl_pc (t_client t) = Client_done) \<and>
     taken data t @ c2s t = take (unat (cl_writen (t_client t))) data \<and>
     take (unat (cl_readn (t_client t))) (cl_buffer (t_client t)) @ s2c t =
       take (unat (sv_writen (t_server t))) (map flip_byte data)"

lemmas talk_inv_defs = talk_inv_def client_ok_def client_connected_def served_def server_ok_def taken_def

lemma talk_inv_init:
  assumes "length client_buf = 100" "length server_buf = 100"
  shows "talk_inv data (talk_init client_buf server_buf)"
  using assms by (simp add: talk_inv_defs talk_init_def client_new_def server_new_def)

text \<open>Every turn makes progress: the program moves on, or fewer bytes remain.\<close>

definition client_rank :: "client \<Rightarrow> nat" where
  "client_rank c = (case cl_pc c of Client_socket \<Rightarrow> 6 | Client_bind \<Rightarrow> 5 | Client_connect \<Rightarrow> 4 | Client_write \<Rightarrow> 3
     | Client_read \<Rightarrow> 2 | Client_close \<Rightarrow> 1 | Client_done \<Rightarrow> 0) + (100 - unat (cl_writen c)) + (100 - unat (cl_readn c))"

definition server_rank :: "talk \<Rightarrow> server \<Rightarrow> nat" where
  "server_rank t s = (case sv_pc s of Server_socket \<Rightarrow> 7 | Server_bind \<Rightarrow> 6 | Server_listen \<Rightarrow> 5
     | Server_accept \<Rightarrow> (if accepted t then 0 else 4) | Server_read \<Rightarrow> 3 | Server_write \<Rightarrow> 2
     | Server_close _ \<Rightarrow> 1 | Server_done \<Rightarrow> 0) + (100 - unat (sv_readn s)) + (100 - unat (sv_writen s))"

definition talk_rank :: "talk \<Rightarrow> nat" where
  "talk_rank t = client_rank (t_client t) + server_rank t (t_server t)"

lemma unat_advance: "unat w + k \<le> 100 \<Longrightarrow> unat (w + word_of_int (int k) :: uint32) = unat w + k"
  by (simp add: unat_add_u32 unat_of_nat_u32)

lemma unat_100_iff: "unat (w :: uint32) = 100 \<longleftrightarrow> w = 100"
  by (simp add: u32_eq_iff)

lemma bytes_left:
  assumes "unat w \<le> 100"
  shows "int32_of_uint32 (kTestDataSize - w) = 100 - int (unat w)"
proof -
  have "unat (100 - w) = 100 - unat w" using assms by (simp add: unat_sub word_le_nat_alt)
  moreover have "sint (100 - w) = int (unat (100 - w))"
    using sint_u32_small [of "100 - w"] calculation by (simp only: uint_nat)
  ultimately show ?thesis using assms by (simp add: int32_of_uint32_def kTestDataSize_def)
qed

lemma store_at_ok:
  assumes "unat i + length bs \<le> length buf"
  obtains buf' where "store_at i bs buf = Inr buf'" "length buf' = length buf"
    "take (unat i + length bs) buf' = take (unat i) buf @ bs"
  using assms by (simp add: store_at_def)

lemma flip_correct_iff:
  assumes "length data = 100"
  shows "flip_correct (map flip_byte data) data \<longleftrightarrow> 0 \<notin> set data"
proof -
  have "uint (flip_byte b) = 256 - uint b \<longleftrightarrow> b \<noteq> 0" for b
  proof (cases "b = 0")
    case False
    then have "0 < uint b" "uint b < 256" using uint_lt2p [of b] by (auto simp: word_less_def word_neq_0_conv)
    then have "(256 - uint b) mod 256 = 256 - uint b" by (intro mod_pos_pos_trivial) auto
    moreover have "uint (flip_byte b) = (256 - uint b) mod 256"
      unfolding flip_byte_def uint_word_of_int by (rule arg_cong2 [where f = "(mod)"]) simp_all
    ultimately show ?thesis using False by simp
  qed (simp add: flip_byte_def)
  then show ?thesis using assms by (auto simp: flip_correct_def kTestDataSize_def in_set_conv_nth)
qed

lemma ReceivedDataCorrect_same: "take 100 buf = data \<Longrightarrow> ReceivedDataCorrect buf data"
  by (auto simp: ReceivedDataCorrect_def kTestDataSize_def)

subsection \<open>The client's turn\<close>

lemma server_side_frame [simp]:
  "server_ok data (t\<lparr>t_client := c\<rparr>) s = server_ok data t s" "server_ok data (t\<lparr>t_server := s'\<rparr>) s = server_ok data t s"
  "server_ok data (t\<lparr>c2s := bs\<rparr>) s = server_ok data t s" "server_ok data (t\<lparr>s2c := bs\<rparr>) s = server_ok data t s"
  "server_ok data (t\<lparr>connected := b\<rparr>) s = server_ok data t s" "server_ok data (t\<lparr>c_closed := b\<rparr>) s = server_ok data t s"
  "taken data (t\<lparr>t_client := c\<rparr>) = taken data t" "taken data (t\<lparr>c2s := bs\<rparr>) = taken data t"
  "taken data (t\<lparr>s2c := bs\<rparr>) = taken data t" "taken data (t\<lparr>connected := b\<rparr>) = taken data t"
  "taken data (t\<lparr>c_closed := b\<rparr>) = taken data t"
  "server_rank (t\<lparr>t_client := c\<rparr>) s = server_rank t s" "server_rank (t\<lparr>t_server := s'\<rparr>) s = server_rank t s"
  "server_rank (t\<lparr>c2s := bs\<rparr>) s = server_rank t s" "server_rank (t\<lparr>s2c := bs\<rparr>) s = server_rank t s"
  "server_rank (t\<lparr>connected := b\<rparr>) s = server_rank t s" "server_rank (t\<lparr>c_closed := b\<rparr>) s = server_rank t s"
  "server_rank (t\<lparr>listening := b\<rparr>) s = server_rank t s" "server_rank (t\<lparr>s_closed := b\<rparr>) s = server_rank t s"
  by (simp_all add: server_ok_def taken_def server_rank_def cong: server_pc.case_cong bool.case_cong)

lemmas client_side = talk_inv_def client_ok_def client_connected_def

definition turn_ok :: "byte list \<Rightarrow> talk \<Rightarrow> talk checked \<Rightarrow> bool" where
  "turn_ok data t r \<longleftrightarrow> (\<exists>t'. r = Inr t' \<and> talk_inv data t' \<and> talk_rank t' < talk_rank t)"

lemma turn_ok_Inr [simp]: "turn_ok data t (Inr t') \<longleftrightarrow> talk_inv data t' \<and> talk_rank t' < talk_rank t"
  by (simp add: turn_ok_def)

lemma client_write_turn:
  assumes inv: "talk_inv data t" and len: "length data = 100" and pc: "cl_pc (t_client t) = Client_write"
    and k: "0 < k" "unat (cl_writen (t_client t)) + k \<le> 100"
  shows "turn_ok data t (Inr (t\<lparr>c2s := c2s t @ take k (drop (unat (cl_writen (t_client t))) data),
      t_client := client_write_loop ((t_client t)\<lparr>cl_writen := cl_writen (t_client t) + word_of_int (int k)\<rparr>)\<rparr>))"
    (is "turn_ok data t (Inr ?t)")
proof -
  let ?c = "t_client t" and ?w = "cl_writen (t_client t) + word_of_int (int k)"
  have w: "unat ?w = unat (cl_writen ?c) + k" by (rule unat_advance [OF k(2)])
  have "take (unat (cl_writen ?c) + k) data = take (unat (cl_writen ?c)) data @ take k (drop (unat (cl_writen ?c)) data)"
    by (rule take_add)
  moreover have "?w = 100" if "\<not> unat (cl_writen ?c) + k < 100" using that w k(2) by (simp add: u32_eq_iff)
  ultimately have "talk_inv data ?t"
    using inv pc w by (auto simp: client_side client_write_loop_def kTestDataSize_def word_less_nat_alt)
  moreover have "talk_rank ?t < talk_rank t"
    using pc w k by (auto simp: talk_rank_def client_rank_def client_write_loop_def kTestDataSize_def word_less_nat_alt)
  ultimately show ?thesis by simp
qed

lemma client_read_turn:
  assumes inv: "talk_inv data t" and len: "length data = 100" and pc: "cl_pc (t_client t) = Client_read"
    and k: "0 < k" "k \<le> length (s2c t)"
  shows "\<exists>buf. store_at (cl_readn (t_client t)) (take k (s2c t)) (cl_buffer (t_client t)) = Inr buf \<and>
    turn_ok data t (Inr (t\<lparr>s2c := drop k (s2c t), t_client :=
      (t_client t)\<lparr>cl_buffer := buf, cl_readn := cl_readn (t_client t) + word_of_int (int k)\<rparr>\<rparr>))"
proof -
  let ?c = "t_client t" and ?n = "unat (cl_readn (t_client t))"
  have flow: "take ?n (cl_buffer ?c) @ s2c t = take (unat (sv_writen (t_server t))) (map flip_byte data)"
    and buf: "length (cl_buffer ?c) = 100" "?n \<le> 100"
    using inv by (auto simp: talk_inv_def client_ok_def)
  have "length (take ?n (cl_buffer ?c) @ s2c t) \<le> 100" unfolding flow using len by simp
  then have room: "?n + k \<le> 100" using buf k(2) by simp
  then obtain buf' where b: "store_at (cl_readn ?c) (take k (s2c t)) (cl_buffer ?c) = Inr buf'" "length buf' = 100"
      "take (?n + k) buf' = take ?n (cl_buffer ?c) @ take k (s2c t)"
    using store_at_ok [of "cl_readn ?c" "take k (s2c t)" "cl_buffer ?c"] buf k(2) by auto
  note n = unat_advance [OF room]
  let ?t = "t\<lparr>s2c := drop k (s2c t), t_client := ?c\<lparr>cl_buffer := buf', cl_readn := cl_readn ?c + word_of_int (int k)\<rparr>\<rparr>"
  have "take (?n + k) buf' @ drop k (s2c t) = take (unat (sv_writen (t_server t))) (map flip_byte data)"
    unfolding b(3) flow [symmetric] by simp
  then have "talk_inv data ?t" using inv pc b(2) n room by (simp add: client_side)
  moreover have "talk_rank ?t < talk_rank t"
    using pc n room k(1) by (simp add: talk_rank_def client_rank_def)
  ultimately show ?thesis using b(1) by auto
qed

lemma client_eof_turn:
  assumes inv: "talk_inv data t" and len: "length data = 100" and pc: "cl_pc (t_client t) = Client_read"
    and eof: "s_closed t" "s2c t = []"
  shows "turn_ok data t (Inr (t\<lparr>t_client := client_check data (t_client t)\<rparr>))"
proof -
  let ?c = "t_client t"
  have "sv_writen (t_server t) = 100"
    using inv eof(1) by (auto simp: talk_inv_def server_ok_def split: server_pc.splits bool.splits if_splits)
  then have flow: "take (unat (cl_readn ?c)) (cl_buffer ?c) = map flip_byte data"
    using inv eof(2) len by (simp add: talk_inv_def)
  moreover have buf: "length (cl_buffer ?c) = 100" "unat (cl_readn ?c) \<le> 100" using inv by (auto simp: talk_inv_def client_ok_def)
  ultimately have n: "unat (cl_readn ?c) = 100" using len by (metis length_map length_take min.absorb2)
  then have c: "cl_readn ?c = 100" "cl_buffer ?c = map flip_byte data" using flow buf by (simp_all add: unat_100_iff)
  let ?c' = "client_check data ?c"
  have c': "?c' = ?c\<lparr>cl_pc := Client_close, cl_verdict := Some (0 \<notin> set data)\<rparr>"
    using c flip_correct_iff [OF len] by (simp add: client_check_def kTestDataSize_def)
  have "talk_inv data (t\<lparr>t_client := ?c'\<rparr>)" using inv pc c(1) unfolding c' by (auto simp: client_side)
  moreover have "talk_rank (t\<lparr>t_client := ?c'\<rparr>) < talk_rank t"
    using pc unfolding c' by (simp add: talk_rank_def client_rank_def)
  ultimately show ?thesis by simp
qed

lemma client_turn_ok:
  assumes inv: "talk_inv data t" and len: "length data = 100"
    and call: "client_call data (t_client t) = Some call" and ans: "client_answer t call r t'"
  shows "turn_ok data t (bindR (client_reply data (cl_pc (t_client t)) r (t_client t)) (\<lambda>c. Inr (t'\<lparr>t_client := c\<rparr>)))"
proof (cases "cl_pc (t_client t)")
  case Client_write
  let ?w = "cl_writen (t_client t)"
  have w: "unat ?w < 100" using inv Client_write by (simp add: client_side)
  then have "call = Sys_write (cl_fd (t_client t)) (drop (unat ?w) data) (100 - int (unat ?w))"
    using call Client_write bytes_left [of ?w] by simp
  with ans obtain k where k: "0 < k" "int k \<le> 100 - int (unat ?w)" "r = Num (int k)"
      "t' = t\<lparr>c2s := c2s t @ take k (drop (unat ?w) data)\<rparr>"
    by (auto elim: client_answer_cases)
  then have "unat ?w + k \<le> 100" by linarith
  then show ?thesis using client_write_turn [OF inv len Client_write k(1)] k Client_write by simp
next
  case Client_read
  then have "call = Sys_read (cl_fd (t_client t)) (int32_of_uint32 kTestDataSize)" using call by simp
  with ans consider (bytes) k where "0 < k" "k \<le> length (s2c t)" "r = Bytes (int k) (take k (s2c t))"
      "t' = t\<lparr>s2c := drop k (s2c t)\<rparr>"
    | (eof) "s_closed t" "s2c t = []" "r = Bytes 0 []" "t' = t"
    by (auto elim: client_answer_cases)
  then show ?thesis
  proof cases
    case bytes
    then show ?thesis using client_read_turn [OF inv len Client_read bytes(1,2)] Client_read by auto
  next
    case eof
    have "store_at (cl_readn (t_client t)) [] (cl_buffer (t_client t)) = Inr (cl_buffer (t_client t))"
      using inv by (simp add: store_at_def client_side)
    then show ?thesis using client_eof_turn [OF inv len Client_read eof(1,2)] eof(3,4) Client_read by simp
  qed
qed (use assms in \<open>auto elim!: client_answer_cases simp: client_side client_write_loop_def
    kTestDataSize_def talk_rank_def client_rank_def\<close>)

subsection \<open>The server's turn\<close>

lemmas server_side = talk_inv_def server_ok_def taken_def

lemma server_write_turn:
  assumes inv: "talk_inv data t" and len: "length data = 100" and pc: "sv_pc (t_server t) = Server_write"
    and k: "0 < k" "unat (sv_writen (t_server t)) + k \<le> 100"
  shows "turn_ok data t (Inr (t\<lparr>s2c := s2c t @ take k (drop (unat (sv_writen (t_server t))) (receive_buffer (t_server t))),
      t_server := server_write_loop ((t_server t)\<lparr>sv_writen := sv_writen (t_server t) + word_of_int (int k)\<rparr>)\<rparr>))"
    (is "turn_ok data t (Inr ?t)")
proof -
  let ?s = "t_server t" and ?w = "sv_writen (t_server t) + word_of_int (int k)"
  have w: "unat ?w = unat (sv_writen ?s) + k" by (rule unat_advance [OF k(2)])
  have buf: "receive_buffer ?s = map flip_byte data" using inv pc by (simp add: server_side served_def)
  have "take (unat (sv_writen ?s) + k) (map flip_byte data) =
      take (unat (sv_writen ?s)) (map flip_byte data) @ take k (drop (unat (sv_writen ?s)) (map flip_byte data))"
    by (rule take_add)
  moreover have "?w = 100" if "\<not> unat (sv_writen ?s) + k < 100" using that w k(2) by (simp add: u32_eq_iff)
  ultimately have "talk_inv data ?t"
    using inv pc w unfolding buf by (auto simp: server_side served_def server_write_loop_def kTestDataSize_def word_less_nat_alt)
  moreover have "talk_rank ?t < talk_rank t"
    using pc w k by (auto simp: talk_rank_def server_rank_def server_write_loop_def kTestDataSize_def word_less_nat_alt)
  ultimately show ?thesis by simp
qed

lemma server_read_turn:
  assumes inv: "talk_inv data t" and len: "length data = 100" and pc: "sv_pc (t_server t) = Server_read"
    and k: "0 < k" "k \<le> length (c2s t)"
  shows "\<exists>buf. store_at (sv_readn (t_server t)) (take k (c2s t)) (receive_buffer (t_server t)) = Inr buf \<and>
    turn_ok data t (Inr (t\<lparr>c2s := drop k (c2s t), t_server := server_read_loop data
      ((t_server t)\<lparr>receive_buffer := buf, sv_readn := sv_readn (t_server t) + word_of_int (int k)\<rparr>)\<rparr>))"
proof -
  let ?s = "t_server t" and ?n = "unat (sv_readn (t_server t))" and ?w = "unat (cl_writen (t_client t))"
  have flow: "take ?n (receive_buffer ?s) @ c2s t = take ?w data"
    and buf: "length (receive_buffer ?s) = 100" "?n < 100" and st: "listening t" "accepted t" "\<not> s_closed t" "sv_writen ?s = 0"
    using inv pc by (auto simp: server_side)
  have "length (take ?n (receive_buffer ?s) @ c2s t) \<le> 100" unfolding flow using len by simp
  then have room: "?n + k \<le> 100" using buf k(2) by simp
  then obtain buf' where b: "store_at (sv_readn ?s) (take k (c2s t)) (receive_buffer ?s) = Inr buf'" "length buf' = 100"
      "take (?n + k) buf' = take ?n (receive_buffer ?s) @ take k (c2s t)"
    using store_at_ok [of "sv_readn ?s" "take k (c2s t)" "receive_buffer ?s"] buf k(2) by auto
  note n = unat_advance [OF room]
  let ?s' = "?s\<lparr>receive_buffer := buf', sv_readn := sv_readn ?s + word_of_int (int k)\<rparr>"
  let ?t = "t\<lparr>c2s := drop k (c2s t), t_server := server_read_loop data ?s'\<rparr>"
  have all: "take (?n + k) buf' @ drop k (c2s t) = take ?w data"
    unfolding b(3) flow [symmetric] by simp
  have "talk_inv data ?t \<and> talk_rank ?t < talk_rank t"
  proof (cases "?n + k < 100")
    case True
    then have "server_read_loop data ?s' = ?s'\<lparr>sv_pc := Server_read\<rparr>"
      using n by (simp add: server_read_loop_def kTestDataSize_def word_less_nat_alt)
    then show ?thesis
      using inv pc b(2) n True k(1) all st by (auto simp: server_side talk_rank_def server_rank_def)
  next
    case False
    then have 100: "?n + k = 100" using room by simp
    then have full: "sv_readn ?s + word_of_int (int k) = 100" using n by (simp add: u32_eq_iff)
    have "length (take ?w data) = 100 + length (drop k (c2s t))"
      using arg_cong [OF all, of length] b(2) 100 by simp
    then have c2s: "drop k (c2s t) = []" "take ?w data = data" using len by auto
    then have "buf' = data" using all 100 b(2) by simp
    then have "server_read_loop data ?s' = ?s'\<lparr>sv_pc := Server_write, sv_correct := Some True,
        receive_buffer := map flip_byte data, sv_writen := 0\<rparr>"
      using full len by (simp add: server_read_loop_def server_serve_def server_write_loop_def kTestDataSize_def
          ReceivedDataCorrect_def)
    then show ?thesis
      using inv pc len full st c2s 100 buf(2) by (auto simp: server_side served_def talk_rank_def server_rank_def)
  qed
  then show ?thesis using b(1) by auto
qed

lemma server_no_eof:
  assumes inv: "talk_inv data t" and pc: "sv_pc (t_server t) = Server_read" and eof: "c_closed t"
  shows False
proof -
  have "cl_readn (t_client t) = 100" "length (cl_buffer (t_client t)) = 100" using inv eof by (auto simp: client_side)
  moreover have "take (unat (cl_readn (t_client t))) (cl_buffer (t_client t)) = []"
    using inv pc by (auto simp: server_side)
  ultimately show False by auto
qed

lemma server_turn_ok:
  assumes inv: "talk_inv data t" and len: "length data = 100"
    and call: "server_call (t_server t) = Some call" and ans: "server_answer t call r t'"
  shows "turn_ok data t (bindR (server_reply data (sv_pc (t_server t)) r (t_server t)) (\<lambda>s. Inr (t'\<lparr>t_server := s\<rparr>)))"
proof (cases "sv_pc (t_server t)")
  case Server_write
  let ?w = "sv_writen (t_server t)"
  have w: "unat ?w < 100" using inv Server_write by (simp add: server_side)
  then have "call = Sys_write (sv_tcp_socket (t_server t)) (drop (unat ?w) (receive_buffer (t_server t))) (100 - int (unat ?w))"
    using call Server_write bytes_left [of ?w] by simp
  with ans obtain k where k: "0 < k" "int k \<le> 100 - int (unat ?w)" "r = Num (int k)"
      "t' = t\<lparr>s2c := s2c t @ take k (drop (unat ?w) (receive_buffer (t_server t)))\<rparr>"
    by (auto elim: server_answer_cases)
  then have "unat ?w + k \<le> 100" by linarith
  then show ?thesis using server_write_turn [OF inv len Server_write k(1)] k Server_write by simp
next
  case Server_read
  then have "call = Sys_read (sv_tcp_socket (t_server t)) (int32_of_uint32 kTestDataSize)" using call by simp
  with ans server_no_eof [OF inv Server_read] obtain k where
    k: "0 < k" "k \<le> length (c2s t)" "r = Bytes (int k) (take k (c2s t))" "t' = t\<lparr>c2s := drop k (c2s t)\<rparr>"
    by (auto elim: server_answer_cases)
  then show ?thesis using server_read_turn [OF inv len Server_read k(1,2)] Server_read by (auto simp: Let_def)
next
  case Server_accept
  then have "call = Sys_accept (sv_sock_fd (t_server t))" using call by simp
  with ans obtain fd where "connected t" "\<not> accepted t" "0 \<le> fd" "r = Num fd" "t' = t\<lparr>accepted := True\<rparr>"
    by (auto elim: server_answer_cases)
  then show ?thesis
    using inv Server_accept by (auto simp: server_side server_read_loop_def kTestDataSize_def talk_rank_def server_rank_def)
next
  case (Server_close ret)
  then have "call = Sys_close (sv_tcp_socket (t_server t))" "ret = False"
    using call inv by (auto simp: server_side split: bool.splits)
  with ans Server_close show ?thesis
    using inv by (auto elim!: server_answer_cases simp: server_side served_def talk_rank_def server_rank_def)
qed (use assms in \<open>auto elim!: server_answer_cases simp: server_side talk_rank_def server_rank_def\<close>)

lemma talk_next_ok:
  assumes "talk_inv data t" "length data = 100" "talk_next data t r"
  shows "turn_ok data t r"
  using assms(3,1,2) by (induction rule: talk_next.induct) (auto intro: client_turn_ok server_turn_ok)

subsection \<open>Somebody can always go on\<close>

definition finished :: "talk \<Rightarrow> bool" where
  "finished t \<longleftrightarrow> cl_pc (t_client t) = Client_done \<and> sv_pc (t_server t) = Server_accept \<and> accepted t"

lemma client_can_go:
  assumes "client_call data (t_client t) = Some call" "client_answer t call r t'"
  shows "\<exists>r. talk_next data t r"
  using talk_next.client_turn [OF assms] by blast

lemma server_can_go:
  assumes "server_call (t_server t) = Some call" "server_answer t call r t'"
  shows "\<exists>r. talk_next data t r"
  using talk_next.server_turn [OF assms] by blast

lemma test_size: "int32_of_uint32 kTestDataSize = 100"
  using bytes_left [of 0] by simp

lemma bytes_left_pos: "unat w < 100 \<Longrightarrow> int 1 \<le> int32_of_uint32 (kTestDataSize - w)"
  using bytes_left [of w] by linarith

lemma server_progress:
  assumes inv: "talk_inv data t" and len: "length data = 100" and con: "connected t"
    and all: "cl_writen (t_client t) = 100"
  shows "(\<exists>r. talk_next data t r) \<or> sv_pc (t_server t) = Server_accept \<and> accepted t"
proof (cases "sv_pc (t_server t)")
  case Server_accept
  with con show ?thesis by (cases "accepted t") (auto intro!: server_can_go server_answer.intros)
next
  case Server_read
  have "take (unat (sv_readn (t_server t))) (receive_buffer (t_server t)) @ c2s t = data" "unat (sv_readn (t_server t)) < 100"
    using inv Server_read all len by (auto simp: server_side)
  then have "c2s t \<noteq> []" using len by (auto dest: arg_cong [where f = length])
  then show ?thesis
    using Server_read test_size
    by (intro disjI1 server_can_go [OF _ server_answer.intros(6) [of 1]]) (auto simp: Suc_le_eq)
next
  case Server_write
  have "unat (sv_writen (t_server t)) < 100" "length (receive_buffer (t_server t)) = 100"
    using inv Server_write by (auto simp: server_side)
  then show ?thesis
    using Server_write bytes_left_pos [of "sv_writen (t_server t)"]
    by (intro disjI1 server_can_go [OF _ server_answer.intros(5) [of 1]]) (auto simp: Suc_le_eq)
next
  case (Server_close ret)
  then show ?thesis by (intro disjI1 server_can_go [OF _ server_answer.intros(8)]) auto
qed (use inv con in \<open>auto simp: server_side\<close>)

lemma talk_progress:
  assumes inv: "talk_inv data t" and len: "length data = 100" and not: "\<not> finished t"
  shows "\<exists>r. talk_next data t r"
proof (cases "cl_pc (t_client t)")
  case Client_socket
  then show ?thesis by (intro client_can_go [OF _ client_answer.intros(1) [of 0]]) auto
next
  case Client_bind
  then show ?thesis by (intro client_can_go [OF _ client_answer.intros(2)]) auto
next
  case Client_connect
  show ?thesis
  proof (cases "listening t")
    case True
    then show ?thesis using Client_connect by (intro client_can_go [OF _ client_answer.intros(3)]) auto
  next
    case False
    then have "sv_pc (t_server t) \<in> {Server_socket, Server_bind, Server_listen}"
      using inv by (auto simp: server_side split: server_pc.splits bool.splits)
    then show ?thesis
      using server_can_go [OF _ server_answer.intros(1) [of 0]] server_can_go [OF _ server_answer.intros(2)]
        server_can_go [OF _ server_answer.intros(3)] by auto
  qed
next
  case Client_write
  then have "unat (cl_writen (t_client t)) < 100" using inv by (simp add: client_side)
  then show ?thesis
    using Client_write bytes_left_pos [of "cl_writen (t_client t)"] len
    by (intro client_can_go [OF _ client_answer.intros(4) [of 1]]) (auto simp: Suc_le_eq)
next
  case Client_read
  show ?thesis
  proof (cases "s2c t = []")
    case True
    have "connected t" "cl_writen (t_client t) = 100" using inv Client_read by (auto simp: client_side)
    from server_progress [OF inv len this] show ?thesis
    proof
      assume "sv_pc (t_server t) = Server_accept \<and> accepted t"
      then have "s_closed t" using inv by (auto simp: server_side)
      then show ?thesis using True Client_read by (intro client_can_go [OF _ client_answer.intros(6)]) auto
    qed
  next
    case False
    then show ?thesis
      using Client_read test_size by (intro client_can_go [OF _ client_answer.intros(5) [of 1]]) (auto simp: Suc_le_eq)
  qed
next
  case Client_close
  then show ?thesis by (intro client_can_go [OF _ client_answer.intros(7)]) auto
next
  case Client_done
  then have "connected t" "cl_writen (t_client t) = 100" using inv by (auto simp: client_side)
  from server_progress [OF inv len this] show ?thesis using not Client_done by (auto simp: finished_def)
qed

section \<open>Properties\<close>

lemma talk_runs:
  assumes "talk_inv data s" "length data = 100" "(talk_step data ^^ n) s t"
  shows "talk_inv data t \<and> talk_rank t + n \<le> talk_rank s"
  using assms(3)
proof (induction n arbitrary: t)
  case 0
  then show ?case using assms(1) by simp
next
  case (Suc n)
  then obtain u where u: "(talk_step data ^^ n) s u" "talk_next data u (Inr t)"
    by (auto simp flip: talk_step_def)
  with Suc.IH have "talk_inv data u" "talk_rank u + n \<le> talk_rank s" by auto
  with talk_next_ok [OF _ assms(2) u(2)] show ?case by simp
qed

lemma finished_verdicts:
  assumes "talk_inv data t" "finished t"
  shows "cl_verdict (t_client t) = Some (0 \<notin> set data)" "sv_correct (t_server t) = Some True"
  using assms by (auto simp: finished_def client_side server_side served_def)



end
