(* ===== verification/Spec2Isabelle.thy ===== *)
theory Spec2Isabelle
  imports Connection_Progress Host_Delivery Queue_Threads Tcp_Congestion Recv_Nodes Test_Programs
begin

text \<open>
  A verification development for a user-space TCP stack in C++ (\<^verbatim>\<open>src/src\<close>).

  \<^bold>\<open>The program.\<close> A process (\<^verbatim>\<open>Process\<close> in \<^verbatim>\<open>Host.cc\<close>) makes socket calls on its host
  (\<^verbatim>\<open>Host\<close>). The host keeps the open file table with its sockets (\<^verbatim>\<open>Kernel.cc\<close>), the
  listeners, the pools of descriptors, ports and file ids (\<^verbatim>\<open>NumPool.cc\<close>), and one
  \<^verbatim>\<open>TcpController\<close> per connection under the key of \<^verbatim>\<open>Common.h\<close>. A controller moves bytes from
  the socket's send buffer through a send window (\<^verbatim>\<open>SendWindow.cc\<close>) into packets
  (\<^verbatim>\<open>Packet.cc\<close>), and from packets through a receive window (\<^verbatim>\<open>RecvWindow.cc\<close>) into the
  socket's receive buffer; it opens, closes and times the connection. Packets travel through
  thread-safe queues (\<^verbatim>\<open>PacketQueue.cc\<close>) and a one-way channel that loses packets at random
  (\<^verbatim>\<open>BaseChannel.cc\<close>) to the other host, which hands them to the controller of their key.

  \<^bold>\<open>The theories.\<close>

  \<^item> \<open>Tcp_Prelude\<close>: machine integers and their conversions, faults (failed sanity checks,
    fatal log messages, undefined behaviour, divergence) as values of \<open>'a checked\<close>, calls that
    may block as values of \<open>'a waits\<close>, and the locale \<open>invariant_system\<close> of transition systems
    with an invariant.
  \<^item> \<open>Packets\<close>, \<open>Common_Keys\<close>, \<open>Kernel_Objects\<close>, \<open>Num_Pool\<close>: headers, packets with their copies
    and injections, connection keys with their orders and hashes, sockets and open files, and
    the pool of numbers with the locale \<open>id_pool\<close> of what its users rely on.
  \<^item> \<open>Send_Window\<close>, \<open>Recv_Window\<close>: the two halves of the sliding window on 32-bit words. What
    each operation does on every branch, the well-formedness it keeps, and where its sanity
    checks fail on packets a network can produce.
  \<^item> \<open>Recv_Nodes\<close>: the receive window with the pointers of its doubly linked list, on a store of
    nodes, whose loops may run forever (\<open>None\<close>); it is equivalent to the list of \<open>Recv_Window\<close>.
  \<^item> \<open>Packet_Queue\<close>, \<open>Queue_Threads\<close>: the queue's operations as functions, with the locale
    \<open>packet_fifo\<close>; and its threads as a transition system with mutex, condition variables and
    reader count: order is kept under every interleaving, and \<^verbatim>\<open>Stop\<close> has two races.
  \<^item> \<open>Base_Channel\<close>: the channel over a stream of random numbers. It drops and never reorders.
  \<^item> \<open>Ring_Buffer\<close>: the interface of the library's ring buffer, a record of its methods and the
    laws they are documented to keep, with a list buffer that satisfies them.
  \<^item> \<open>Tcp_Controller\<close>: the whole controller, every handler, listener round, timer callback and
    call of the application. \<open>Tcp_Sending\<close>, \<open>Tcp_Receiving\<close>: the two pipelines between socket
    buffer and packets. \<open>Tcp_States\<close>: the controller as a transition system, its invariants and
    the history of its TCP state. \<open>Tcp_Frames\<close>: what its operations leave to the host, and that
    every packet it queues carries its key. \<open>Tcp_Handshake\<close>: opening and orderly release between two
    controllers. \<open>Tcp_Congestion\<close>: congestion control and the round trip estimator.
  \<^item> \<open>Packet_Stream\<close>, \<open>Transport\<close>: the two windows connected by lossy channels; safety of every
    interleaving, and a bounded loss-free continuation that completes the transfer.
  \<^item> \<open>Connection\<close>: two whole controllers with writing and reading applications over a lossy path.
    The system refines \<open>Transport\<close> by a simulation relation, and the bytes read are always a
    prefix of the bytes written. \<open>Connection_Progress\<close>: from every state of such a run, threads,
    timers and a path that loses nothing are able to bring every byte written to the reader.
  \<^item> \<open>Host_Model\<close>, \<open>Process_Calls\<close>: the host, its system calls, its multiplexing, and the calls of
    a process. Controllers are at addresses, so that dangling pointers show.
    \<open>Host_Routing\<close>: how packets find their connection, passive open. \<open>Host_Resources\<close>: ports,
    descriptors, file ids and the resource invariant. \<open>Host_System\<close>: the host as a transition
    system that keeps the invariant, and what becomes of a closed socket.
  \<^item> \<open>Host_Connection\<close>, \<open>Host_Delivery\<close>: one connection between two whole hosts over two channels,
    with other connections beside it. Every station of a packet is a step: the controller's
    queue, the host's queue to the channel, the channel, the host's queue from it, the
    controller's inbox. Seen through the stations each step is a run of \<open>Connection\<close> (a packet
    dropped by the channel is a loss, a round of the inbox a sequence of arrivals), so the
    bytes that \<^verbatim>\<open>Host::ReadData\<close> returns are a prefix of those that \<^verbatim>\<open>Host::WriteData\<close> took.
  \<^item> \<open>Test_Programs\<close>: the client and the server of \<^verbatim>\<open>main.cc\<close> as machines of system calls, the
    world \<^verbatim>\<open>main\<close> builds around them and the interleaving of its threads, and the conversation
    of the two programs over byte streams, which always ends in the right verdicts.

  \<^bold>\<open>Correspondence.\<close> A class is a record with its members, a method a function from the state to
  its result and the new state; definitions keep the names of the sources, with the class in
  front where two classes share a name. Exceptions, failed checks and undefined behaviour are
  \<open>Inl\<close> of a fault. A method that waits on a condition variable returns \<open>Blocks\<close> when it would
  wait. A thread's loop is the function of one round, \<open>None\<close> when the loop ends; \<open>tcp_step\<close>,
  \<open>queue_step\<close>, \<open>host_step\<close>, \<open>world_step\<close>, \<open>conn_step\<close> and \<open>hosts_step\<close> interleave the rounds. Timers are the log of the
  calls made to them: they may fire whenever the step relations allow it. The duplicate
  threshold, a variable of \<^verbatim>\<open>SendWindow.cc\<close> shared by all windows, is passed explicitly.

  \<^bold>\<open>Bounds.\<close> No definition needs fuel; the loops over linked nodes are partial functions that are
  proved to return. The transfer theorems assume that fewer than \<open>2^31\<close> events (through the
  hosts a fifth of that, as one round may handle many packets) happen and that the bytes sent stay within the sequence space: the receive window compares
  sequence numbers without regard to wrap-around, and the duplicate threshold, multiplied by
  1.5 without limit, would leave its type. Ring buffers hold less than \<open>2^31\<close> bytes, because
  their sizes pass through \<^verbatim>\<open>int32\<close>. Progress assumes a receive buffer of 1 to 65535 bytes: the
  window is announced in 16 bits, and a larger buffer can announce zero for ever.

  \<^bold>\<open>Library code.\<close> Ring buffer, hash functions, random numbers and stop watches are arguments of
  the definitions that use them; the theorems state the laws they need.

  \<^bold>\<open>Not modelled.\<close> The macro of \<^verbatim>\<open>debug.h\<close>, which prints; the destructors that only free memory
  or call a method that is modelled; the 20 ms a packet spends in the
  channel and the client's sleep, which only orders the start; the four files of unit tests.
  Mutexes are modelled for \<^verbatim>\<open>PacketQueue\<close>; elsewhere a
  round of a thread is atomic, as the code holds its locks over it.
\<close>

end
